(* ===== verification/Uring_Prelude.thy ===== *)
theory Uring_Prelude
  imports Main "HOL-Library.Word"
begin

unbundle bit_operations_syntax

text \<open>
  Shared vocabulary of the development: Go's machine integers, the values a Go function
  can end in (a result or a panic), Go's truncating division, the arithmetic of
  power-of-two rings that the submission and completion queues of
  \<^verbatim>\<open>src/uring/ring.go\<close> index with \<^verbatim>\<open>i & mask\<close>, and the contracts of
  step relations: an invariant that a run keeps, and a simulation of one machine by another.
\<close>

section \<open>Machine integers\<close>

type_synonym u8 = "8 word"
type_synonym u16 = "16 word"
type_synonym u32 = "32 word"
type_synonym u64 = "64 word"

text \<open>
  Go's \<^verbatim>\<open>uint32\<close>, \<^verbatim>\<open>uint64\<close> and \<^verbatim>\<open>uintptr\<close> wrap around, so they are words. An
  \<^verbatim>\<open>int32\<close> is a \<open>32 word\<close> read with \<open>sint\<close>. Go's \<^verbatim>\<open>int\<close> is 64 bits wide; where the
  code keeps descriptors, indices and counts in it the model uses \<open>int\<close>, since those
  values stay far below \<open>2 ^ 63\<close>.
\<close>

named_theorems ring_arith
  \<open>facts that move the wrap-around arithmetic of ring counters to natural numbers\<close>

named_theorems go_outcome
  \<open>simplification rules and splits for the result type of the model\<close>

section \<open>Results, errors and panics\<close>

text \<open>
  A Go error value. The constructors are the sentinel errors of the sources, the error
  wrappers they use (\<^verbatim>\<open>os.NewSyscallError\<close>, \<^verbatim>\<open>fmt.Errorf\<close> with a \<^verbatim>\<open>%w\<close> verb,
  \<^verbatim>\<open>net.OpError\<close>) and plain \<^verbatim>\<open>errors.New\<close> texts.
\<close>

datatype go_error =
    Errno u64
  | ErrRingSetup
  | ErrSQOverflow
  | ErrRequirements
  | ErrDeadlineExceeded
  | EOF
  | ErrUnexpectedEOF
  | NewError string
  | SyscallError string go_error
  | Wrapped go_error string
  | WrappedNil string
  | OpError string go_error

text \<open>The error strictly below a wrapper, as \<^verbatim>\<open>errors.Unwrap\<close> returns it.\<close>

fun unwrap :: "go_error \<Rightarrow> go_error option" where
  "unwrap (SyscallError _ e) = Some e"
| "unwrap (Wrapped e _) = Some e"
| "unwrap (OpError _ e) = Some e"
| "unwrap _ = None"

text \<open>\<^verbatim>\<open>errors.Is\<close>: the target occurs on the chain of unwrapped errors.\<close>

fun errors_is :: "go_error \<Rightarrow> go_error \<Rightarrow> bool" where
  "errors_is (SyscallError s e) t = (SyscallError s e = t \<or> errors_is e t)"
| "errors_is (Wrapped e s) t = (Wrapped e s = t \<or> errors_is e t)"
| "errors_is (OpError s e) t = (OpError s e = t \<or> errors_is e t)"
| "errors_is e t = (e = t)"

definition err_is :: "go_error option \<Rightarrow> go_error \<Rightarrow> bool" where
  "err_is e t = (case e of None \<Rightarrow> False | Some e' \<Rightarrow> errors_is e' t)"

lemma errors_is_refl [simp]: "errors_is e e"
  by (cases e) auto

lemma err_is_None [simp]: "\<not> err_is None t"
  by (simp add: err_is_def)

lemma err_is_Some [simp]: "err_is (Some e) t = errors_is e t"
  by (simp add: err_is_def)

text \<open>
  How a call can fail to return: Go's run-time panics, and \<open>WildAccess\<close> for a read or
  write through \<^verbatim>\<open>unsafe\<close> that leaves the mapped ring memory.
\<close>

datatype go_panic =
    IndexOutOfRange
  | NilDeref
  | NilFuncCall
  | MakeSliceLen
  | DivideByZero
  | SendOnClosed
  | PanicErr go_error
  | WildAccess

datatype 'a outcome = Ok 'a | Panic go_panic

primrec obind :: "'a outcome \<Rightarrow> ('a \<Rightarrow> 'b outcome) \<Rightarrow> 'b outcome" where
  "obind (Ok x) f = f x"
| "obind (Panic p) f = Panic p"

lemma obind_Ok_iff [go_outcome]:
  "obind m f = Ok y \<longleftrightarrow> (\<exists>x. m = Ok x \<and> f x = Ok y)"
  by (cases m) auto

section \<open>Go's integer division\<close>

text \<open>
  \<^verbatim>\<open>/\<close> and \<^verbatim>\<open>%\<close> on Go's signed integers truncate towards zero; a zero divisor panics
  (the callers of these functions check it first).
\<close>

definition go_quot :: "int \<Rightarrow> int \<Rightarrow> int" where
  "go_quot a b = sgn a * sgn b * (\<bar>a\<bar> div \<bar>b\<bar>)"

definition go_rem :: "int \<Rightarrow> int \<Rightarrow> int" where
  "go_rem a b = sgn a * (\<bar>a\<bar> mod \<bar>b\<bar>)"

lemma go_quot_nonneg [simp]: "0 \<le> a \<Longrightarrow> 0 < b \<Longrightarrow> go_quot a b = a div b"
  by (cases "a = 0") (auto simp: go_quot_def)

lemma go_rem_nonneg [simp]: "0 \<le> a \<Longrightarrow> 0 < b \<Longrightarrow> go_rem a b = a mod b"
  by (cases "a = 0") (auto simp: go_rem_def)

lemma go_quot_rem: "b \<noteq> 0 \<Longrightarrow> go_quot a b * b + go_rem a b = a"
proof -
  have "sgn b * b = \<bar>b\<bar>" by (simp add: abs_sgn mult.commute)
  then have "go_quot a b * b + go_rem a b = sgn a * (\<bar>a\<bar> div \<bar>b\<bar> * \<bar>b\<bar> + \<bar>a\<bar> mod \<bar>b\<bar>)"
    unfolding go_quot_def go_rem_def by (metis (no_types) distrib_left mult.assoc mult.commute)
  also have "\<dots> = sgn a * \<bar>a\<bar>" by (simp only: div_mult_mod_eq)
  finally show ?thesis by (simp add: sgn_mult_abs)
qed

section \<open>Lists\<close>

lemma map_nth_upt_append:
  "map f [0..<m + n] = map f [0..<m] @ map (\<lambda>i. f (m + i)) [0..<n]"
proof -
  have "[0..<m + n] = [0..<m] @ [m..<m + n]"
    by (rule upt_add_eq_append) simp
  moreover have "[m..<m + n] = map ((+) m) [0..<n]"
    by (induction n) simp_all
  ultimately show ?thesis by simp
qed

lemma map_upt_cong: "(\<And>i. i < n \<Longrightarrow> f i = g i) \<Longrightarrow> map f [0..<n] = map g [0..<n]"
  by simp

section \<open>Power-of-two rings\<close>

text \<open>
  \<open>ringIdx i m\<close> is \<^verbatim>\<open>i & mask\<close>, the slot a free-running counter falls on. \<open>window m a n\<close> is
  the sequence of slots of the counters \<open>a, a + 1, \<dots>, a + n - 1\<close>, with the wrap-around
  of the 32-bit counter.
\<close>

definition ringIdx :: "u32 \<Rightarrow> u32 \<Rightarrow> nat" where
  "ringIdx i m = unat (i AND m)"

definition window :: "u32 \<Rightarrow> u32 \<Rightarrow> nat \<Rightarrow> nat list" where
  "window m a n = map (\<lambda>i. ringIdx (a + of_nat i) m) [0..<n]"

definition pow2_ring :: "nat \<Rightarrow> u32 \<Rightarrow> u32 \<Rightarrow> bool" where
  "pow2_ring k entries m \<longleftrightarrow> k < 32 \<and> entries = 2 ^ k \<and> m = 2 ^ k - 1"

lemma unat_pow2: "k < 32 \<Longrightarrow> unat (2 ^ k :: u32) = 2 ^ k"
proof -
  assume "k < 32"
  then have "(2 :: nat) ^ k < 2 ^ 32" by (intro power_strict_increasing) auto
  then have "unat (of_nat (2 ^ k) :: u32) = 2 ^ k"
    by (subst unat_of_nat) simp
  then show ?thesis by simp
qed

lemma unat_and_pow2: "k < 32 \<Longrightarrow> unat ((x :: u32) AND (2 ^ k - 1)) = unat x mod 2 ^ k"
proof -
  have "x AND (2 ^ k - 1) = take_bit k x"
    by (simp only: take_bit_eq_mask mask_eq_exp_minus_1)
  then have "unat (x AND (2 ^ k - 1)) = take_bit k (unat x)"
    by (simp only: unsigned_take_bit_eq)
  then show ?thesis
    by (simp only: take_bit_eq_mod)
qed

lemma unat_add_of_nat_mod:
  assumes "k < 32"
  shows "unat ((a :: u32) + of_nat n) mod 2 ^ k = (unat a + n) mod 2 ^ k"
proof -
  have dvd: "(2 ^ k :: nat) dvd 2 ^ 32"
    using assms by (intro le_imp_power_dvd) simp
  have "unat (a + of_nat n) = (unat a + n mod 2 ^ 32) mod 2 ^ 32"
    by (simp add: unat_word_ariths unat_of_nat)
  also have "\<dots> = (unat a + n) mod 2 ^ 32" by (simp add: mod_simps)
  finally show ?thesis using dvd by (simp add: mod_mod_cancel)
qed

lemma ringIdx_add [ring_arith]:
  "pow2_ring k e m \<Longrightarrow> ringIdx (a + of_nat n) m = (unat a + n) mod 2 ^ k"
  by (auto simp: ringIdx_def pow2_ring_def unat_and_pow2 unat_add_of_nat_mod)

lemma ringIdx_eq [ring_arith]: "pow2_ring k e m \<Longrightarrow> ringIdx a m = unat a mod 2 ^ k"
  using ringIdx_add [of k e m a 0] by simp

lemma ringIdx_less: "pow2_ring k e m \<Longrightarrow> ringIdx a m < unat e"
  by (simp add: ringIdx_eq) (simp add: pow2_ring_def unat_pow2)

lemma length_window [simp]: "length (window m a n) = n"
  by (simp add: window_def)

lemma window_0 [simp]: "window m a 0 = []"
  by (simp add: window_def)

lemma nth_window [simp]: "i < n \<Longrightarrow> window m a n ! i = ringIdx (a + of_nat i) m"
  by (simp add: window_def)

lemma window_append:
  "window m a (n + l) = window m a n @ window m (a + of_nat n) l"
  unfolding window_def by (simp add: map_nth_upt_append add.assoc)

lemma window_snoc: "window m a (Suc n) = window m a n @ [ringIdx (a + of_nat n) m]"
  by (simp add: window_def)

lemma window_Cons: "window m a (Suc n) = ringIdx a m # window m (a + 1) n"
  using window_append [of m a 1 n] by (simp add: window_def)

lemma window_less: "pow2_ring k e m \<Longrightarrow> i \<in> set (window m a n) \<Longrightarrow> i < unat e"
  by (auto simp: window_def ringIdx_less)

lemma mod_window_inj:
  fixes a :: nat
  assumes "(a + i) mod 2 ^ k = (a + j) mod 2 ^ k" and "i < 2 ^ k" and "j < 2 ^ k"
  shows "i = j"
proof -
  from assms(1) obtain q1 q2 where "a + i + 2 ^ k * q1 = a + j + 2 ^ k * q2"
    unfolding nat_mod_eq_iff by blast
  then have "i + 2 ^ k * q1 = j + 2 ^ k * q2" by simp
  then have "i mod 2 ^ k = j mod 2 ^ k"
    unfolding nat_mod_eq_iff by blast
  with assms(2,3) show ?thesis by simp
qed

lemma distinct_window:
  assumes "pow2_ring k e m" and "n \<le> unat e"
  shows "distinct (window m a n)"
proof -
  have "n \<le> 2 ^ k" using assms by (simp add: pow2_ring_def unat_pow2)
  then show ?thesis
    using assms(1) by (auto simp: distinct_conv_nth ringIdx_add dest: mod_window_inj)
qed

section \<open>Widening\<close>

lemma unat_ucast_u64 [simp]: "unat (ucast (x :: u32) :: u64) = unat x"
proof -
  have "unat x < 2 ^ 64" using unsigned_less [of x, where ?'a = nat] by simp
  then show ?thesis by (simp add: unsigned_ucast_eq take_bit_eq_mod)
qed

section \<open>Distances between free-running counters\<close>

lemma of_nat_unat_diff [simp]: "(a :: u32) + of_nat (unat (b - a)) = b"
  by simp

lemma unat_diff_add:
  assumes "n \<le> unat ((t :: u32) - h)"
  shows "unat (t - (h + of_nat n)) = unat (t - h) - n"
proof -
  have n: "n < 2 ^ 32" using assms unsigned_less [of "t - h", where ?'a = nat] by simp
  have "t - (h + of_nat n) = (t - h) - of_nat n" by simp
  also have "unat \<dots> = unat (t - h) - n"
    using assms n by (subst unat_sub) (auto simp: word_le_nat_alt unat_of_nat)
  finally show ?thesis .
qed

lemma unat_diff_step:
  assumes "(t :: u32) - h \<noteq> 0"
  shows "unat (t - (h + 1)) = unat (t - h) - 1"
proof -
  have "unat (t - h) \<noteq> 0" using assms by (simp only: unsigned_eq_0_iff not_False_eq_True)
  then show ?thesis using unat_diff_add [of 1 t h] by simp
qed

lemma unat_diff_grow:
  assumes "unat ((t :: u32) - h) + n < 2 ^ 32"
  shows "unat (t + of_nat n - h) = unat (t - h) + n"
proof -
  have "t + of_nat n - h = (t - h) + of_nat n" by simp
  also have "unat \<dots> = unat (t - h) + n"
    using assms by (simp add: unat_word_ariths unat_of_nat)
  finally show ?thesis .
qed

section \<open>Runs of a step relation\<close>

text \<open>A run of one relation gives a run of another along a map of the states.\<close>

lemma run_lift:
  assumes "R\<^sup>*\<^sup>* x y" and "\<And>x y. R x y \<Longrightarrow> S (f x) (f y)"
  shows "S\<^sup>*\<^sup>* (f x) (f y)"
  using assms(1) by (induction rule: rtranclp_induct) (auto intro: rtranclp.rtrancl_into_rtrancl assms(2))

text \<open>
  The state machines of this development are step relations. \<open>ok\<close> is a condition on a run that is
  lost for good once it is lost (no request torn so far, a kernel that conforms); \<open>inv\<close> is kept by
  the steps between states where it holds.
\<close>

locale invariant_system =
  fixes step :: "'s \<Rightarrow> 's \<Rightarrow> bool" and ok :: "'s \<Rightarrow> bool" and inv :: "'s \<Rightarrow> bool"
  assumes ok_before: "step s s' \<Longrightarrow> ok s' \<Longrightarrow> ok s"
    and step_keeps: "step s s' \<Longrightarrow> ok s \<Longrightarrow> ok s' \<Longrightarrow> inv s \<Longrightarrow> inv s'"
begin

lemma run_ok_before: "step\<^sup>*\<^sup>* s s' \<Longrightarrow> ok s' \<Longrightarrow> ok s"
  by (induction rule: converse_rtranclp_induct) (auto intro: ok_before)

lemma run_keeps:
  assumes "step\<^sup>*\<^sup>* s s'" and "ok s'" and "inv s"
  shows "inv s'"
  using assms
proof (induction rule: rtranclp_induct)
  case (step t u)
  then show ?case using ok_before step_keeps by blast
qed

end

text \<open>
  A detailed machine that implements an abstract one: the abstraction of every step is a run of
  the abstract machine, possibly empty. Then whole runs are simulated, and what the abstract
  machine keeps holds of the abstraction of the detailed one.
\<close>

locale simulation = invariant_system step ok inv
  for step :: "'s \<Rightarrow> 's \<Rightarrow> bool" and ok :: "'s \<Rightarrow> bool" and inv :: "'s \<Rightarrow> bool" +
  fixes astep :: "'a \<Rightarrow> 'a \<Rightarrow> bool" and abs :: "'s \<Rightarrow> 'a"
  assumes step_simulated: "step s s' \<Longrightarrow> ok s' \<Longrightarrow> inv s \<Longrightarrow> astep\<^sup>*\<^sup>* (abs s) (abs s')"
begin

lemma run_simulated:
  assumes "step\<^sup>*\<^sup>* s s'" and "ok s'" and "inv s"
  shows "astep\<^sup>*\<^sup>* (abs s) (abs s')"
  using assms
proof (induction rule: rtranclp_induct)
  case (step t u)
  from step.hyps(2) step.prems(1) have "ok t" by (rule ok_before)
  with step run_keeps [of s t] step_simulated [of t u] show ?case by (meson rtranclp_trans)
qed simp

end

end
