(* ===== verification/Uring_Syscall.thy ===== *)
theory Uring_Syscall
  imports Uring_Prelude
begin

unbundle bit_operations_syntax

text \<open>
  The kernel boundary, \<^verbatim>\<open>src/uring/syscall.go\<close> and \<^verbatim>\<open>src/uring/atomic.go\<close>: the flag
  constants, the layout of a submission queue entry and of a completion event, and the
  wrappers around the \<^verbatim>\<open>io_uring_enter\<close> system call.

  The kernel itself is a parameter: a function from the trap number and the argument
  registers to the result register, the errno and the new state of whatever memory the
  kernel shares with the program.
\<close>

section \<open>Flag constants\<close>

definition sysRingEnter :: u64 where "sysRingEnter = 426"

definition numSig :: int where "numSig = 65"

definition sqNeedWakeup :: u32 where "sqNeedWakeup = 1"
definition sqCQOverflow :: u32 where "sqCQOverflow = 2"

definition sysRingEnterGetEvents :: u32 where "sysRingEnterGetEvents = 1"
definition sysRingEnterSQWakeup :: u32 where "sysRingEnterSQWakeup = 2"
definition sysRingEnterExtArg :: u32 where "sysRingEnterExtArg = 8"

definition SqeIOLinkFlag :: u8 where "SqeIOLinkFlag = 4"

definition libUserDataTimeout :: u64 where "libUserDataTimeout = 2 ^ 64 - 1"

lemmas flag_defs =
  sqNeedWakeup_def sqCQOverflow_def sysRingEnterGetEvents_def sysRingEnterSQWakeup_def
  sysRingEnterExtArg_def

section \<open>Atomic accesses\<close>

text \<open>
  A \<^verbatim>\<open>*uint32\<close> into the ring memory is modelled by the cell it points to, so the loads
  return the cell and the store replaces it.
\<close>

definition SmpStoreReleaseUint32 :: "u32 \<Rightarrow> u32 \<Rightarrow> u32" where
  "SmpStoreReleaseUint32 p v = v"

definition SmpLoadAcquireUint32 :: "u32 \<Rightarrow> u32" where
  "SmpLoadAcquireUint32 p = p"

definition ReadOnceUint32 :: "u32 \<Rightarrow> u32" where
  "ReadOnceUint32 p = p"

lemmas atomic_defs [simp] =
  SmpStoreReleaseUint32_def SmpLoadAcquireUint32_def ReadOnceUint32_def

text \<open>
  \<^verbatim>\<open>src/uring/atomic_amd64.go\<close> is an alternative build of the three accesses by plain loads and stores,
  which amd64 keeps in order.
\<close>

definition SmpStoreReleaseUint32_amd64 :: "u32 \<Rightarrow> u32 \<Rightarrow> u32" where
  "SmpStoreReleaseUint32_amd64 p v = v"

definition SmpLoadAcquireUint32_amd64 :: "u32 \<Rightarrow> u32" where
  "SmpLoadAcquireUint32_amd64 p = p"

definition ReadOnceUint32_amd64 :: "u32 \<Rightarrow> u32" where
  "ReadOnceUint32_amd64 p = p"

lemma amd64_accesses:
  "SmpStoreReleaseUint32_amd64 = SmpStoreReleaseUint32" "SmpLoadAcquireUint32_amd64 = SmpLoadAcquireUint32"
  "ReadOnceUint32_amd64 = ReadOnceUint32"
  by (simp_all add: fun_eq_iff SmpStoreReleaseUint32_amd64_def SmpLoadAcquireUint32_amd64_def ReadOnceUint32_amd64_def)

section \<open>Submission queue entries\<close>

record SQEntry =
  sqe_OpCode :: u8
  sqe_Flags :: u8
  sqe_IoPrio :: u16
  sqe_Fd :: u32
  sqe_Off :: u64
  sqe_Addr :: u64
  sqe_Len :: u32
  sqe_OpcodeFlags :: u32
  sqe_UserData :: u64
  sqe_BufIG :: u16
  sqe_Personality :: u16
  sqe_SpliceFdIn :: u32
  sqe_pad2 :: "u64 \<times> u64"

text \<open>\<^verbatim>\<open>unsafe.Sizeof(SQEntry{})\<close>: 1+1+2+4+8+8+4+4+8+2+2+4+16 bytes.\<close>

definition sizeof_SQEntry :: nat where "sizeof_SQEntry = 64"

definition zero_SQEntry :: SQEntry where
  "zero_SQEntry = \<lparr>sqe_OpCode = 0, sqe_Flags = 0, sqe_IoPrio = 0, sqe_Fd = 0, sqe_Off = 0,
     sqe_Addr = 0, sqe_Len = 0, sqe_OpcodeFlags = 0, sqe_UserData = 0, sqe_BufIG = 0,
     sqe_Personality = 0, sqe_SpliceFdIn = 0, sqe_pad2 = (0, 0)\<rparr>"

definition setAddr :: "SQEntry \<Rightarrow> u64 \<Rightarrow> SQEntry" where
  "setAddr sqe addr = sqe\<lparr>sqe_Addr := addr\<rparr>"

definition fill :: "SQEntry \<Rightarrow> u8 \<Rightarrow> u32 \<Rightarrow> u64 \<Rightarrow> u32 \<Rightarrow> u64 \<Rightarrow> SQEntry" where
  "fill sqe op fd addr len offset =
     (let s1 = sqe\<lparr>sqe_OpCode := op, sqe_Flags := 0, sqe_IoPrio := 0, sqe_Fd := fd,
                   sqe_Off := offset\<rparr>;
          s2 = setAddr s1 addr
      in s2\<lparr>sqe_Len := len, sqe_OpcodeFlags := 0, sqe_UserData := 0, sqe_BufIG := 0,
            sqe_Personality := 0, sqe_SpliceFdIn := 0, sqe_pad2 := (0, 0)\<rparr>)"

definition setUserData :: "SQEntry \<Rightarrow> u64 \<Rightarrow> SQEntry" where
  "setUserData sqe ud = sqe\<lparr>sqe_UserData := ud\<rparr>"

lemma fill_overwrites: "fill sqe op fd addr len off = fill sqe' op fd addr len off"
  by (simp add: fill_def setAddr_def)

lemma fill_sel [simp]:
  "sqe_OpCode (fill sqe op fd addr len off) = op"
  "sqe_Flags (fill sqe op fd addr len off) = 0"
  "sqe_Fd (fill sqe op fd addr len off) = fd"
  "sqe_Addr (fill sqe op fd addr len off) = addr"
  "sqe_Len (fill sqe op fd addr len off) = len"
  "sqe_Off (fill sqe op fd addr len off) = off"
  "sqe_UserData (fill sqe op fd addr len off) = 0"
  "sqe_OpcodeFlags (fill sqe op fd addr len off) = 0"
  "sqe_BufIG (fill sqe op fd addr len off) = 0"
  by (simp_all add: fill_def setAddr_def Let_def)

section \<open>Completion events\<close>

record CQEvent =
  cqe_UserData :: u64
  cqe_Res :: u32
  cqe_Flags :: u32

definition sizeof_CQEvent :: nat where "sizeof_CQEvent = 16"

text \<open>
  \<^verbatim>\<open>-cqe.Res\<close> is an \<^verbatim>\<open>int32\<close> negation, then sign-extended by the conversion to
  \<^verbatim>\<open>uintptr\<close>.
\<close>

definition CQEvent_Error :: "CQEvent \<Rightarrow> go_error option" where
  "CQEvent_Error cqe =
     (if sint (cqe_Res cqe) < 0 then Some (Errno (scast (- cqe_Res cqe))) else None)"

lemma CQEvent_Error_None:
  "CQEvent_Error cqe = None \<longleftrightarrow> 0 \<le> sint (cqe_Res cqe)"
  by (auto simp: CQEvent_Error_def)

section \<open>The io_uring_enter wrappers\<close>

type_synonym 'w kernel = "u64 \<Rightarrow> u64 list \<Rightarrow> 'w \<Rightarrow> u64 \<times> u64 \<times> 'w"

definition NewSyscallError :: "string \<Rightarrow> go_error option \<Rightarrow> go_error option" where
  "NewSyscallError name err = map_option (SyscallError name) err"

text \<open>
  \<^verbatim>\<open>syscall.RawSyscall6\<close> and \<^verbatim>\<open>syscall.Syscall6\<close> issue the same system call; the raw form
  only skips the notification of the Go scheduler.
\<close>

definition RawSyscall6 :: "'w kernel \<Rightarrow> u64 \<Rightarrow> u64 list \<Rightarrow> 'w \<Rightarrow> u64 \<times> u64 \<times> 'w" where
  "RawSyscall6 k trap args w = k trap args w"

definition Syscall6 :: "'w kernel \<Rightarrow> u64 \<Rightarrow> u64 list \<Rightarrow> 'w \<Rightarrow> u64 \<times> u64 \<times> 'w" where
  "Syscall6 k trap args w = k trap args w"

definition sysEnter2 ::
  "'w kernel \<Rightarrow> int \<Rightarrow> u32 \<Rightarrow> u32 \<Rightarrow> u32 \<Rightarrow> u64 \<Rightarrow> int \<Rightarrow> bool \<Rightarrow> 'w \<Rightarrow> u64 \<times> go_error option \<times> 'w"
where
  "sysEnter2 k ringFD toSubmit minComplete flags sig sz raw w =
     (let args = [of_int ringFD, ucast toSubmit, ucast minComplete, ucast flags, sig, of_int sz];
          (consumed, errno, w') =
            (if raw then RawSyscall6 k sysRingEnter args w else Syscall6 k sysRingEnter args w)
      in if errno \<noteq> 0 then (0, NewSyscallError ''io_uring_enter'' (Some (Errno errno)), w')
         else (consumed, None, w'))"

definition sysEnter ::
  "'w kernel \<Rightarrow> int \<Rightarrow> u32 \<Rightarrow> u32 \<Rightarrow> u32 \<Rightarrow> u64 \<Rightarrow> bool \<Rightarrow> 'w \<Rightarrow> u64 \<times> go_error option \<times> 'w"
where
  "sysEnter k ringFD toSubmit minComplete flags sig raw w =
     sysEnter2 k ringFD toSubmit minComplete flags sig (go_quot numSig 8) raw w"

text \<open>The argument block of \<^verbatim>\<open>IORING_ENTER_EXT_ARG\<close>.\<close>

record getEventsArg =
  gea_sigMask :: u64
  gea_sigMaskSz :: u32
  gea_pad :: u32
  gea_ts :: u64

definition sizeof_getEventsArg :: int where "sizeof_getEventsArg = 24"

definition newGetEventsArg :: "u64 \<Rightarrow> u32 \<Rightarrow> u64 \<Rightarrow> getEventsArg" where
  "newGetEventsArg sigMask sigMaskSz ts =
     \<lparr>gea_sigMask = sigMask, gea_sigMaskSz = sigMaskSz, gea_pad = 0, gea_ts = ts\<rparr>"

section \<open>Timespecs\<close>

record timespec =
  tv_sec :: int
  tv_nsec :: int

text \<open>Go's \<^verbatim>\<open>syscall.NsecToTimespec\<close>.\<close>

definition NsecToTimespec :: "int \<Rightarrow> timespec" where
  "NsecToTimespec ns =
     (let sec = go_quot ns 1000000000; nsec = go_rem ns 1000000000
      in if nsec < 0 then \<lparr>tv_sec = sec - 1, tv_nsec = nsec + 1000000000\<rparr>
         else \<lparr>tv_sec = sec, tv_nsec = nsec\<rparr>)"

lemma go_rem_bound: "0 < b \<Longrightarrow> \<bar>go_rem a b\<bar> < b"
  by (auto simp: go_rem_def abs_mult sgn_if)

lemma NsecToTimespec_value:
  "tv_sec (NsecToTimespec ns) * 1000000000 + tv_nsec (NsecToTimespec ns) = ns"
  using go_quot_rem [of 1000000000 ns] by (auto simp: NsecToTimespec_def Let_def)

lemma NsecToTimespec_nsec:
  "0 \<le> tv_nsec (NsecToTimespec ns) \<and> tv_nsec (NsecToTimespec ns) < 1000000000"
  using go_rem_bound [of 1000000000 ns] by (auto simp: NsecToTimespec_def Let_def)

section \<open>Properties\<close>

text \<open>
  \<^verbatim>\<open>CQEvent.Error\<close> recovers the error number: for every negative result except the
  smallest 32-bit integer, the errno is the result with its sign changed.
\<close>

theorem CQEvent_Error_errno:
  assumes "sint (cqe_Res ev) < 0" and "- (2 ^ 31) < sint (cqe_Res ev)"
  shows "\<exists>e. CQEvent_Error ev = Some (Errno e) \<and> uint e = - sint (cqe_Res ev)"
proof -
  let ?n = "- sint (cqe_Res ev)"
  have n: "0 \<le> ?n" "?n < 2 ^ 31" using assms by auto
  have "sint (- cqe_Res ev) = signed_take_bit 31 ?n" by (simp add: sint_word_ariths)
  also have "\<dots> = ?n" using n by (intro signed_take_bit_int_eq_self) auto
  finally have "sint (- cqe_Res ev) = ?n" .
  moreover have "(scast (- cqe_Res ev) :: u64) = of_int (sint (- cqe_Res ev))" by (simp only: of_int_sint)
  ultimately have "uint (scast (- cqe_Res ev) :: u64) = ?n mod 2 ^ 64"
    by (simp only: uint_word_of_int) simp
  also have "\<dots> = ?n" using n by simp
  finally show ?thesis using assms(1) by (simp add: CQEvent_Error_def)
qed

theorem CQEvent_Error_errno_witness:
  "\<exists>e. CQEvent_Error \<lparr>cqe_UserData = 1, cqe_Res = - 125, cqe_Flags = 0\<rparr> = Some (Errno e) \<and> uint e = 125"
  using CQEvent_Error_errno [of "\<lparr>cqe_UserData = 1, cqe_Res = - 125, cqe_Flags = 0\<rparr>"] by simp

end
