(* ===== verification/Uring_Operation.thy ===== *)
theory Uring_Operation
  imports Uring_Syscall
begin

unbundle bit_operations_syntax

text \<open>
  The operations of \<^verbatim>\<open>src/uring/operation.go\<close>: the opcodes, the operation structs with
  their constructors and setters, and \<^verbatim>\<open>PrepSQE\<close>, which writes an operation into a slot
  of the submission queue.

  Go pointers are 64-bit addresses. A slice is its base address and its length; taking
  the address of its first element panics when it is empty. The structs the kernel reads
  or writes through a pointer (an iovec array, a \<^verbatim>\<open>RawSockaddrAny\<close>, the \<^verbatim>\<open>len\<close> field of
  an \<^verbatim>\<open>AcceptOp\<close>, the local \<^verbatim>\<open>spec\<close> of a timeout) occur as the address they live at.
\<close>

section \<open>Opcodes\<close>

datatype OpCode =
    NopCode | ReadVCode | WriteVCode | opFSync | opReadFixed | opWriteFixed
  | opPollAdd | opPollRemove | opSyncFileRange | opSendMsg | opRecvMsg | TimeoutCode
  | opTimeoutRemove | AcceptCode | AsyncCancelCode | LinkTimeoutCode | ConnectCode
  | opFAllocate | opOpenAt | CloseCode | opFilesUpdate | opStatX | ReadCode | WriteCode
  | opFAdvise | opMAdvise | SendCode | RecvCode | openAt2Code | epollCtlCode | spliceCode
  | ProvideBuffersCode | removeBuffersCode | teeCode | shutdownCode | renameAtCode
  | unlinkAtCode | mkdirAtCode | symlinkAtCode | linkAtCode

text \<open>The \<^verbatim>\<open>iota\<close> value of each constant.\<close>

fun opcode_u8 :: "OpCode \<Rightarrow> u8" where
  "opcode_u8 NopCode = 0" | "opcode_u8 ReadVCode = 1" | "opcode_u8 WriteVCode = 2"
| "opcode_u8 opFSync = 3" | "opcode_u8 opReadFixed = 4" | "opcode_u8 opWriteFixed = 5"
| "opcode_u8 opPollAdd = 6" | "opcode_u8 opPollRemove = 7" | "opcode_u8 opSyncFileRange = 8"
| "opcode_u8 opSendMsg = 9" | "opcode_u8 opRecvMsg = 10" | "opcode_u8 TimeoutCode = 11"
| "opcode_u8 opTimeoutRemove = 12" | "opcode_u8 AcceptCode = 13"
| "opcode_u8 AsyncCancelCode = 14" | "opcode_u8 LinkTimeoutCode = 15"
| "opcode_u8 ConnectCode = 16" | "opcode_u8 opFAllocate = 17" | "opcode_u8 opOpenAt = 18"
| "opcode_u8 CloseCode = 19" | "opcode_u8 opFilesUpdate = 20" | "opcode_u8 opStatX = 21"
| "opcode_u8 ReadCode = 22" | "opcode_u8 WriteCode = 23" | "opcode_u8 opFAdvise = 24"
| "opcode_u8 opMAdvise = 25" | "opcode_u8 SendCode = 26" | "opcode_u8 RecvCode = 27"
| "opcode_u8 openAt2Code = 28" | "opcode_u8 epollCtlCode = 29" | "opcode_u8 spliceCode = 30"
| "opcode_u8 ProvideBuffersCode = 31" | "opcode_u8 removeBuffersCode = 32"
| "opcode_u8 teeCode = 33" | "opcode_u8 shutdownCode = 34" | "opcode_u8 renameAtCode = 35"
| "opcode_u8 unlinkAtCode = 36" | "opcode_u8 mkdirAtCode = 37"
| "opcode_u8 symlinkAtCode = 38" | "opcode_u8 linkAtCode = 39"

section \<open>Slices and iovecs\<close>

record slice =
  sl_base :: u64
  sl_len :: nat

definition nil_slice :: slice where
  "nil_slice = \<lparr>sl_base = 0, sl_len = 0\<rparr>"

text \<open>\<^verbatim>\<open>&b[0]\<close>.\<close>

definition addr0 :: "slice \<Rightarrow> u64 outcome" where
  "addr0 b = (if sl_len b = 0 then Panic IndexOutOfRange else Ok (sl_base b))"

record iovec =
  iov_Base :: u64
  iov_Len :: u64

record iovec_slice =
  ivs_base :: u64
  ivs_vecs :: "iovec list"

definition iovs_addr0 :: "iovec_slice \<Rightarrow> u64 outcome" where
  "iovs_addr0 v = (if ivs_vecs v = [] then Panic IndexOutOfRange else Ok (ivs_base v))"

section \<open>Operation structs\<close>

datatype Operation =
    NopOp
  | ReadVOp (rv_FD: u64) (rv_Size: int) (rv_Offset: u64) (rv_IOVecs: iovec_slice)
  | WriteVOp (wv_FD: u64) (wv_IOVecs: iovec_slice) (wv_Offset: u64)
  | TimeoutOp (to_dur: int)
  | AcceptOp (ac_fd: u64) (ac_flags: u32) (ac_addr: u64) (ac_len: u32) (ac_len_addr: u64)
  | CancelOp (ca_flags: u32) (ca_targetUserData: u64)
  | LinkTimeoutOp (lt_dur: int)
  | RecvOp (rc_fd: u64) (rc_buff: slice) (rc_msgFlags: u32)
  | SendOp (sd_fd: u64) (sd_buff: slice) (sd_msgFlags: u32)
  | ProvideBuffersOp (pb_buff: slice) (pb_bufferId: u64) (pb_groupId: u16)
  | CloseOp (cl_fd: u64)
  | ReadOp (rd_fd: u64) (rd_buff: slice) (rd_off: u64)
  | WriteOp (wr_fd: u64) (wr_buff: slice) (wr_off: u64)
  | ConnectOp (co_fd: u64) (co_addr: u64) (co_len: u32)

fun Code :: "Operation \<Rightarrow> OpCode" where
  "Code NopOp = NopCode"
| "Code (ReadVOp _ _ _ _) = ReadVCode"
| "Code (WriteVOp _ _ _) = WriteVCode"
| "Code (TimeoutOp _) = TimeoutCode"
| "Code (AcceptOp _ _ _ _ _) = AcceptCode"
| "Code (CancelOp _ _) = AsyncCancelCode"
| "Code (LinkTimeoutOp _) = LinkTimeoutCode"
| "Code (RecvOp _ _ _) = RecvCode"
| "Code (SendOp _ _ _) = SendCode"
| "Code (ProvideBuffersOp _ _ _) = ProvideBuffersCode"
| "Code (CloseOp _) = CloseCode"
| "Code (ReadOp _ _ _) = ReadCode"
| "Code (WriteOp _ _ _) = WriteCode"
| "Code (ConnectOp _ _ _) = ConnectCode"

section \<open>Constructors and setters\<close>

definition Nop :: Operation where "Nop = NopOp"

text \<open>
  \<^verbatim>\<open>ReadV\<close> and \<^verbatim>\<open>WriteV\<close> build the iovec array in a loop that takes \<^verbatim>\<open>&v[0]\<close> of every
  vector; \<open>arr\<close> is the address of the array \<^verbatim>\<open>make\<close> allocates.
\<close>

fun iovecs_of :: "slice list \<Rightarrow> iovec list outcome" where
  "iovecs_of [] = Ok []"
| "iovecs_of (v # vs) =
     obind (addr0 v) (\<lambda>p. obind (iovecs_of vs) (\<lambda>is.
       Ok (\<lparr>iov_Base = p, iov_Len = of_nat (sl_len v)\<rparr> # is)))"

definition ReadV :: "u64 \<Rightarrow> u64 \<Rightarrow> slice list \<Rightarrow> u64 \<Rightarrow> Operation outcome" where
  "ReadV arr fd vectors offset = obind (iovecs_of vectors)
     (\<lambda>is. Ok (ReadVOp fd 0 offset \<lparr>ivs_base = arr, ivs_vecs = is\<rparr>))"

definition WriteV :: "u64 \<Rightarrow> u64 \<Rightarrow> slice list \<Rightarrow> u64 \<Rightarrow> Operation outcome" where
  "WriteV arr fd bytes offset = obind (iovecs_of bytes)
     (\<lambda>is. Ok (WriteVOp fd \<lparr>ivs_base = arr, ivs_vecs = is\<rparr> offset))"

definition Timeout :: "int \<Rightarrow> Operation" where "Timeout duration = TimeoutOp duration"

definition LinkTimeout :: "int \<Rightarrow> Operation" where "LinkTimeout duration = LinkTimeoutOp duration"

text \<open>\<^verbatim>\<open>unix.SizeofSockaddrAny\<close>.\<close>

definition SizeofSockaddrAny :: u32 where "SizeofSockaddrAny = 112"

definition Accept :: "u64 \<Rightarrow> u64 \<Rightarrow> u64 \<Rightarrow> u32 \<Rightarrow> Operation" where
  "Accept addr len_addr fd flags = AcceptOp fd flags addr SizeofSockaddrAny len_addr"

definition Cancel :: "u64 \<Rightarrow> u32 \<Rightarrow> Operation" where
  "Cancel targetUserData flags = CancelOp flags targetUserData"

definition Recv :: "u64 \<Rightarrow> slice \<Rightarrow> u32 \<Rightarrow> Operation" where
  "Recv socketFd buff msgFlags = RecvOp socketFd buff msgFlags"

definition Send :: "u64 \<Rightarrow> slice \<Rightarrow> u32 \<Rightarrow> Operation" where
  "Send socketFd buff msgFlags = SendOp socketFd buff msgFlags"

definition ProvideBuffers :: "slice \<Rightarrow> u64 \<Rightarrow> u16 \<Rightarrow> Operation" where
  "ProvideBuffers buff bufferId groupId = ProvideBuffersOp buff bufferId groupId"

definition Close :: "u64 \<Rightarrow> Operation" where "Close fd = CloseOp fd"

definition Read :: "u64 \<Rightarrow> slice \<Rightarrow> u64 \<Rightarrow> Operation" where
  "Read fd buff offset = ReadOp fd buff offset"

definition Write :: "u64 \<Rightarrow> slice \<Rightarrow> u64 \<Rightarrow> Operation" where
  "Write fd buff offset = WriteOp fd buff offset"

text \<open>
  \<^verbatim>\<open>Connect\<close> converts the address with the go-sockaddr package, a parameter here, and
  panics when the conversion fails.
\<close>

definition Connect :: "('a \<Rightarrow> go_error + (u64 \<times> u32)) \<Rightarrow> u64 \<Rightarrow> 'a \<Rightarrow> Operation outcome" where
  "Connect toAny fd addr =
     (case toAny addr of Inl err \<Rightarrow> Panic (PanicErr err) | Inr (rsa, l) \<Rightarrow> Ok (ConnectOp fd rsa l))"

fun SetBuffer :: "Operation \<Rightarrow> slice \<Rightarrow> Operation" where
  "SetBuffer (RecvOp fd _ fl) b = RecvOp fd b fl"
| "SetBuffer (SendOp fd _ fl) b = SendOp fd b fl"
| "SetBuffer op _ = op"

fun SetTargetUserData :: "Operation \<Rightarrow> u64 \<Rightarrow> Operation" where
  "SetTargetUserData (CancelOp fl _) ud = CancelOp fl ud"
| "SetTargetUserData op _ = op"

text \<open>
  \<^verbatim>\<open>Fd()\<close>, the method that makes an operation a \<^verbatim>\<open>NetOperation\<close>: \<open>None\<close> for the structs
  that do not have it.
\<close>

fun op_Fd :: "Operation \<Rightarrow> int option" where
  "op_Fd (AcceptOp fd _ _ _ _) = Some (sint fd)"
| "op_Fd (RecvOp fd _ _) = Some (sint fd)"
| "op_Fd (SendOp fd _ _) = Some (sint fd)"
| "op_Fd _ = None"

text \<open>
  \<^verbatim>\<open>AcceptOp.Addr\<close> decodes the peer address the kernel wrote: \<open>raw\<close> is the memory the
  \<^verbatim>\<open>RawSockaddrAny\<close> pointers point into; the two conversions are those of the go-sockaddr
  package, parameters here. \<^verbatim>\<open>AddrLen\<close> reads the length field, which the kernel updates in place.
\<close>

definition AcceptOp_Addr ::
  "('raw \<Rightarrow> go_error + 'sa) \<Rightarrow> ('sa \<Rightarrow> 'addr) \<Rightarrow> (u64 \<Rightarrow> 'raw) \<Rightarrow> Operation \<Rightarrow> go_error + 'addr" where
  "AcceptOp_Addr anyToSockaddr toTCPAddr raw op =
     (case anyToSockaddr (raw (ac_addr op)) of
        Inl err \<Rightarrow> Inl err
      | Inr sAddr \<Rightarrow> Inr (toTCPAddr sAddr))"

definition AcceptOp_AddrLen :: "Operation \<Rightarrow> u32" where
  "AcceptOp_AddrLen op = ac_len op"

section \<open>Writing an operation into a slot\<close>

text \<open>
  \<open>spec\<close> is the address the escaping local \<^verbatim>\<open>spec\<close> of the two timeout operations gets;
  \<open>op_timespec\<close> is what they store there.
\<close>

definition NopOp_PrepSQE :: "SQEntry \<Rightarrow> SQEntry outcome" where
  "NopOp_PrepSQE sqe = Ok (fill sqe (opcode_u8 NopCode) (-1) 0 0 0)"

definition ReadVOp_PrepSQE :: "u64 \<Rightarrow> u64 \<Rightarrow> iovec_slice \<Rightarrow> SQEntry \<Rightarrow> SQEntry outcome" where
  "ReadVOp_PrepSQE fd off v sqe = obind (iovs_addr0 v) (\<lambda>p.
     Ok (fill sqe (opcode_u8 ReadVCode) (ucast fd) p (of_nat (length (ivs_vecs v))) off))"

definition WriteVOp_PrepSQE :: "u64 \<Rightarrow> iovec_slice \<Rightarrow> u64 \<Rightarrow> SQEntry \<Rightarrow> SQEntry outcome" where
  "WriteVOp_PrepSQE fd v off sqe = obind (iovs_addr0 v) (\<lambda>p.
     Ok (fill sqe (opcode_u8 WriteVCode) (ucast fd) p (of_nat (length (ivs_vecs v))) off))"

definition TimeoutOp_PrepSQE :: "u64 \<Rightarrow> SQEntry \<Rightarrow> SQEntry outcome" where
  "TimeoutOp_PrepSQE spec sqe = Ok (fill sqe (opcode_u8 TimeoutCode) (-1) spec 1 0)"

definition AcceptOp_PrepSQE :: "u64 \<Rightarrow> u32 \<Rightarrow> u64 \<Rightarrow> u64 \<Rightarrow> SQEntry \<Rightarrow> SQEntry outcome" where
  "AcceptOp_PrepSQE fd fl addr len_addr sqe =
     Ok ((fill sqe (opcode_u8 AcceptCode) (ucast fd) addr 0 len_addr)\<lparr>sqe_OpcodeFlags := fl\<rparr>)"

definition CancelOp_PrepSQE :: "u32 \<Rightarrow> u64 \<Rightarrow> SQEntry \<Rightarrow> SQEntry outcome" where
  "CancelOp_PrepSQE fl ud sqe =
     Ok ((fill sqe (opcode_u8 AsyncCancelCode) (-1) ud 0 0)\<lparr>sqe_OpcodeFlags := fl\<rparr>)"

definition LinkTimeoutOp_PrepSQE :: "u64 \<Rightarrow> SQEntry \<Rightarrow> SQEntry outcome" where
  "LinkTimeoutOp_PrepSQE spec sqe = Ok (fill sqe (opcode_u8 LinkTimeoutCode) (-1) spec 1 0)"

definition RecvOp_PrepSQE :: "u64 \<Rightarrow> slice \<Rightarrow> u32 \<Rightarrow> SQEntry \<Rightarrow> SQEntry outcome" where
  "RecvOp_PrepSQE fd b fl sqe = obind (addr0 b) (\<lambda>p.
     Ok ((fill sqe (opcode_u8 RecvCode) (ucast fd) p (of_nat (sl_len b)) 0)
           \<lparr>sqe_OpcodeFlags := fl\<rparr>))"

definition SendOp_PrepSQE :: "u64 \<Rightarrow> slice \<Rightarrow> u32 \<Rightarrow> SQEntry \<Rightarrow> SQEntry outcome" where
  "SendOp_PrepSQE fd b fl sqe = obind (addr0 b) (\<lambda>p.
     Ok ((fill sqe (opcode_u8 SendCode) (ucast fd) p (of_nat (sl_len b)) 0)
           \<lparr>sqe_OpcodeFlags := fl\<rparr>))"

definition ProvideBuffersOp_PrepSQE :: "slice \<Rightarrow> u64 \<Rightarrow> u16 \<Rightarrow> SQEntry \<Rightarrow> SQEntry outcome" where
  "ProvideBuffersOp_PrepSQE b bid gid sqe = obind (addr0 b) (\<lambda>p.
     Ok ((fill sqe (opcode_u8 ProvideBuffersCode) 1 p (of_nat (sl_len b)) bid)\<lparr>sqe_BufIG := gid\<rparr>))"

definition CloseOp_PrepSQE :: "u64 \<Rightarrow> SQEntry \<Rightarrow> SQEntry outcome" where
  "CloseOp_PrepSQE fd sqe = Ok (fill sqe (opcode_u8 CloseCode) (ucast fd) 0 0 0)"

definition ReadOp_PrepSQE :: "u64 \<Rightarrow> slice \<Rightarrow> u64 \<Rightarrow> SQEntry \<Rightarrow> SQEntry outcome" where
  "ReadOp_PrepSQE fd b off sqe = obind (addr0 b) (\<lambda>p.
     Ok (fill sqe (opcode_u8 ReadCode) (ucast fd) p (of_nat (sl_len b)) off))"

definition WriteOp_PrepSQE :: "u64 \<Rightarrow> slice \<Rightarrow> u64 \<Rightarrow> SQEntry \<Rightarrow> SQEntry outcome" where
  "WriteOp_PrepSQE fd b off sqe = obind (addr0 b) (\<lambda>p.
     Ok (fill sqe (opcode_u8 WriteCode) (ucast fd) p (of_nat (sl_len b)) off))"

definition ConnectOp_PrepSQE :: "u64 \<Rightarrow> u64 \<Rightarrow> u32 \<Rightarrow> SQEntry \<Rightarrow> SQEntry outcome" where
  "ConnectOp_PrepSQE fd addr l sqe =
     Ok (fill sqe (opcode_u8 ConnectCode) (ucast fd) addr 0 (ucast l))"

lemmas PrepSQE_methods [simp] =
  NopOp_PrepSQE_def ReadVOp_PrepSQE_def WriteVOp_PrepSQE_def
  TimeoutOp_PrepSQE_def AcceptOp_PrepSQE_def CancelOp_PrepSQE_def
  LinkTimeoutOp_PrepSQE_def RecvOp_PrepSQE_def SendOp_PrepSQE_def
  ProvideBuffersOp_PrepSQE_def CloseOp_PrepSQE_def ReadOp_PrepSQE_def
  WriteOp_PrepSQE_def ConnectOp_PrepSQE_def

text \<open>The method call on the interface \<^verbatim>\<open>Operation\<close>.\<close>

fun PrepSQE :: "u64 \<Rightarrow> Operation \<Rightarrow> SQEntry \<Rightarrow> SQEntry outcome" where
  "PrepSQE spec NopOp sqe = NopOp_PrepSQE sqe"
| "PrepSQE spec (ReadVOp fd _ off v) sqe = ReadVOp_PrepSQE fd off v sqe"
| "PrepSQE spec (WriteVOp fd v off) sqe = WriteVOp_PrepSQE fd v off sqe"
| "PrepSQE spec (TimeoutOp _) sqe = TimeoutOp_PrepSQE spec sqe"
| "PrepSQE spec (AcceptOp fd fl addr _ len_addr) sqe = AcceptOp_PrepSQE fd fl addr len_addr sqe"
| "PrepSQE spec (CancelOp fl ud) sqe = CancelOp_PrepSQE fl ud sqe"
| "PrepSQE spec (LinkTimeoutOp _) sqe = LinkTimeoutOp_PrepSQE spec sqe"
| "PrepSQE spec (RecvOp fd b fl) sqe = RecvOp_PrepSQE fd b fl sqe"
| "PrepSQE spec (SendOp fd b fl) sqe = SendOp_PrepSQE fd b fl sqe"
| "PrepSQE spec (ProvideBuffersOp b bid gid) sqe = ProvideBuffersOp_PrepSQE b bid gid sqe"
| "PrepSQE spec (CloseOp fd) sqe = CloseOp_PrepSQE fd sqe"
| "PrepSQE spec (ReadOp fd b off) sqe = ReadOp_PrepSQE fd b off sqe"
| "PrepSQE spec (WriteOp fd b off) sqe = WriteOp_PrepSQE fd b off sqe"
| "PrepSQE spec (ConnectOp fd addr l) sqe = ConnectOp_PrepSQE fd addr l sqe"

fun op_timespec :: "Operation \<Rightarrow> timespec option" where
  "op_timespec (TimeoutOp d) = Some (NsecToTimespec d)"
| "op_timespec (LinkTimeoutOp d) = Some (NsecToTimespec d)"
| "op_timespec _ = None"

section \<open>The contract of an operation\<close>

text \<open>
  What \<^verbatim>\<open>Ring.QueueSQE\<close> relies on: preparing a slot gives it the operation's own opcode,
  clears the flags and the user data, and leaves nothing of the slot's previous use.
\<close>

locale operation =
  fixes prep :: "'op \<Rightarrow> SQEntry \<Rightarrow> SQEntry outcome"
    and code :: "'op \<Rightarrow> OpCode"
  assumes prep_code: "prep op sqe = Ok e \<Longrightarrow> sqe_OpCode e = opcode_u8 (code op)"
    and prep_clear: "prep op sqe = Ok e \<Longrightarrow> sqe_Flags e = 0 \<and> sqe_UserData e = 0"
    and prep_fresh: "prep op sqe = prep op sqe'"
begin

text \<open>The entry a queued operation leaves in its slot, whatever the slot held before.\<close>

definition entry :: "'op \<Rightarrow> u8 \<Rightarrow> u64 \<Rightarrow> SQEntry outcome" where
  "entry op flags ud =
     obind (prep op zero_SQEntry) (\<lambda>e. Ok (setUserData (e\<lparr>sqe_Flags := flags\<rparr>) ud))"

lemma entry_any_slot:
  "obind (prep op sqe) (\<lambda>e. Ok (setUserData (e\<lparr>sqe_Flags := flags\<rparr>) ud)) = entry op flags ud"
  unfolding entry_def by (subst prep_fresh) (rule refl)

lemma entry_sel:
  assumes "entry op flags ud = Ok e"
  shows "sqe_OpCode e = opcode_u8 (code op)" and "sqe_Flags e = flags" and "sqe_UserData e = ud"
  using assms by (auto simp: entry_def go_outcome setUserData_def dest: prep_code)

end

lemma PrepSQE_code: "PrepSQE spec op sqe = Ok e \<Longrightarrow> sqe_OpCode e = opcode_u8 (Code op)"
  by (cases op) (auto simp: go_outcome)

lemma PrepSQE_clear: "PrepSQE spec op sqe = Ok e \<Longrightarrow> sqe_Flags e = 0 \<and> sqe_UserData e = 0"
  by (cases op) (auto simp: go_outcome)

lemma PrepSQE_fresh: "PrepSQE spec op sqe = PrepSQE spec op sqe'"
  by (cases op) (simp_all add: fill_overwrites [of sqe _ _ _ _ _ sqe'])

interpretation uop: operation "PrepSQE spec" Code for spec
  by unfold_locales (rule PrepSQE_code PrepSQE_clear PrepSQE_fresh; assumption?)+

section \<open>Properties\<close>

text \<open>
  \<^verbatim>\<open>PrepSQE\<close> makes a slot its own: the result does not depend on what the slot held; a
  prepared slot has the opcode of the operation and no flags and no user data; the only
  failure is an index panic.
\<close>

theorem PrepSQE_slot:
  "PrepSQE spec op sqe = PrepSQE spec op sqe' \<and>
   (case PrepSQE spec op sqe of
      Ok e \<Rightarrow> sqe_OpCode e = opcode_u8 (Code op) \<and> sqe_Flags e = 0 \<and> sqe_UserData e = 0
    | Panic p \<Rightarrow> p = IndexOutOfRange)"
proof (rule conjI [OF PrepSQE_fresh])
  show "case PrepSQE spec op sqe of
      Ok e \<Rightarrow> sqe_OpCode e = opcode_u8 (Code op) \<and> sqe_Flags e = 0 \<and> sqe_UserData e = 0
    | Panic p \<Rightarrow> p = IndexOutOfRange"
    by (cases op) (auto simp: addr0_def iovs_addr0_def)
qed











text \<open>
  The timespec a timeout operation gives the kernel is the duration, with a nanosecond
  part in range also for negative durations.
\<close>

theorem timeout_timespec:
  "(case op_timespec (Timeout d) of
      None \<Rightarrow> False
    | Some ts \<Rightarrow> tv_sec ts * 1000000000 + tv_nsec ts = d \<and> 0 \<le> tv_nsec ts \<and> tv_nsec ts < 1000000000) \<and>
   op_timespec (LinkTimeout d) = op_timespec (Timeout d)"
  using NsecToTimespec_value [of d] NsecToTimespec_nsec [of d] by (simp add: Timeout_def LinkTimeout_def)

end
