(* ===== verification/Uring_Ring.thy ===== *)
theory Uring_Ring
  imports Uring_Operation
begin

unbundle bit_operations_syntax

text \<open>
  The ring operations of \<^verbatim>\<open>src/uring/ring.go\<close> with the parameter block of
  \<^verbatim>\<open>src/uring/setup.go\<close>: the submission and completion queue structs and every operation
  that moves their counters.

  A pointer field of \<^verbatim>\<open>sq\<close> and \<^verbatim>\<open>cq\<close> stands for the memory it points to: \<open>sq_kHead\<close> is the
  cell \<^verbatim>\<open>*kHead\<close>, \<open>kArray\<close> the index array behind \<^verbatim>\<open>kArray\<close>, \<open>sqeBuff\<close> and \<open>cqeBuff\<close> the mapped
  entries. Accesses through \<^verbatim>\<open>unsafe\<close> outside those arrays end in \<open>WildAccess\<close>.

  The record \<open>Ring\<close> is used through its extension \<open>'k Ring_scheme\<close>: the extra field holds
  the private state of the kernel, so that a kernel (the parameter of the operations that
  enter it) may answer differently each time.
\<close>

section \<open>Parameters and features\<close>

record sqRingParams =
  sqo_head :: u32
  sqo_tail :: u32
  sqo_ringMask :: u32
  sqo_ringEntries :: u32
  sqo_flags :: u32
  sqo_dropped :: u32
  sqo_array :: u32
  sqo_resv1 :: u32
  sqo_resv2 :: u64

record cqRingParams =
  cqo_head :: u32
  cqo_tail :: u32
  cqo_ringMsk :: u32
  cqo_ringEntries :: u32
  cqo_overflow :: u32
  cqo_cqes :: u32
  cqo_flags :: u32
  cqo_resv1 :: u32
  cqo_resv2 :: u64

record ringParams =
  sqEntries :: u32
  cqEntries :: u32
  p_flags :: u32
  sqThreadCpu :: u32
  sqThreadIdle :: u32
  features :: u32
  wqFD :: u32
  p_resv :: "u32 \<times> u32 \<times> u32"
  sqOffset :: sqRingParams
  cqOffset :: cqRingParams

definition setupIOPoll :: u32 where "setupIOPoll = 1"
definition setupSQPoll :: u32 where "setupSQPoll = 2"
definition setupSQAff :: u32 where "setupSQAff = 4"
definition setupCQSize :: u32 where "setupCQSize = 8"
definition setupAttachWQ :: u32 where "setupAttachWQ = 32"

definition featSingleMMap :: u32 where "featSingleMMap = 1"
definition featNoDrop :: u32 where "featNoDrop = 2"
definition featFastPoll :: u32 where "featFastPoll = 32"
definition featExtArg :: u32 where "featExtArg = 256"

definition SingleMMapFeature :: "ringParams \<Rightarrow> bool" where
  "SingleMMapFeature p \<longleftrightarrow> features p AND featSingleMMap \<noteq> 0"

definition NoDropFeature :: "ringParams \<Rightarrow> bool" where
  "NoDropFeature p \<longleftrightarrow> features p AND featNoDrop \<noteq> 0"

definition FastPollFeature :: "ringParams \<Rightarrow> bool" where
  "FastPollFeature p \<longleftrightarrow> features p AND featFastPoll \<noteq> 0"

definition ExtArgFeature :: "ringParams \<Rightarrow> bool" where
  "ExtArgFeature p \<longleftrightarrow> features p AND featExtArg \<noteq> 0"

section \<open>Queues\<close>

record sq =
  sq_buff :: slice
  sqeBuff :: "SQEntry list"
  sq_ringSize :: u64
  sq_kHead :: u32
  sq_kTail :: u32
  sq_kRingMask :: u32
  sq_kRingEntries :: u32
  sq_kFlags :: u32
  sq_kDropped :: u32
  kArray :: "u32 list"
  sqeTail :: u32
  sqeHead :: u32

record cq =
  cq_buff :: slice
  cq_ringSize :: u64
  cq_kHead :: u32
  cq_kTail :: u32
  cq_kRingMask :: u32
  cq_kRingEntries :: u32
  cq_kOverflow :: u32
  cq_kFlags :: u64
  cqeBuff :: "CQEvent list"

record Ring =
  ring_fd :: int
  Params :: ringParams
  cqRing :: cq
  sqRing :: sq

definition MaxEntries :: u32 where "MaxEntries = 2 ^ 15"

definition cqNeedFlush :: "sq \<Rightarrow> bool" where
  "cqNeedFlush s \<longleftrightarrow> ReadOnceUint32 (sq_kFlags s) AND sqCQOverflow \<noteq> 0"

definition readyCount :: "cq \<Rightarrow> u32" where
  "readyCount c = SmpLoadAcquireUint32 (cq_kTail c) - SmpLoadAcquireUint32 (cq_kHead c)"

section \<open>Submission side\<close>

text \<open>
  \<^verbatim>\<open>NextSQE\<close> hands out a pointer into \<^verbatim>\<open>sqeBuff\<close>; the model returns the number of the slot.
  In Go \<^verbatim>\<open>&\<close> and \<^verbatim>\<open>*\<close> have the same precedence and associate to the left.
\<close>

definition NextSQE ::
  "'k Ring_scheme \<Rightarrow> (nat option \<times> go_error option \<times> 'k Ring_scheme) outcome" where
  "NextSQE r =
     (let s = sqRing r;
          head = SmpLoadAcquireUint32 (sq_kHead s);
          nxt = sqeTail s + 1
      in if nxt - head \<le> sq_kRingEntries s then
           let idx = (sqeTail s AND sq_kRingMask s) * of_nat sizeof_SQEntry
           in if unat idx < sizeof_SQEntry * length (sqeBuff s)
              then Ok (Some (unat idx div sizeof_SQEntry), None, r\<lparr>sqRing := s\<lparr>sqeTail := nxt\<rparr>\<rparr>)
              else Panic IndexOutOfRange
         else Ok (None, Some ErrSQOverflow, r))"

definition write_sqe :: "nat \<Rightarrow> SQEntry \<Rightarrow> 'k Ring_scheme \<Rightarrow> 'k Ring_scheme" where
  "write_sqe i e r = r\<lparr>sqRing := (sqRing r)\<lparr>sqeBuff := (sqeBuff (sqRing r))[i := e]\<rparr>\<rparr>"

definition QueueSQE ::
  "u64 \<Rightarrow> Operation \<Rightarrow> u8 \<Rightarrow> u64 \<Rightarrow> 'k Ring_scheme \<Rightarrow> (go_error option \<times> 'k Ring_scheme) outcome" where
  "QueueSQE spec op flags userData r =
     (case NextSQE r of
        Panic p \<Rightarrow> Panic p
      | Ok (sqe, err, r1) \<Rightarrow>
          (case (err, sqe) of
             (Some e, _) \<Rightarrow> Ok (Some e, r1)
           | (None, None) \<Rightarrow> Panic NilDeref
           | (None, Some i) \<Rightarrow>
               obind (PrepSQE spec op (sqeBuff (sqRing r1) ! i)) (\<lambda>e.
                 Ok (None, write_sqe i (setUserData (e\<lparr>sqe_Flags := flags\<rparr>) userData) r1))))"

text \<open>The loop of \<^verbatim>\<open>flushSQ\<close>: the number of iterations left, the array, tail and head.\<close>

fun flush_loop ::
  "u32 \<Rightarrow> nat \<Rightarrow> u32 list \<Rightarrow> u32 \<Rightarrow> u32 \<Rightarrow> (u32 list \<times> u32 \<times> u32) outcome" where
  "flush_loop msk 0 arr tail shead = Ok (arr, tail, shead)"
| "flush_loop msk (Suc i) arr tail shead =
     (let off = (tail AND msk) * 4
      in if unat off div 4 < length arr
         then flush_loop msk i (arr[unat off div 4 := shead AND msk]) (tail + 1) (shead + 1)
         else Panic WildAccess)"

definition flushSQ :: "'k Ring_scheme \<Rightarrow> (u32 \<times> 'k Ring_scheme) outcome" where
  "flushSQ r =
     (let s = sqRing r;
          msk = sq_kRingMask s;
          tail = SmpLoadAcquireUint32 (sq_kTail s);
          subCnt = sqeTail s - sqeHead s
      in if subCnt = 0 then Ok (tail - SmpLoadAcquireUint32 (sq_kHead s), r)
         else obind (flush_loop msk (unat subCnt) (kArray s) tail (sqeHead s)) (\<lambda>(arr, tail', shead').
           let s' = s\<lparr>kArray := arr, sqeHead := shead',
                       sq_kTail := SmpStoreReleaseUint32 (sq_kTail s) tail'\<rparr>
           in Ok (tail' - SmpLoadAcquireUint32 (sq_kHead s'), r\<lparr>sqRing := s'\<rparr>)))"

text \<open>\<^verbatim>\<open>needsEnter\<close> updates the caller's flags through a pointer; the model returns them.\<close>

definition needsEnter :: "'k Ring_scheme \<Rightarrow> u32 \<Rightarrow> bool \<times> u32" where
  "needsEnter r flags =
     (if p_flags (Params r) AND setupSQPoll = 0 then (True, flags)
      else if ReadOnceUint32 (sq_kFlags (sqRing r)) AND sqNeedWakeup \<noteq> 0
      then (True, flags OR sysRingEnterSQWakeup)
      else (False, flags))"

definition Submit ::
  "'k Ring_scheme kernel \<Rightarrow> 'k Ring_scheme \<Rightarrow> (u64 \<times> go_error option \<times> 'k Ring_scheme) outcome" where
  "Submit k r =
     obind (flushSQ r) (\<lambda>(flushed, r1).
       let (need, flags) = needsEnter r1 0
       in if \<not> need then Ok (ucast flushed, None, r1)
          else let flags' = (if p_flags (Params r1) AND setupIOPoll = 1
                             then flags OR sysRingEnterGetEvents else flags)
               in Ok (sysEnter k (ring_fd r1) flushed 0 flags' 0 True r1))"

section \<open>Completion side\<close>

text \<open>
  A \<^verbatim>\<open>*CQEvent\<close> is the byte offset of the event from \<^verbatim>\<open>cqeBuff\<close>; \<open>cqe_at\<close> reads through it.
\<close>

type_synonym cqe_ptr = u64

definition cqe_ptr_of :: "u32 \<Rightarrow> u32 \<Rightarrow> cqe_ptr" where
  "cqe_ptr_of head msk = ucast (head AND msk) * of_nat sizeof_CQEvent"

definition cqe_at :: "'k Ring_scheme \<Rightarrow> cqe_ptr \<Rightarrow> CQEvent outcome" where
  "cqe_at r p =
     (let i = unat p div sizeof_CQEvent
      in if i < length (cqeBuff (cqRing r)) then Ok (cqeBuff (cqRing r) ! i) else Panic WildAccess)"

definition AdvanceCQ :: "u32 \<Rightarrow> 'k Ring_scheme \<Rightarrow> 'k Ring_scheme" where
  "AdvanceCQ n r =
     (let c = cqRing r
      in r\<lparr>cqRing := c\<lparr>cq_kHead := SmpStoreReleaseUint32 (cq_kHead c) (cq_kHead c + n)\<rparr>\<rparr>)"

definition SeenCQE :: "cqe_ptr \<Rightarrow> 'k Ring_scheme \<Rightarrow> 'k Ring_scheme" where
  "SeenCQE cqe r = AdvanceCQ 1 r"

lemma AdvanceCQ_cq [simp]:
  "cq_kHead (cqRing (AdvanceCQ n r)) = cq_kHead (cqRing r) + n"
  "cq_kTail (cqRing (AdvanceCQ n r)) = cq_kTail (cqRing r)"
  "cq_kRingMask (cqRing (AdvanceCQ n r)) = cq_kRingMask (cqRing r)"
  "cq_kRingEntries (cqRing (AdvanceCQ n r)) = cq_kRingEntries (cqRing r)"
  "cqeBuff (cqRing (AdvanceCQ n r)) = cqeBuff (cqRing r)"
  "sqRing (AdvanceCQ n r) = sqRing r"
  "Params (AdvanceCQ n r) = Params r"
  by (simp_all add: AdvanceCQ_def Let_def)

text \<open>
  \<^verbatim>\<open>peekCQEvent\<close> loops over the timeout completions the library queued itself; each round
  moves the head of the queue one entry closer to its tail.
\<close>

function peekCQEvent ::
  "'k Ring_scheme \<Rightarrow> (u32 \<times> cqe_ptr option \<times> go_error option \<times> 'k Ring_scheme) outcome" where
  "peekCQEvent r =
     (let msk = cq_kRingMask (cqRing r);
          tail = SmpLoadAcquireUint32 (cq_kTail (cqRing r));
          head = SmpLoadAcquireUint32 (cq_kHead (cqRing r));
          available = tail - head
      in if available = 0 then Ok (0, None, None, r)
         else let cqe = cqe_ptr_of head msk
              in (case cqe_at r cqe of
                    Panic p \<Rightarrow> Panic p
                  | Ok ev \<Rightarrow>
                      if \<not> ExtArgFeature (Params r) \<and> cqe_UserData ev = libUserDataTimeout then
                        let err = (if sint (cqe_Res ev) < 0 then CQEvent_Error ev else None);
                            r' = SeenCQE cqe r
                        in if err = None then peekCQEvent r'
                           else Ok (available, None, err, r')
                      else Ok (available, Some cqe, None, r)))"
  by pat_completeness auto
termination
proof (relation "measure (\<lambda>r. unat (cq_kTail (cqRing r) - cq_kHead (cqRing r)))", goal_cases)
  case 1
  then show ?case by simp
next
  case (2 r msk tail head available cqe ev err r')
  then have "available \<noteq> 0" and "available = cq_kTail (cqRing r) - cq_kHead (cqRing r)"
    by auto
  moreover from this have "unat available \<noteq> 0"
    by (simp only: unsigned_eq_0_iff not_False_eq_True)
  ultimately show ?case
    using 2 unat_diff_step [of "cq_kTail (cqRing r)" "cq_kHead (cqRing r)"]
    by (simp add: SeenCQE_def)
qed

declare peekCQEvent.simps [simp del]

definition min_u32 :: "u32 \<Rightarrow> u32 \<Rightarrow> u32" where
  "min_u32 a b = (if a < b then a else b)"

text \<open>The loop of \<^verbatim>\<open>peekCQEventBatch\<close>: it ends because \<^verbatim>\<open>head\<close> runs up to \<^verbatim>\<open>last\<close>.\<close>

function batch_loop :: "u32 \<Rightarrow> u32 \<Rightarrow> u32 \<Rightarrow> nat \<Rightarrow> cqe_ptr option list \<Rightarrow> cqe_ptr option list outcome" where
  "batch_loop msk lst head i buff =
     (if head = lst then Ok buff
      else if i < length buff
      then batch_loop msk lst (head + 1) (i + 1) (buff[i := Some (cqe_ptr_of head msk)])
      else Panic IndexOutOfRange)"
  by pat_completeness auto
termination
proof (relation "measure (\<lambda>(msk, lst, head, i, buff). unat (lst - head))", goal_cases)
  case 1
  then show ?case by simp
next
  case (2 msk lst head i buff)
  then have ne: "lst - head \<noteq> 0" by simp
  then have "unat (lst - head) \<noteq> 0" by (simp only: unsigned_eq_0_iff not_False_eq_True)
  with unat_diff_step [OF ne] show ?case by simp
qed

declare batch_loop.simps [simp del]

definition peekCQEventBatch ::
  "'k Ring_scheme \<Rightarrow> cqe_ptr option list \<Rightarrow> (int \<times> cqe_ptr option list) outcome" where
  "peekCQEventBatch r buff =
     (let ready = readyCount (cqRing r);
          count = min_u32 (of_nat (length buff)) ready
      in if ready \<noteq> 0 then
           let head = SmpLoadAcquireUint32 (cq_kHead (cqRing r));
               msk = SmpLoadAcquireUint32 (cq_kRingMask (cqRing r));
               lst = head + count
           in obind (batch_loop msk lst head 0 buff) (\<lambda>buff'. Ok (uint count, buff'))
         else Ok (uint count, buff))"

definition PeekCQEventBatch ::
  "'k Ring_scheme kernel \<Rightarrow> 'k Ring_scheme \<Rightarrow> cqe_ptr option list \<Rightarrow>
     (int \<times> cqe_ptr option list \<times> 'k Ring_scheme) outcome" where
  "PeekCQEventBatch k r buff =
     obind (peekCQEventBatch r buff) (\<lambda>(n, buff1).
       if n = 0 \<and> cqNeedFlush (sqRing r) then
         (case sysEnter k (ring_fd r) 0 0 sysRingEnterGetEvents 0 False r of
            (_, _, r1) \<Rightarrow> obind (peekCQEventBatch r1 buff1) (\<lambda>(n', buff2). Ok (n', buff2, r1)))
       else Ok (n, buff1, r))"

section \<open>Waiting\<close>

record getParams =
  gp_submit :: u32
  gp_waitNr :: u32
  gp_flags :: u32
  gp_arg :: u64
  gp_sz :: int

text \<open>
  One round of the loop of \<^verbatim>\<open>getCQEvents\<close>. \<open>Break\<close> leaves the loop with the event and the
  error; \<open>Again\<close> goes round with the reduced submit count.
\<close>

datatype 'k get_step =
    Break "cqe_ptr option" "go_error option" "'k Ring_scheme"
  | Again getParams "'k Ring_scheme"

definition get_iter ::
  "'k Ring_scheme kernel \<Rightarrow> getParams \<Rightarrow> 'k Ring_scheme \<Rightarrow> 'k get_step outcome" where
  "get_iter k params r =
     obind (peekCQEvent r) (\<lambda>(available, cqe, err, r1).
       if err \<noteq> None then Ok (Break cqe err r1)
       else
         let idle = (cqe = None \<and> gp_waitNr params = 0 \<and> gp_submit params = 0)
         in if idle \<and> \<not> cqNeedFlush (sqRing r1) then Ok (Break cqe (Some (Errno 11)) r1)
            else
              let cqOverflowFlush = idle;
                  wait = (available < gp_waitNr params \<or> cqOverflowFlush);
                  flags1 = (if wait then sysRingEnterGetEvents OR gp_flags params else 0);
                  flags2 = (if gp_submit params \<noteq> 0 then snd (needsEnter r1 flags1) else flags1);
                  needEnter = (wait \<or> gp_submit params \<noteq> 0)
              in if \<not> needEnter then Ok (Break cqe None r1)
                 else (case sysEnter2 k (ring_fd r1) (gp_submit params) (gp_waitNr params) flags2
                              (gp_arg params) (gp_sz params) False r1 of
                         (consumed, err', r2) \<Rightarrow>
                           if err' \<noteq> None then Ok (Break cqe err' r2)
                           else if cqe \<noteq> None then Ok (Break cqe None r2)
                           else Ok (Again (params\<lparr>gp_submit := gp_submit params - ucast consumed\<rparr>) r2)))"

partial_function (option) getCQEvents ::
  "'k Ring_scheme kernel \<Rightarrow> getParams \<Rightarrow> 'k Ring_scheme \<Rightarrow>
     (cqe_ptr option \<times> go_error option \<times> 'k Ring_scheme) outcome option" where
  "getCQEvents k params r =
     (case get_iter k params r of
        Panic p \<Rightarrow> Some (Panic p)
      | Ok st \<Rightarrow>
          (case st of
             Break cqe err r' \<Rightarrow> Some (Ok (cqe, err, r'))
           | Again params' r' \<Rightarrow> getCQEvents k params' r'))"

definition WaitCQEvents ::
  "'k Ring_scheme kernel \<Rightarrow> u32 \<Rightarrow> 'k Ring_scheme \<Rightarrow>
     (cqe_ptr option \<times> go_error option \<times> 'k Ring_scheme) outcome option" where
  "WaitCQEvents k cnt r =
     getCQEvents k \<lparr>gp_submit = 0, gp_waitNr = cnt, gp_flags = 0, gp_arg = 0,
                    gp_sz = go_quot numSig 8\<rparr> r"

definition SubmitAndWaitCQEvents ::
  "'k Ring_scheme kernel \<Rightarrow> u32 \<Rightarrow> 'k Ring_scheme \<Rightarrow>
     (cqe_ptr option \<times> go_error option \<times> 'k Ring_scheme) outcome option" where
  "SubmitAndWaitCQEvents k cnt r =
     (case flushSQ r of
        Panic p \<Rightarrow> Some (Panic p)
      | Ok (flushed, r1) \<Rightarrow>
          getCQEvents k \<lparr>gp_submit = flushed, gp_waitNr = cnt, gp_flags = 0, gp_arg = 0,
                         gp_sz = go_quot numSig 8\<rparr> r1)"

definition PeekCQE ::
  "'k Ring_scheme kernel \<Rightarrow> 'k Ring_scheme \<Rightarrow>
     (cqe_ptr option \<times> go_error option \<times> 'k Ring_scheme) outcome option" where
  "PeekCQE k r = WaitCQEvents k 0 r"

text \<open>
  \<^verbatim>\<open>WaitCQEventsWithTimeout\<close>: with the extended-argument feature the timeout travels in the
  argument block (\<open>arg\<close> is its address); otherwise a timeout operation is queued, after one
  \<^verbatim>\<open>Submit\<close> when the queue is full.
\<close>

definition WaitCQEventsWithTimeout ::
  "'k Ring_scheme kernel \<Rightarrow> u64 \<Rightarrow> u64 \<Rightarrow> u32 \<Rightarrow> int \<Rightarrow> 'k Ring_scheme \<Rightarrow>
     (cqe_ptr option \<times> go_error option \<times> 'k Ring_scheme) outcome option" where
  "WaitCQEventsWithTimeout k spec arg cnt timeout r =
     (if ExtArgFeature (Params r) then
        getCQEvents k \<lparr>gp_submit = 0, gp_waitNr = cnt, gp_flags = sysRingEnterExtArg, gp_arg = arg,
                       gp_sz = sizeof_getEventsArg\<rparr> r
      else
        let slot =
          obind (NextSQE r) (\<lambda>(sqe, err, r1).
            if err = None then Ok (sqe, None, r1)
            else obind (Submit k r1) (\<lambda>(_, err2, r2).
              if err2 \<noteq> None then Ok (None, err2, r2) else NextSQE r2))
        in (case slot of
              Panic p \<Rightarrow> Some (Panic p)
            | Ok (sqe, err, r3) \<Rightarrow>
                (case (err, sqe) of
                   (Some e, _) \<Rightarrow> Some (Ok (None, Some e, r3))
                 | (None, None) \<Rightarrow> Some (Panic NilDeref)
                 | (None, Some i) \<Rightarrow>
                     (case obind (PrepSQE spec (Timeout timeout) (sqeBuff (sqRing r3) ! i)) (\<lambda>e.
                             flushSQ (write_sqe i (setUserData e libUserDataTimeout) r3)) of
                        Panic p \<Rightarrow> Some (Panic p)
                      | Ok (toSubmit, r4) \<Rightarrow>
                          getCQEvents k \<lparr>gp_submit = toSubmit, gp_waitNr = cnt, gp_flags = 0,
                                         gp_arg = 0, gp_sz = go_quot numSig 8\<rparr> r4))))"

section \<open>Joining errors\<close>

text \<open>\<^verbatim>\<open>fmt.Errorf("multiple errors: %w and %s", err1, err2.Error())\<close> keeps \<^verbatim>\<open>err1\<close> on the chain.\<close>

definition joinErr :: "go_error option \<Rightarrow> go_error option \<Rightarrow> go_error option" where
  "joinErr err1 err2 =
     (case (err1, err2) of
        (None, _) \<Rightarrow> err2
      | (Some e1, None) \<Rightarrow> Some e1
      | (Some e1, Some e2) \<Rightarrow> Some (Wrapped e1 ''multiple errors''))"

end
