(* ===== verification/Uring_SQ.thy ===== *)
theory Uring_SQ
  imports Uring_Ring
begin

unbundle bit_operations_syntax

text \<open>
  Correctness of the submission queue. The invariant \<open>sq_wf\<close> relates the four counters
  (the kernel's head and tail, the library's \<^verbatim>\<open>sqeHead\<close> and \<^verbatim>\<open>sqeTail\<close>), the index array and
  the entry slots; \<open>sq_pending\<close> and \<open>sq_published\<close> read a ring as the two halves of one FIFO
  queue. The locale \<open>submission_queue\<close> is the contract the rest of the library relies on,
  interpreted on \<^verbatim>\<open>QueueSQE\<close> and \<^verbatim>\<open>flushSQ\<close>.
\<close>

section \<open>Invariant and abstraction\<close>

definition sq_wf :: "sq \<Rightarrow> bool" where
  "sq_wf s \<longleftrightarrow>
     (\<exists>k\<in>set [0..<16]. pow2_ring k (sq_kRingEntries s) (sq_kRingMask s)) \<and>
     length (sqeBuff s) = unat (sq_kRingEntries s) \<and>
     length (kArray s) = unat (sq_kRingEntries s) \<and>
     sq_kTail s = sqeHead s \<and>
     unat (sq_kTail s - sq_kHead s) + unat (sqeTail s - sqeHead s) \<le> unat (sq_kRingEntries s) \<and>
     list_all (\<lambda>i. kArray s ! ringIdx (sq_kHead s + of_nat i) (sq_kRingMask s)
                     = (sq_kHead s + of_nat i) AND sq_kRingMask s)
       [0..<unat (sq_kTail s - sq_kHead s)]"

text \<open>Entries prepared by \<^verbatim>\<open>QueueSQE\<close> and not yet flushed.\<close>

definition sq_pending :: "sq \<Rightarrow> SQEntry list" where
  "sq_pending s = map (\<lambda>i. sqeBuff s ! i)
     (window (sq_kRingMask s) (sqeHead s) (unat (sqeTail s - sqeHead s)))"

text \<open>Entries visible to the kernel: it walks the index array from its head to the tail.\<close>

definition sq_published :: "sq \<Rightarrow> SQEntry list" where
  "sq_published s = map (\<lambda>i. sqeBuff s ! unat (kArray s ! i))
     (window (sq_kRingMask s) (sq_kHead s) (unat (sq_kTail s - sq_kHead s)))"

definition sq_cap :: "sq \<Rightarrow> nat" where
  "sq_cap s = unat (sq_kRingEntries s)"

text \<open>The kernel takes \<open>n\<close> entries: it only moves the head it owns.\<close>

definition kernel_consume :: "nat \<Rightarrow> 'k Ring_scheme \<Rightarrow> 'k Ring_scheme" where
  "kernel_consume n r =
     r\<lparr>sqRing := (sqRing r)\<lparr>sq_kHead := sq_kHead (sqRing r) + of_nat n\<rparr>\<rparr>"

lemma length_sq_pending [simp]: "length (sq_pending s) = unat (sqeTail s - sqeHead s)"
  by (simp add: sq_pending_def)

lemma length_sq_published [simp]: "length (sq_published s) = unat (sq_kTail s - sq_kHead s)"
  by (simp add: sq_published_def)

lemma sq_wfE:
  assumes "sq_wf s"
  obtains k where "k < 16" "pow2_ring k (sq_kRingEntries s) (sq_kRingMask s)"
    "length (sqeBuff s) = unat (sq_kRingEntries s)" "length (kArray s) = unat (sq_kRingEntries s)"
    "sq_kTail s = sqeHead s"
    "unat (sq_kTail s - sq_kHead s) + unat (sqeTail s - sqeHead s) \<le> unat (sq_kRingEntries s)"
    "\<And>i. i < unat (sq_kTail s - sq_kHead s) \<Longrightarrow>
        kArray s ! ringIdx (sq_kHead s + of_nat i) (sq_kRingMask s)
          = (sq_kHead s + of_nat i) AND sq_kRingMask s"
  using assms by (auto simp: sq_wf_def list_all_iff)

lemma pow2_ring_small: "pow2_ring k e m \<Longrightarrow> k < 16 \<Longrightarrow> unat e \<le> 32768"
proof -
  assume "pow2_ring k e m" and k: "k < 16"
  then have "unat e = 2 ^ k" by (simp add: pow2_ring_def unat_pow2)
  moreover have "(2 :: nat) ^ k \<le> 2 ^ 15" using k by (intro power_increasing) auto
  ultimately show ?thesis by simp
qed

lemma pow2_ring_pos: "pow2_ring k e m \<Longrightarrow> 0 < unat e"
  using ringIdx_less [of k e m 0] by linarith

text \<open>Byte offsets of slots do not overflow 32 bits.\<close>

lemma unat_scale:
  assumes "unat (x :: u32) * c < 2 ^ 32"
  shows "unat (x * of_nat c) = unat x * c"
proof (cases "unat x = 0")
  case True
  then have "x = 0" by (simp only: unsigned_eq_0_iff)
  then show ?thesis by simp
next
  case False
  have "c < 2 ^ 32" using assms False by (cases "unat x") auto
  then show ?thesis using assms by (simp add: unat_word_ariths unat_of_nat)
qed

lemma slot_offset:
  assumes "pow2_ring k e m" and "k < 16" and "0 < c" and "c \<le> 64"
  shows "unat ((a AND m) * of_nat c) = ringIdx a m * c"
proof -
  have "ringIdx a m < 32768"
    using ringIdx_less [OF assms(1)] pow2_ring_small [OF assms(1,2)] by (rule less_le_trans)
  then have "ringIdx a m * c \<le> 32768 * 64"
    using assms(3,4) by (intro mult_le_mono) auto
  then show ?thesis unfolding ringIdx_def by (intro unat_scale) simp
qed

lemma unat_diff_trans:
  assumes "unat ((c :: u32) - b) + unat (b - a) < 2 ^ 32"
  shows "unat (c - a) = unat (c - b) + unat (b - a)"
proof -
  have "c - a = (c - b) + (b - a)" by simp
  also have "unat \<dots> = unat (c - b) + unat (b - a)"
    using assms by (intro unat_add_lem [THEN iffD1]) simp
  finally show ?thesis .
qed

text \<open>The entries in use occupy the slots from the kernel's head to \<^verbatim>\<open>sqeTail\<close>.\<close>

lemma sq_used:
  assumes "sq_wf s"
  shows "unat (sqeTail s - sq_kHead s) = length (sq_published s) + length (sq_pending s)"
    and "length (sq_published s) + length (sq_pending s) \<le> sq_cap s"
proof -
  from assms obtain k where k: "k < 16" "pow2_ring k (sq_kRingEntries s) (sq_kRingMask s)"
    and t: "sq_kTail s = sqeHead s"
    and le: "unat (sq_kTail s - sq_kHead s) + unat (sqeTail s - sqeHead s) \<le> unat (sq_kRingEntries s)"
    by (rule sq_wfE)
  have "unat (sq_kRingEntries s) \<le> 32768" using k pow2_ring_small by blast
  with le t show "unat (sqeTail s - sq_kHead s) = length (sq_published s) + length (sq_pending s)"
    using unat_diff_trans [of "sqeTail s" "sqeHead s" "sq_kHead s"] by simp
  show "length (sq_published s) + length (sq_pending s) \<le> sq_cap s"
    using le by (simp add: sq_cap_def)
qed

lemma sq_windows:
  assumes "sq_wf s"
  shows "window (sq_kRingMask s) (sq_kHead s) (unat (sqeTail s - sq_kHead s))
    = window (sq_kRingMask s) (sq_kHead s) (length (sq_published s))
      @ window (sq_kRingMask s) (sqeHead s) (length (sq_pending s))"
proof -
  have "sq_kTail s = sqeHead s" using assms by (rule sq_wfE)
  then have "sq_kHead s + of_nat (length (sq_published s)) = sqeHead s" by simp
  then show ?thesis by (simp only: sq_used(1) [OF assms] window_append)
qed

text \<open>Published entries are read through the index array, which is the identity on them.\<close>

lemma sq_published_direct:
  assumes "sq_wf s"
  shows "sq_published s
    = map (\<lambda>i. sqeBuff s ! i) (window (sq_kRingMask s) (sq_kHead s) (length (sq_published s)))"
proof -
  have "\<And>i. i < unat (sq_kTail s - sq_kHead s) \<Longrightarrow>
     unat (kArray s ! ringIdx (sq_kHead s + of_nat i) (sq_kRingMask s))
       = ringIdx (sq_kHead s + of_nat i) (sq_kRingMask s)"
    using assms by (auto elim!: sq_wfE simp: ringIdx_def)
  then show ?thesis by (intro nth_equalityI) (auto simp: sq_published_def)
qed

lemma sq_contents:
  assumes "sq_wf s"
  shows "sq_published s @ sq_pending s
    = map (\<lambda>i. sqeBuff s ! i) (window (sq_kRingMask s) (sq_kHead s) (unat (sqeTail s - sq_kHead s)))"
  using sq_published_direct [OF assms]
  by (simp add: sq_windows [OF assms] sq_pending_def)

section \<open>NextSQE and QueueSQE\<close>

lemma next_fits_iff:
  assumes "sq_wf s"
  shows "sqeTail s + 1 - sq_kHead s \<le> sq_kRingEntries s
     \<longleftrightarrow> length (sq_published s) + length (sq_pending s) < sq_cap s"
proof -
  from assms obtain k where k: "k < 16" "pow2_ring k (sq_kRingEntries s) (sq_kRingMask s)"
    by (rule sq_wfE)
  have small: "unat (sq_kRingEntries s) \<le> 32768" using k pow2_ring_small by blast
  have "unat (sqeTail s + of_nat 1 - sq_kHead s) = unat (sqeTail s - sq_kHead s) + 1"
    using sq_used [OF assms] small by (intro unat_diff_grow) (simp add: sq_cap_def)
  then show ?thesis
    using sq_used(1) [OF assms] by (simp add: word_le_nat_alt sq_cap_def less_eq_Suc_le)
qed

lemma NextSQE_full:
  assumes "sq_wf (sqRing r)"
    and "length (sq_published (sqRing r)) + length (sq_pending (sqRing r)) = sq_cap (sqRing r)"
  shows "NextSQE r = Ok (None, Some ErrSQOverflow, r)"
  using next_fits_iff [OF assms(1)] assms(2) by (simp add: NextSQE_def Let_def)

lemma NextSQE_fits:
  assumes wf: "sq_wf (sqRing r)"
    and room: "length (sq_published (sqRing r)) + length (sq_pending (sqRing r)) < sq_cap (sqRing r)"
  shows "NextSQE r = Ok (Some (ringIdx (sqeTail (sqRing r)) (sq_kRingMask (sqRing r))), None,
     r\<lparr>sqRing := (sqRing r)\<lparr>sqeTail := sqeTail (sqRing r) + 1\<rparr>\<rparr>)"
proof -
  let ?s = "sqRing r"
  from wf obtain k where k: "k < 16" "pow2_ring k (sq_kRingEntries ?s) (sq_kRingMask ?s)"
    and len: "length (sqeBuff ?s) = unat (sq_kRingEntries ?s)" by (rule sq_wfE)
  have "unat ((sqeTail ?s AND sq_kRingMask ?s) * 64) = ringIdx (sqeTail ?s) (sq_kRingMask ?s) * 64"
    using slot_offset [OF k(2,1), of 64] by simp
  then show ?thesis
    using next_fits_iff [OF wf] room ringIdx_less [OF k(2), of "sqeTail ?s"] len
    by (simp add: NextSQE_def Let_def sizeof_SQEntry_def)
qed

text \<open>Taking the next slot and filling it appends one pending entry and disturbs no other.\<close>

definition sq_push :: "SQEntry \<Rightarrow> sq \<Rightarrow> sq" where
  "sq_push e s = s\<lparr>sqeTail := sqeTail s + 1,
                   sqeBuff := (sqeBuff s)[ringIdx (sqeTail s) (sq_kRingMask s) := e]\<rparr>"

lemma sq_push_wf:
  assumes wf: "sq_wf s" and room: "length (sq_published s) + length (sq_pending s) < sq_cap s"
  shows "sq_wf (sq_push e s)"
proof -
  from wf obtain k where k: "k < 16" "pow2_ring k (sq_kRingEntries s) (sq_kRingMask s)"
    by (rule sq_wfE)
  have small: "unat (sq_kRingEntries s) \<le> 32768" using k pow2_ring_small by blast
  have "unat (sqeTail s + of_nat 1 - sqeHead s) = unat (sqeTail s - sqeHead s) + 1"
    using room small by (intro unat_diff_grow) (simp add: sq_cap_def)
  then show ?thesis using wf room by (auto simp: sq_wf_def sq_push_def sq_cap_def)
qed

lemma sq_push_contents:
  assumes wf: "sq_wf s" and room: "length (sq_published s) + length (sq_pending s) < sq_cap s"
  shows "sq_published (sq_push e s) = sq_published s"
    and "sq_pending (sq_push e s) = sq_pending s @ [e]"
proof -
  let ?s' = "sq_push e s" and ?m = "sq_kRingMask s" and ?h = "sq_kHead s"
  let ?n = "unat (sqeTail s - ?h)"
  from wf obtain k where k: "k < 16" "pow2_ring k (sq_kRingEntries s) ?m"
    and len: "length (sqeBuff s) = unat (sq_kRingEntries s)" by (rule sq_wfE)
  have wf': "sq_wf ?s'" using sq_push_wf [OF wf room] .
  have small: "unat (sq_kRingEntries s) \<le> 32768" using k pow2_ring_small by blast
  have lt: "?n < unat (sq_kRingEntries s)" using room sq_used(1) [OF wf] by (simp add: sq_cap_def)
  have n': "unat (sqeTail ?s' - ?h) = Suc ?n"
    using unat_diff_grow [of "sqeTail s" ?h 1] lt small by (simp add: sq_push_def)
  have slot: "ringIdx (?h + of_nat ?n) ?m = ringIdx (sqeTail s) ?m" by simp
  have dist: "distinct (window ?m ?h (Suc ?n))"
    using distinct_window [OF k(2)] lt by (simp add: less_eq_Suc_le)
  then have "ringIdx (sqeTail s) ?m \<notin> set (window ?m ?h ?n)"
    by (simp only: window_snoc slot) simp
  moreover have "ringIdx (sqeTail s) ?m < length (sqeBuff s)"
    using ringIdx_less [OF k(2)] len by simp
  ultimately have "map (\<lambda>i. sqeBuff ?s' ! i) (window ?m ?h (Suc ?n))
      = map (\<lambda>i. sqeBuff s ! i) (window ?m ?h ?n) @ [e]"
    by (simp only: window_snoc slot) (auto simp: sq_push_def nth_list_update)
  then have "sq_published ?s' @ sq_pending ?s' = sq_published s @ sq_pending s @ [e]"
    using sq_contents [OF wf] sq_contents [OF wf'] n' by (simp add: sq_push_def)
  moreover have "length (sq_published ?s') = length (sq_published s)" by (simp add: sq_push_def)
  ultimately show "sq_published ?s' = sq_published s" and "sq_pending ?s' = sq_pending s @ [e]"
    by (simp_all add: append_eq_append_conv)
qed

lemma QueueSQE_full:
  assumes "sq_wf (sqRing r)"
    and "length (sq_published (sqRing r)) + length (sq_pending (sqRing r)) = sq_cap (sqRing r)"
  shows "QueueSQE spec op flags ud r = Ok (Some ErrSQOverflow, r)"
  by (simp add: QueueSQE_def NextSQE_full [OF assms])

lemma QueueSQE_fits:
  assumes "sq_wf (sqRing r)"
    and "length (sq_published (sqRing r)) + length (sq_pending (sqRing r)) < sq_cap (sqRing r)"
  shows "QueueSQE spec op flags ud r
    = obind (uop.entry spec op flags ud) (\<lambda>e. Ok (None, r\<lparr>sqRing := sq_push e (sqRing r)\<rparr>))"
proof -
  let ?sqe = "sqeBuff (sqRing r) ! ringIdx (sqeTail (sqRing r)) (sq_kRingMask (sqRing r))"
  show ?thesis
    unfolding uop.entry_any_slot [symmetric, where sqe = ?sqe]
    by (cases "PrepSQE spec op ?sqe")
      (simp_all add: QueueSQE_def NextSQE_fits [OF assms] write_sqe_def sq_push_def)
qed

section \<open>flushSQ\<close>

text \<open>
  The loop writes the slot number of every pending entry behind the published ones and
  leaves the rest of the index array alone.
\<close>

lemma flush_loop_ok:
  assumes "pow2_ring k e m" and "k < 16" and "length arr = unat e" and "n \<le> unat e"
  shows "\<exists>arr'. flush_loop m n arr t t = Ok (arr', t + of_nat n, t + of_nat n) \<and>
     length arr' = length arr \<and>
     (\<forall>i<n. arr' ! ringIdx (t + of_nat i) m = (t + of_nat i) AND m) \<and>
     (\<forall>j. j \<notin> set (window m t n) \<longrightarrow> arr' ! j = arr ! j)"
  using assms(3,4)
proof (induction n arbitrary: arr t)
  case 0
  then show ?case by simp
next
  case (Suc n)
  let ?j = "ringIdx t m"
  let ?arr1 = "arr[?j := t AND m]"
  have off: "unat ((t AND m) * 4) div 4 = ?j"
    using slot_offset [OF assms(1,2), of 4 t] by simp
  have jlt: "?j < length arr" using ringIdx_less [OF assms(1)] Suc.prems(1) by simp
  have step: "flush_loop m (Suc n) arr t t = flush_loop m n ?arr1 (t + 1) (t + 1)"
    using off jlt by simp
  obtain arr' where IH: "flush_loop m n ?arr1 (t + 1) (t + 1)
        = Ok (arr', t + 1 + of_nat n, t + 1 + of_nat n)"
    "length arr' = length ?arr1"
    "\<And>i. i < n \<Longrightarrow> arr' ! ringIdx (t + 1 + of_nat i) m = (t + 1 + of_nat i) AND m"
    "\<And>j. j \<notin> set (window m (t + 1) n) \<Longrightarrow> arr' ! j = ?arr1 ! j"
    using Suc.IH [of ?arr1 "t + 1"] Suc.prems by auto
  have "distinct (window m t (Suc n))" using distinct_window [OF assms(1) Suc.prems(2)] .
  then have fresh: "?j \<notin> set (window m (t + 1) n)" by (simp add: window_Cons)
  have set: "arr' ! ringIdx (t + of_nat i) m = (t + of_nat i) AND m" if "i < Suc n" for i
  proof (cases i)
    case 0
    with IH(4) [OF fresh] jlt show ?thesis by simp
  next
    case (Suc i')
    with that IH(3) [of i'] show ?thesis by (simp add: add.assoc)
  qed
  have keep: "arr' ! j = arr ! j" if "j \<notin> set (window m t (Suc n))" for j
    using that IH(4) [of j] by (simp add: window_Cons)
  show ?case
    using step IH(1,2) set keep by (intro exI [of _ arr']) (simp add: add.assoc)
qed

text \<open>After the loop the index array is the identity on every entry in use.\<close>

lemma flush_array:
  assumes wf: "sq_wf s"
  obtains arr' where
    "flush_loop (sq_kRingMask s) (unat (sqeTail s - sqeHead s)) (kArray s) (sq_kTail s) (sqeHead s)
       = Ok (arr', sqeTail s, sqeTail s)"
    and "length arr' = length (kArray s)"
    and "\<And>i. i < unat (sqeTail s - sq_kHead s) \<Longrightarrow>
       arr' ! ringIdx (sq_kHead s + of_nat i) (sq_kRingMask s)
         = (sq_kHead s + of_nat i) AND sq_kRingMask s"
proof -
  let ?m = "sq_kRingMask s" and ?h = "sq_kHead s" and ?t = "sqeHead s"
  let ?p = "unat (sq_kTail s - ?h)" and ?n = "unat (sqeTail s - ?t)"
  from wf obtain k where k: "k < 16" "pow2_ring k (sq_kRingEntries s) ?m"
    and len: "length (kArray s) = unat (sq_kRingEntries s)"
    and t: "sq_kTail s = ?t" and le: "?p + ?n \<le> unat (sq_kRingEntries s)"
    and arr: "\<And>i. i < ?p \<Longrightarrow> kArray s ! ringIdx (?h + of_nat i) ?m = (?h + of_nat i) AND ?m"
    by (rule sq_wfE) blast
  obtain arr' where fl: "flush_loop ?m ?n (kArray s) ?t ?t = Ok (arr', sqeTail s, sqeTail s)"
    and alen: "length arr' = length (kArray s)"
    and new: "\<And>i. i < ?n \<Longrightarrow> arr' ! ringIdx (?t + of_nat i) ?m = (?t + of_nat i) AND ?m"
    and old: "\<And>j. j \<notin> set (window ?m ?t ?n) \<Longrightarrow> arr' ! j = kArray s ! j"
    using flush_loop_ok [OF k(2,1) len, of ?n ?t] le by auto
  have th: "?t = ?h + of_nat ?p" using t by simp
  have "distinct (window ?m ?h (?p + ?n))" using distinct_window [OF k(2) le] .
  then have disj: "set (window ?m ?h ?p) \<inter> set (window ?m ?t ?n) = {}"
    by (subst th) (simp only: window_append distinct_append)
  have "arr' ! ringIdx (?h + of_nat i) ?m = (?h + of_nat i) AND ?m" if i: "i < ?p + ?n" for i
  proof (cases "i < ?p")
    case True
    then have "ringIdx (?h + of_nat i) ?m \<in> set (window ?m ?h ?p)" by (simp add: window_def)
    with disj have "ringIdx (?h + of_nat i) ?m \<notin> set (window ?m ?t ?n)" by blast
    with old arr True show ?thesis by simp
  next
    case False
    define j where "j = i - ?p"
    have eq: "?h + of_nat i = ?t + of_nat j"
      using False th by (simp add: j_def of_nat_diff)
    have "j < ?n" using False i by (simp add: j_def)
    then show ?thesis unfolding eq by (rule new)
  qed
  then show thesis using that fl alen t sq_used(1) [OF wf] by simp
qed

text \<open>\<^verbatim>\<open>flushSQ\<close> publishes every pending entry, in order, and returns the number published.\<close>

lemma flushSQ_ok:
  assumes wf: "sq_wf (sqRing r)"
  shows "\<exists>s' cnt. flushSQ r = Ok (cnt, r\<lparr>sqRing := s'\<rparr>) \<and> sq_wf s' \<and>
     sq_published s' = sq_published (sqRing r) @ sq_pending (sqRing r) \<and> sq_pending s' = [] \<and>
     sq_cap s' = sq_cap (sqRing r) \<and> unat cnt = length (sq_published s') \<and>
     sq_kFlags s' = sq_kFlags (sqRing r)"
proof (cases "sqeTail (sqRing r) - sqeHead (sqRing r) = 0")
  case True
  then have "sq_pending (sqRing r) = []" by (simp add: sq_pending_def)
  with True wf show ?thesis
    by (intro exI [of _ "sqRing r"]) (simp add: flushSQ_def Let_def)
next
  case False
  let ?s = "sqRing r"
  obtain arr' where arr: "flush_loop (sq_kRingMask ?s) (unat (sqeTail ?s - sqeHead ?s)) (kArray ?s)
       (sq_kTail ?s) (sqeHead ?s) = Ok (arr', sqeTail ?s, sqeTail ?s)"
    "length arr' = length (kArray ?s)"
    "\<And>i. i < unat (sqeTail ?s - sq_kHead ?s) \<Longrightarrow>
       arr' ! ringIdx (sq_kHead ?s + of_nat i) (sq_kRingMask ?s)
         = (sq_kHead ?s + of_nat i) AND sq_kRingMask ?s"
    using flush_array [OF wf] by blast
  let ?s' = "?s\<lparr>kArray := arr', sqeHead := sqeTail ?s, sq_kTail := sqeTail ?s\<rparr>"
  have fsq: "flushSQ r = Ok (sqeTail ?s - sq_kHead ?s, r\<lparr>sqRing := ?s'\<rparr>)"
    using False arr(1) by (simp add: flushSQ_def Let_def)
  have wf': "sq_wf ?s'"
    using wf arr(2,3) sq_used [OF wf] by (auto simp: sq_wf_def sq_cap_def list_all_iff)
  have "sq_published ?s' @ sq_pending ?s' = sq_published ?s @ sq_pending ?s"
    using sq_contents [OF wf'] sq_contents [OF wf] by simp
  moreover have "sq_pending ?s' = []" by (simp add: sq_pending_def)
  ultimately show ?thesis
    using fsq wf' sq_used(1) [OF wf]
    by (intro exI [of _ ?s'] exI [of _ "sqeTail ?s - sq_kHead ?s"]) (simp add: sq_cap_def)
qed

section \<open>The kernel's side\<close>

lemma kernel_consume_ok:
  assumes wf: "sq_wf (sqRing r)" and n: "n \<le> length (sq_published (sqRing r))"
  shows "sq_wf (sqRing (kernel_consume n r))"
    and "sq_published (sqRing (kernel_consume n r)) = drop n (sq_published (sqRing r))"
    and "sq_pending (sqRing (kernel_consume n r)) = sq_pending (sqRing r)"
    and "sq_cap (sqRing (kernel_consume n r)) = sq_cap (sqRing r)"
proof -
  let ?s = "sqRing r" and ?s' = "sqRing (kernel_consume n r)"
  let ?p = "unat (sq_kTail ?s - sq_kHead ?s)"
  have n': "n \<le> ?p" using n by simp
  have p': "unat (sq_kTail ?s' - sq_kHead ?s') = ?p - n"
    using unat_diff_add [OF n'] by (simp add: kernel_consume_def)
  have arr: "kArray ?s ! ringIdx (sq_kHead ?s + of_nat i) (sq_kRingMask ?s)
      = (sq_kHead ?s + of_nat i) AND sq_kRingMask ?s" if "i < ?p" for i
    using wf that by (auto elim!: sq_wfE)
  have "kArray ?s ! ringIdx (sq_kHead ?s' + of_nat i) (sq_kRingMask ?s)
      = (sq_kHead ?s' + of_nat i) AND sq_kRingMask ?s" if "i < ?p - n" for i
    using arr [of "n + i"] that by (simp add: kernel_consume_def add.assoc)
  then show "sq_wf ?s'"
    using wf p' by (auto simp: sq_wf_def kernel_consume_def list_all_iff)
  have "window (sq_kRingMask ?s) (sq_kHead ?s) (n + (?p - n))
      = window (sq_kRingMask ?s) (sq_kHead ?s) n
        @ window (sq_kRingMask ?s) (sq_kHead ?s + of_nat n) (?p - n)"
    by (rule window_append)
  then show "sq_published ?s' = drop n (sq_published ?s)"
    using p' n' by (simp add: sq_published_def kernel_consume_def drop_map)
  show "sq_pending ?s' = sq_pending ?s" and "sq_cap ?s' = sq_cap ?s"
    by (simp_all add: kernel_consume_def sq_pending_def sq_cap_def)
qed

section \<open>The contract\<close>

text \<open>
  The queue seen by its users: requests are queued at the back of the pending half, a
  flush hands the pending half over, the consumer takes entries from the front of the
  published half.
\<close>

datatype 'a sq_event = QueueEv 'a | FlushEv | ConsumeEv nat

text \<open>
  Running a sequence of events. The two logs collect the entries accepted by the queue and
  the entries taken by the consumer, which takes at most what is published.
\<close>

fun sq_exec ::
  "('a \<Rightarrow> 'q \<Rightarrow> (go_error option \<times> 'q) outcome) \<Rightarrow> ('q \<Rightarrow> (u32 \<times> 'q) outcome) \<Rightarrow> (nat \<Rightarrow> 'q \<Rightarrow> 'q) \<Rightarrow>
   ('a \<Rightarrow> 'e outcome) \<Rightarrow> ('q \<Rightarrow> 'e list) \<Rightarrow> 'a sq_event list \<Rightarrow> 'q \<Rightarrow> 'e list \<Rightarrow> 'e list \<Rightarrow>
   ('q \<times> 'e list \<times> 'e list) outcome" where
  "sq_exec queue flush consume entry pub [] q acc con = Ok (q, acc, con)"
| "sq_exec queue flush consume entry pub (QueueEv a # es) q acc con =
     obind (queue a q) (\<lambda>(err, q').
       if err = None
       then obind (entry a) (\<lambda>e. sq_exec queue flush consume entry pub es q' (acc @ [e]) con)
       else sq_exec queue flush consume entry pub es q' acc con)"
| "sq_exec queue flush consume entry pub (FlushEv # es) q acc con =
     obind (flush q) (\<lambda>(_, q'). sq_exec queue flush consume entry pub es q' acc con)"
| "sq_exec queue flush consume entry pub (ConsumeEv n # es) q acc con =
     (let n' = min n (length (pub q))
      in sq_exec queue flush consume entry pub es (consume n' q) acc (con @ take n' (pub q)))"

locale submission_queue =
  fixes invar :: "'q \<Rightarrow> bool"
    and cap :: "'q \<Rightarrow> nat"
    and pending :: "'q \<Rightarrow> 'e list"
    and published :: "'q \<Rightarrow> 'e list"
    and entry :: "'a \<Rightarrow> 'e outcome"
    and queue :: "'a \<Rightarrow> 'q \<Rightarrow> (go_error option \<times> 'q) outcome"
    and flush :: "'q \<Rightarrow> (u32 \<times> 'q) outcome"
    and consume :: "nat \<Rightarrow> 'q \<Rightarrow> 'q"
  assumes bounded: "invar q \<Longrightarrow> length (published q) + length (pending q) \<le> cap q"
    and queue_full: "invar q \<Longrightarrow> length (published q) + length (pending q) = cap q \<Longrightarrow>
          queue a q = Ok (Some ErrSQOverflow, q)"
    and queue_fits: "invar q \<Longrightarrow> length (published q) + length (pending q) < cap q \<Longrightarrow>
          entry a = Ok e \<Longrightarrow>
          \<exists>q'. queue a q = Ok (None, q') \<and> invar q' \<and> cap q' = cap q \<and>
               published q' = published q \<and> pending q' = pending q @ [e]"
    and queue_panics: "invar q \<Longrightarrow> length (published q) + length (pending q) < cap q \<Longrightarrow>
          entry a = Panic p \<Longrightarrow> queue a q = Panic p"
    and flush_all: "invar q \<Longrightarrow>
          \<exists>q' cnt. flush q = Ok (cnt, q') \<and> invar q' \<and> cap q' = cap q \<and>
               published q' = published q @ pending q \<and> pending q' = [] \<and>
               unat cnt = length (published q')"
    and consume_some: "invar q \<Longrightarrow> n \<le> length (published q) \<Longrightarrow>
          invar (consume n q) \<and> cap (consume n q) = cap q \<and>
          published (consume n q) = drop n (published q) \<and> pending (consume n q) = pending q"
begin

abbreviation exec where
  "exec \<equiv> sq_exec queue flush consume entry published"

lemma queue_cases:
  assumes "invar q" and "entry a = Ok e"
  obtains "queue a q = Ok (Some ErrSQOverflow, q)"
      "length (published q) + length (pending q) = cap q"
  | q' where "queue a q = Ok (None, q')" "invar q'" "cap q' = cap q"
      "published q' = published q" "pending q' = pending q @ [e]"
      "length (published q) + length (pending q) < cap q"
  using bounded [OF assms(1)] queue_full [OF assms(1)] queue_fits [OF assms(1) _ assms(2)]
  by (metis le_neq_implies_less)

text \<open>
  Nothing is lost, duplicated or reordered: what was accepted is what was consumed,
  followed by what is published, followed by what is pending.
\<close>

lemma exec_fifo:
  assumes "invar q" and "acc = con @ published q @ pending q"
    and "\<And>a. QueueEv a \<in> set es \<Longrightarrow> \<exists>e. entry a = Ok e"
  shows "\<exists>q' acc' con'. exec es q acc con = Ok (q', acc', con') \<and> invar q' \<and> cap q' = cap q \<and>
           acc' = con' @ published q' @ pending q'"
  using assms
proof (induction es arbitrary: q acc con)
  case Nil
  then show ?case by simp
next
  case (Cons ev es)
  note IH = Cons.IH and tl = Cons.prems(3) [OF list.set_intros(2)]
  show ?case
  proof (cases ev)
    case (QueueEv a)
    then obtain e where e: "entry a = Ok e" using Cons.prems(3) [of a] by auto
    from Cons.prems(1) e show ?thesis
    proof (cases rule: queue_cases)
      case 1
      with QueueEv IH [OF Cons.prems(1,2) tl] show ?thesis by simp
    next
      case (2 q')
      with QueueEv e Cons.prems(2) IH [of q' "acc @ [e]" con, OF _ _ tl] show ?thesis by simp
    qed
  next
    case FlushEv
    obtain q' cnt where "flush q = Ok (cnt, q')" "invar q'" "cap q' = cap q"
      "published q' = published q @ pending q" "pending q' = []"
      using flush_all [OF Cons.prems(1)] by blast
    with FlushEv Cons.prems(2) IH [of q' acc con, OF _ _ tl] show ?thesis by simp
  next
    case (ConsumeEv n)
    let ?n = "min n (length (published q))"
    have "invar (consume ?n q) \<and> cap (consume ?n q) = cap q \<and>
      published (consume ?n q) = drop ?n (published q) \<and> pending (consume ?n q) = pending q"
      using consume_some [OF Cons.prems(1)] by simp
    moreover have "acc = (con @ take ?n (published q)) @ drop ?n (published q) @ pending q"
      using Cons.prems(2) by (metis append.assoc append_take_drop_id)
    ultimately show ?thesis
      using ConsumeEv IH [of "consume ?n q" acc "con @ take ?n (published q)", OF _ _ tl]
      by (simp add: Let_def)
  qed
qed

end

definition ring_queue ::
  "u64 \<Rightarrow> Operation \<times> u8 \<times> u64 \<Rightarrow> 'k Ring_scheme \<Rightarrow> (go_error option \<times> 'k Ring_scheme) outcome" where
  "ring_queue spec a r = (case a of (op, flags, ud) \<Rightarrow> QueueSQE spec op flags ud r)"

definition ring_entry :: "u64 \<Rightarrow> Operation \<times> u8 \<times> u64 \<Rightarrow> SQEntry outcome" where
  "ring_entry spec a = (case a of (op, flags, ud) \<Rightarrow>
     obind (PrepSQE spec op zero_SQEntry) (\<lambda>e. Ok (setUserData (e\<lparr>sqe_Flags := flags\<rparr>) ud)))"

lemma ring_entry_uop: "ring_entry spec (op, flags, ud) = uop.entry spec op flags ud"
  by (simp add: ring_entry_def uop.entry_def)

interpretation rsq: submission_queue
  "\<lambda>r. sq_wf (sqRing r)" "\<lambda>r. sq_cap (sqRing r)" "\<lambda>r. sq_pending (sqRing r)"
  "\<lambda>r. sq_published (sqRing r)" "ring_entry spec" "ring_queue spec" flushSQ kernel_consume
  for spec
proof (unfold_locales, goal_cases)
  case (1 q)
  then show ?case by (rule sq_used(2))
next
  case (2 q a)
  then show ?case by (cases a) (simp add: ring_queue_def QueueSQE_full)
next
  case (3 q a e)
  obtain op fl ud where "a = (op, fl, ud)" by (cases a) auto
  with 3 QueueSQE_fits [OF 3(1,2)] sq_push_wf [OF 3(1,2), of e] sq_push_contents [OF 3(1,2), of e]
  show ?case by (simp add: ring_queue_def ring_entry_uop sq_cap_def sq_push_def)
next
  case (4 q a p)
  obtain op fl ud where "a = (op, fl, ud)" by (cases a) auto
  with 4 QueueSQE_fits [OF 4(1,2)] show ?case by (simp add: ring_queue_def ring_entry_uop)
next
  case (5 q)
  then show ?case using flushSQ_ok by fastforce
next
  case (6 q n)
  then show ?case using kernel_consume_ok by blast
qed

end
