(* ===== verification/Uring_CQ.thy ===== *)
theory Uring_CQ
  imports Uring_SQ
begin

unbundle bit_operations_syntax

text \<open>
  Correctness of the completion queue: the invariant \<open>cq_wf\<close>, the events waiting in the queue
  (\<open>cq_ready\<close>), and what \<^verbatim>\<open>peekCQEvent\<close>, \<^verbatim>\<open>peekCQEventBatch\<close>, \<^verbatim>\<open>AdvanceCQ\<close> and
  \<^verbatim>\<open>getCQEvents\<close> do to them. The locale \<open>completion_queue\<close> is the contract the event loops
  rely on.
\<close>

section \<open>Invariant and abstraction\<close>

text \<open>The kernel rounds the completion queue up to at most \<open>2 * MaxEntries = 2 ^ 16\<close> entries.\<close>

definition cq_wf :: "cq \<Rightarrow> bool" where
  "cq_wf c \<longleftrightarrow>
     (\<exists>k\<in>set [0..<17]. pow2_ring k (cq_kRingEntries c) (cq_kRingMask c)) \<and>
     length (cqeBuff c) = unat (cq_kRingEntries c) \<and>
     unat (cq_kTail c - cq_kHead c) \<le> unat (cq_kRingEntries c)"

definition cq_ready :: "cq \<Rightarrow> CQEvent list" where
  "cq_ready c = map (\<lambda>i. cqeBuff c ! i)
     (window (cq_kRingMask c) (cq_kHead c) (unat (cq_kTail c - cq_kHead c)))"

definition cq_cap :: "cq \<Rightarrow> nat" where
  "cq_cap c = unat (cq_kRingEntries c)"

text \<open>The kernel posts an event: it writes the slot at the tail and moves the tail it owns.\<close>

definition kernel_post :: "CQEvent \<Rightarrow> 'k Ring_scheme \<Rightarrow> 'k Ring_scheme" where
  "kernel_post ev r =
     (let c = cqRing r
      in r\<lparr>cqRing := c\<lparr>cqeBuff := (cqeBuff c)[ringIdx (cq_kTail c) (cq_kRingMask c) := ev],
                       cq_kTail := cq_kTail c + 1\<rparr>\<rparr>)"

lemma length_cq_ready [simp]: "length (cq_ready c) = unat (cq_kTail c - cq_kHead c)"
  by (simp add: cq_ready_def)

lemma cq_wfE:
  assumes "cq_wf c"
  obtains k where "k < 17" "pow2_ring k (cq_kRingEntries c) (cq_kRingMask c)"
    "length (cqeBuff c) = unat (cq_kRingEntries c)"
    "unat (cq_kTail c - cq_kHead c) \<le> unat (cq_kRingEntries c)"
    "unat (cq_kRingEntries c) \<le> 65536"
proof -
  from assms obtain k where k: "k < 17" "pow2_ring k (cq_kRingEntries c) (cq_kRingMask c)"
    by (auto simp: cq_wf_def)
  then have "unat (cq_kRingEntries c) = 2 ^ k" by (simp add: pow2_ring_def unat_pow2)
  moreover have "(2 :: nat) ^ k \<le> 2 ^ 16" using k(1) by (intro power_increasing) auto
  ultimately show thesis using that [OF k] assms by (simp add: cq_wf_def)
qed

section \<open>Reading events through pointers\<close>

lemma cqe_ptr_slot:
  assumes "cq_wf c"
  shows "unat (cqe_ptr_of a (cq_kRingMask c)) div sizeof_CQEvent = ringIdx a (cq_kRingMask c)"
proof -
  from assms obtain k where k: "pow2_ring k (cq_kRingEntries c) (cq_kRingMask c)"
    and small: "unat (cq_kRingEntries c) \<le> 65536" by (rule cq_wfE)
  have lt: "unat (a AND cq_kRingMask c) < 65536"
    using ringIdx_less [OF k, of a] small by (simp add: ringIdx_def)
  have "unat (ucast (a AND cq_kRingMask c) * 16 :: u64) = unat (a AND cq_kRingMask c) * 16"
    using lt by (subst unat_word_ariths) simp
  then show ?thesis by (simp add: cqe_ptr_of_def ringIdx_def sizeof_CQEvent_def)
qed

lemma cqe_at_ptr:
  assumes "cq_wf (cqRing r)"
  shows "cqe_at r (cqe_ptr_of a (cq_kRingMask (cqRing r)))
     = Ok (cqeBuff (cqRing r) ! ringIdx a (cq_kRingMask (cqRing r)))"
proof -
  from assms have "ringIdx a (cq_kRingMask (cqRing r)) < length (cqeBuff (cqRing r))"
    by (auto elim!: cq_wfE simp: ringIdx_less)
  then show ?thesis using cqe_ptr_slot [OF assms] by (simp add: cqe_at_def Let_def)
qed

lemma cq_ready_nth:
  "i < length (cq_ready c) \<Longrightarrow>
     cq_ready c ! i = cqeBuff c ! ringIdx (cq_kHead c + of_nat i) (cq_kRingMask c)"
  by (simp add: cq_ready_def)

section \<open>Moving the counters\<close>

lemma AdvanceCQ_ok:
  assumes wf: "cq_wf (cqRing r)" and n: "n \<le> length (cq_ready (cqRing r))"
  shows "cq_wf (cqRing (AdvanceCQ (of_nat n) r))"
    and "cq_ready (cqRing (AdvanceCQ (of_nat n) r)) = drop n (cq_ready (cqRing r))"
proof -
  let ?c = "cqRing r" and ?c' = "cqRing (AdvanceCQ (of_nat n) r)"
  let ?p = "unat (cq_kTail ?c - cq_kHead ?c)"
  have n': "n \<le> ?p" using n by simp
  have p': "unat (cq_kTail ?c' - cq_kHead ?c') = ?p - n"
    using unat_diff_add [OF n'] by simp
  then show "cq_wf ?c'" using wf by (auto simp: cq_wf_def)
  have "window (cq_kRingMask ?c) (cq_kHead ?c) (n + (?p - n))
      = window (cq_kRingMask ?c) (cq_kHead ?c) n
        @ window (cq_kRingMask ?c) (cq_kHead ?c + of_nat n) (?p - n)"
    by (rule window_append)
  then show "cq_ready ?c' = drop n (cq_ready ?c)"
    using p' n' by (simp add: cq_ready_def drop_map)
qed

lemma kernel_post_ok:
  assumes wf: "cq_wf (cqRing r)" and room: "length (cq_ready (cqRing r)) < cq_cap (cqRing r)"
  shows "cq_wf (cqRing (kernel_post ev r))"
    and "cq_ready (cqRing (kernel_post ev r)) = cq_ready (cqRing r) @ [ev]"
proof -
  let ?c = "cqRing r" and ?c' = "cqRing (kernel_post ev r)"
  let ?m = "cq_kRingMask ?c" and ?h = "cq_kHead ?c" and ?p = "unat (cq_kTail ?c - cq_kHead ?c)"
  from wf obtain k where k: "pow2_ring k (cq_kRingEntries ?c) ?m"
    and len: "length (cqeBuff ?c) = unat (cq_kRingEntries ?c)"
    and small: "unat (cq_kRingEntries ?c) \<le> 65536" by (rule cq_wfE)
  have lt: "?p < unat (cq_kRingEntries ?c)" using room by (simp add: cq_cap_def)
  have p': "unat (cq_kTail ?c' - cq_kHead ?c') = Suc ?p"
    using unat_diff_grow [of "cq_kTail ?c" ?h 1] lt small by (simp add: kernel_post_def Let_def)
  show "cq_wf ?c'" using wf p' lt by (auto simp: cq_wf_def kernel_post_def Let_def)
  have slot: "ringIdx (?h + of_nat ?p) ?m = ringIdx (cq_kTail ?c) ?m" by simp
  have "distinct (window ?m ?h (Suc ?p))"
    using distinct_window [OF k] lt by (simp add: less_eq_Suc_le)
  then have "ringIdx (cq_kTail ?c) ?m \<notin> set (window ?m ?h ?p)"
    by (simp only: window_snoc slot) simp
  moreover have "ringIdx (cq_kTail ?c) ?m < length (cqeBuff ?c)"
    using ringIdx_less [OF k] len by simp
  moreover have "cqeBuff ?c' = (cqeBuff ?c)[ringIdx (cq_kTail ?c) ?m := ev]"
    and "cq_kRingMask ?c' = ?m" and "cq_kHead ?c' = ?h"
    by (simp_all add: kernel_post_def Let_def)
  ultimately show "cq_ready ?c' = cq_ready ?c @ [ev]"
    unfolding cq_ready_def p' window_snoc slot
    by (auto simp: window_snoc slot nth_list_update)
qed

section \<open>Batches\<close>

lemma batch_loop_ok:
  assumes "n + i \<le> length buff" and "n < 2 ^ 32"
  shows "batch_loop m (h + of_nat n) h i buff
     = Ok (take i buff @ map (\<lambda>j. Some (cqe_ptr_of (h + of_nat j) m)) [0..<n] @ drop (i + n) buff)"
  using assms
proof (induction n arbitrary: h i buff)
  case 0
  then show ?case by (simp add: batch_loop.simps)
next
  case (Suc n)
  have ne: "h \<noteq> h + of_nat (Suc n)"
  proof
    assume "h = h + of_nat (Suc n)"
    then have "(of_nat (Suc n) :: u32) = 0" by simp
    then have "unat (of_nat (Suc n) :: u32) = 0" by (simp only: unsigned_0)
    with Suc.prems(2) show False by (simp add: unat_of_nat del: of_nat_Suc)
  qed
  let ?b = "buff[i := Some (cqe_ptr_of h m)]"
  have "batch_loop m (h + of_nat (Suc n)) h i buff = batch_loop m (h + 1 + of_nat n) (h + 1) (i + 1) ?b"
    using ne Suc.prems(1) by (subst batch_loop.simps) (simp add: add.assoc)
  also have "\<dots> = Ok (take (i + 1) ?b
      @ map (\<lambda>j. Some (cqe_ptr_of (h + 1 + of_nat j) m)) [0..<n] @ drop (i + 1 + n) ?b)"
    using Suc.prems by (intro Suc.IH) auto
  also have "take (i + 1) ?b = take i buff @ [Some (cqe_ptr_of h m)]"
    using Suc.prems(1) by (simp add: take_Suc_conv_app_nth)
  also have "map (\<lambda>j. Some (cqe_ptr_of (h + 1 + of_nat j) m)) [0..<n]
      = map (\<lambda>j. Some (cqe_ptr_of (h + of_nat (Suc j)) m)) [0..<n]"
    by (simp add: add.assoc)
  finally show ?case
    by (simp add: upt_rec [of 0 "Suc n"] map_Suc_upt [symmetric] del: upt_Suc map_Suc_upt)
qed

text \<open>
  A batch holds as many events as fit, oldest first: reading through the pointers gives the
  front of the queue. The queue itself is not changed.
\<close>

lemma peekCQEventBatch_ok:
  assumes wf: "cq_wf (cqRing r)" and len: "length buff < 2 ^ 32"
    and n: "n = min (length buff) (length (cq_ready (cqRing r)))"
  shows "peekCQEventBatch r buff = Ok (int n,
      map (\<lambda>j. Some (cqe_ptr_of (cq_kHead (cqRing r) + of_nat j) (cq_kRingMask (cqRing r)))) [0..<n]
        @ drop n buff)"
proof -
  let ?c = "cqRing r"
  let ?count = "min_u32 (of_nat (length buff)) (readyCount ?c)"
  have lenu: "unat (of_nat (length buff) :: u32) = length buff"
    using len by (simp add: unat_of_nat)
  have cnt: "unat ?count = n"
    using lenu n by (auto simp: min_u32_def readyCount_def word_less_nat_alt)
  have cnt': "?count = of_nat n" by (simp flip: cnt)
  have int: "uint ?count = int n" using cnt by (metis uint_nat)
  show ?thesis
  proof (cases "readyCount ?c = 0")
    case True
    then have "n = 0" using n by (simp add: readyCount_def)
    with True int show ?thesis by (simp add: peekCQEventBatch_def Let_def)
  next
    case False
    have "n + 0 \<le> length buff" and "n < 2 ^ 32" using n len by auto
    from batch_loop_ok [OF this, of "cq_kRingMask ?c" "cq_kHead ?c"]
    show ?thesis using False int cnt' by (simp add: peekCQEventBatch_def Let_def)
  qed
qed

lemma batch_reads:
  assumes "cq_wf (cqRing r)" and "n \<le> length (cq_ready (cqRing r))"
  shows "map (\<lambda>j. cqe_at r (cqe_ptr_of (cq_kHead (cqRing r) + of_nat j) (cq_kRingMask (cqRing r)))) [0..<n]
     = map Ok (take n (cq_ready (cqRing r)))"
  using assms by (intro nth_equalityI) (auto simp: cqe_at_ptr cq_ready_nth)

lemma batch_points:
  assumes cq: "cq_wf (cqRing r)" and b: "length b < 2 ^ 32"
  shows "\<exists>n ptrs. peekCQEventBatch r b = Ok (int n, map Some ptrs @ drop n b) \<and> length ptrs = n \<and>
     n = min (length b) (length (cq_ready (cqRing r))) \<and>
     map (cqe_at r) ptrs = map Ok (take n (cq_ready (cqRing r)))"
proof -
  define n where "n = min (length b) (length (cq_ready (cqRing r)))"
  let ?ptrs = "map (\<lambda>j. cqe_ptr_of (cq_kHead (cqRing r) + of_nat j) (cq_kRingMask (cqRing r))) [0..<n]"
  have "peekCQEventBatch r b = Ok (int n, map Some ?ptrs @ drop n b)"
    using peekCQEventBatch_ok [OF cq b n_def] by (simp add: comp_def)
  moreover have "map (cqe_at r) ?ptrs = map Ok (take n (cq_ready (cqRing r)))"
    using batch_reads [OF cq, of n] by (simp add: n_def comp_def)
  ultimately show ?thesis using n_def by (intro exI [of _ n] exI [of _ ?ptrs]) simp
qed

section \<open>Peeking past the library's own timeouts\<close>

text \<open>
  The reference: walk the waiting events, dropping completions of the timeouts the library
  queued itself; a failed one ends the walk with its error.
\<close>

fun peek_ref :: "(CQEvent \<Rightarrow> bool) \<Rightarrow> CQEvent list \<Rightarrow> CQEvent option \<times> go_error option \<times> CQEvent list" where
  "peek_ref lib [] = (None, None, [])"
| "peek_ref lib (ev # rest) =
     (if lib ev
      then (case CQEvent_Error ev of None \<Rightarrow> peek_ref lib rest | Some e \<Rightarrow> (None, Some e, rest))
      else (Some ev, None, ev # rest))"

definition lib_timeout :: "ringParams \<Rightarrow> CQEvent \<Rightarrow> bool" where
  "lib_timeout p ev \<longleftrightarrow> \<not> ExtArgFeature p \<and> cqe_UserData ev = libUserDataTimeout"

lemma peekCQEvent_empty:
  "cq_ready (cqRing r) = [] \<Longrightarrow> peekCQEvent r = Ok (0, None, None, r)"
proof -
  assume "cq_ready (cqRing r) = []"
  then have "unat (cq_kTail (cqRing r) - cq_kHead (cqRing r)) = 0"
    using length_cq_ready [of "cqRing r"] by simp
  then have "cq_kTail (cqRing r) - cq_kHead (cqRing r) = 0" by (simp only: unsigned_eq_0_iff)
  then show ?thesis by (subst peekCQEvent.simps) (simp add: Let_def)
qed

lemma peek_oldest:
  assumes wf: "cq_wf (cqRing r)" and rdy: "cq_ready (cqRing r) = ev # rest"
  shows "cqe_at r (cqe_ptr_of (cq_kHead (cqRing r)) (cq_kRingMask (cqRing r))) = Ok ev"
    and "unat (readyCount (cqRing r)) = length (ev # rest)"
proof -
  show "cqe_at r (cqe_ptr_of (cq_kHead (cqRing r)) (cq_kRingMask (cqRing r))) = Ok ev"
    using cqe_at_ptr [OF wf] cq_ready_nth [of 0 "cqRing r"] rdy by simp
  show "unat (readyCount (cqRing r)) = length (ev # rest)"
    using rdy by (metis length_cq_ready readyCount_def SmpLoadAcquireUint32_def)
qed

lemma peekCQEvent_Cons:
  assumes wf: "cq_wf (cqRing r)" and rdy: "cq_ready (cqRing r) = ev # rest"
  shows "peekCQEvent r =
     (if lib_timeout (Params r) ev
      then (case CQEvent_Error ev of
              None \<Rightarrow> peekCQEvent (AdvanceCQ 1 r)
            | Some e \<Rightarrow> Ok (readyCount (cqRing r), None, Some e, AdvanceCQ 1 r))
      else Ok (readyCount (cqRing r),
               Some (cqe_ptr_of (cq_kHead (cqRing r)) (cq_kRingMask (cqRing r))), None, r))"
proof -
  note at = peek_oldest(1) [OF wf rdy]
  have ne: "cq_kTail (cqRing r) - cq_kHead (cqRing r) \<noteq> 0" using rdy length_cq_ready [of "cqRing r"] by auto
  have err: "(if sint (cqe_Res ev) < 0 then CQEvent_Error ev else None) = CQEvent_Error ev"
    by (simp add: CQEvent_Error_def)
  show ?thesis
    by (subst peekCQEvent.simps)
      (use ne in \<open>simp add: at err lib_timeout_def SeenCQE_def readyCount_def Let_def
         split: option.splits\<close>)
qed

lemma AdvanceCQ_add: "AdvanceCQ m (AdvanceCQ n r) = AdvanceCQ (n + m) r"
  by (simp add: AdvanceCQ_def Let_def add.assoc)

lemma AdvanceCQ_0 [simp]: "AdvanceCQ 0 r = r"
  by (simp add: AdvanceCQ_def Let_def)

text \<open>\<^verbatim>\<open>peekCQEvent\<close> agrees with the reference on every well-formed queue.\<close>

lemma peekCQEvent_ref:
  assumes "cq_wf (cqRing r)"
  shows "\<exists>av p err n. peekCQEvent r = Ok (av, p, err, AdvanceCQ (of_nat n) r) \<and>
     n \<le> length (cq_ready (cqRing r)) \<and>
     (case peek_ref (lib_timeout (Params r)) (cq_ready (cqRing r)) of
        (ev, err', rest) \<Rightarrow> err = err' \<and> drop n (cq_ready (cqRing r)) = rest \<and>
          (p = None \<longleftrightarrow> ev = None) \<and>
          (\<forall>e. ev = Some e \<longrightarrow> cqe_at (AdvanceCQ (of_nat n) r) (the p) = Ok e \<and>
             unat av = length rest))"
  using assms
proof (induction "cq_ready (cqRing r)" arbitrary: r)
  case Nil
  then show ?case using peekCQEvent_empty [of r] by (intro exI) (auto intro: exI [of _ 0])
next
  case (Cons ev rest)
  let ?r1 = "AdvanceCQ 1 r"
  note rdy = Cons.hyps(2) [symmetric]
  have len: "1 \<le> length (cq_ready (cqRing r))" using rdy by simp
  have r1: "cq_wf (cqRing ?r1)" "cq_ready (cqRing ?r1) = rest"
    using AdvanceCQ_ok [OF Cons.prems len] rdy by simp_all
  note peek = peekCQEvent_Cons [OF Cons.prems rdy]
  show ?case
  proof (cases "lib_timeout (Params r) ev")
    case False
    then show ?thesis
      using peek rdy peek_oldest [OF Cons.prems rdy] by (intro exI [of _ "readyCount (cqRing r)"] exI [of _ "Some _"]
          exI [of _ None] exI [of _ 0]) auto
  next
    case True
    show ?thesis
    proof (cases "CQEvent_Error ev")
      case (Some e)
      with True peek rdy show ?thesis
        by (intro exI [of _ "readyCount (cqRing r)"] exI [of _ None] exI [of _ "Some e"]
            exI [of _ 1]) auto
    next
      case None
      obtain av p err n where IH: "peekCQEvent ?r1 = Ok (av, p, err, AdvanceCQ (of_nat n) ?r1)"
        "n \<le> length rest"
        "case peek_ref (lib_timeout (Params r)) rest of
          (ev, err', rest') \<Rightarrow> err = err' \<and> drop n rest = rest' \<and> (p = None \<longleftrightarrow> ev = None) \<and>
            (\<forall>e. ev = Some e \<longrightarrow> cqe_at (AdvanceCQ (of_nat n) ?r1) (the p) = Ok e \<and>
               unat av = length rest')"
        using Cons.hyps(1) [OF r1(2) [symmetric] r1(1)] r1(2) by auto
      have "AdvanceCQ (of_nat n) ?r1 = AdvanceCQ (of_nat (Suc n)) r" by (simp add: AdvanceCQ_add)
      with IH True None peek rdy show ?thesis
        by (intro exI [of _ av] exI [of _ p] exI [of _ err] exI [of _ "Suc n"])
          (simp del: of_nat_Suc)
    qed
  qed
qed

section \<open>What the library expects of the kernel\<close>

text \<open>
  \<open>kernel_completes\<close>: a call of \<^verbatim>\<open>io_uring_enter\<close> changes the completion queue only by
  appending events (the head and the geometry belong to the application).
  \<open>kernel_waits\<close>: with \<^verbatim>\<open>IORING_ENTER_GETEVENTS\<close> and nothing to submit, a successful call
  returns once \<^verbatim>\<open>min_complete\<close> events (at most the size of the queue) are there.
\<close>

definition kernel_completes :: "'k Ring_scheme kernel \<Rightarrow> bool" where
  "kernel_completes k \<longleftrightarrow>
     (\<forall>args r c e r'. cq_wf (cqRing r) \<longrightarrow> k sysRingEnter args r = (c, e, r') \<longrightarrow>
        cq_wf (cqRing r') \<and> Params r' = Params r \<and> cq_cap (cqRing r') = cq_cap (cqRing r) \<and>
        cq_kHead (cqRing r') = cq_kHead (cqRing r) \<and>
        cq_kRingMask (cqRing r') = cq_kRingMask (cqRing r) \<and>
        (\<exists>new. cq_ready (cqRing r') = cq_ready (cqRing r) @ new))"

definition kernel_waits :: "'k Ring_scheme kernel \<Rightarrow> bool" where
  "kernel_waits k \<longleftrightarrow>
     (\<forall>fd wnr fl arg sz r c r'. cq_wf (cqRing r) \<longrightarrow> fl AND sysRingEnterGetEvents \<noteq> 0 \<longrightarrow>
        k sysRingEnter [fd, 0, ucast (wnr :: u32), ucast (fl :: u32), arg, sz] r = (c, 0, r') \<longrightarrow>
        min (unat wnr) (cq_cap (cqRing r)) \<le> length (cq_ready (cqRing r')))"

lemma sysEnter2_cases:
  assumes "sysEnter2 k fd sub wnr fl arg sz raw r = (c, err, r')"
  obtains e where "k sysRingEnter [of_int fd, ucast sub, ucast wnr, ucast fl, arg, of_int sz] r = (c, 0, r')"
      "err = None"
  | c' e where "k sysRingEnter [of_int fd, ucast sub, ucast wnr, ucast fl, arg, of_int sz] r = (c', e, r')"
      "e \<noteq> 0" "c = 0" "err = Some (SyscallError ''io_uring_enter'' (Errno e))"
  using assms
  by (auto simp: sysEnter2_def RawSyscall6_def Syscall6_def NewSyscallError_def Let_def
      split: if_splits prod.splits)

lemma sysEnter2_completes:
  assumes "kernel_completes k" and "cq_wf (cqRing r)"
    and "sysEnter2 k fd sub wnr fl arg sz raw r = (c, err, r')"
  shows "cq_wf (cqRing r')" "Params r' = Params r" "cq_cap (cqRing r') = cq_cap (cqRing r)"
    "cq_kHead (cqRing r') = cq_kHead (cqRing r)"
    "cq_kRingMask (cqRing r') = cq_kRingMask (cqRing r)"
    "\<exists>new. cq_ready (cqRing r') = cq_ready (cqRing r) @ new"
  using assms(1,2) sysEnter2_cases [OF assms(3)] unfolding kernel_completes_def by metis+

lemma getevents_flag: "(sysRingEnterGetEvents OR fl) AND sysRingEnterGetEvents \<noteq> (0 :: u32)"
  by (simp add: bit.conj_disj_distrib2 sysRingEnterGetEvents_def)

section \<open>getCQEvents\<close>

text \<open>With the extended-argument feature \<^verbatim>\<open>peekCQEvent\<close> only looks.\<close>

lemma peekCQEvent_ext:
  assumes "cq_wf (cqRing r)" and "ExtArgFeature (Params r)"
  shows "peekCQEvent r = (if cq_ready (cqRing r) = [] then Ok (0, None, None, r)
     else Ok (readyCount (cqRing r),
        Some (cqe_ptr_of (cq_kHead (cqRing r)) (cq_kRingMask (cqRing r))), None, r))"
  using assms peekCQEvent_empty [of r] peekCQEvent_Cons [OF assms(1)]
  by (cases "cq_ready (cqRing r)") (auto simp: lib_timeout_def)

text \<open>
  \<open>refused\<close>: the system call of a round, made in the state \<open>r\<close> and left in \<open>r'\<close>, returns the error \<open>e\<close>. A
  round that finds an event leaves the loop with the pointer to the oldest one; it has no error unless
  it entered the kernel, and it does not enter the kernel when there are enough events.
\<close>

definition refused ::
  "'k Ring_scheme kernel \<Rightarrow> getParams \<Rightarrow> 'k Ring_scheme \<Rightarrow> go_error \<Rightarrow> 'k Ring_scheme \<Rightarrow> bool" where
  "refused k params r e r' \<longleftrightarrow> (\<exists>sub fl c. sysEnter2 k (ring_fd r) sub (gp_waitNr params) fl
     (gp_arg params) (gp_sz params) False r = (c, Some e, r'))"

lemma ready_enough:
  "\<not> readyCount (cqRing r) < n \<longleftrightarrow> unat n \<le> length (cq_ready (cqRing r))"
  by (simp add: readyCount_def word_less_nat_alt not_less)

lemma get_iter_found:
  assumes wf: "cq_wf (cqRing r)" and ext: "ExtArgFeature (Params r)"
    and ne: "cq_ready (cqRing r) \<noteq> []" and k: "kernel_completes k"
  shows "\<exists>err r'. get_iter k params r
      = Ok (Break (Some (cqe_ptr_of (cq_kHead (cqRing r)) (cq_kRingMask (cqRing r)))) err r') \<and>
      cq_wf (cqRing r') \<and> cq_kHead (cqRing r') = cq_kHead (cqRing r) \<and>
      cq_kRingMask (cqRing r') = cq_kRingMask (cqRing r) \<and>
      (\<exists>new. cq_ready (cqRing r') = cq_ready (cqRing r) @ new) \<and>
      (\<forall>e. err = Some e \<longrightarrow> refused k params r e r') \<and>
      (unat (gp_waitNr params) \<le> length (cq_ready (cqRing r)) \<and> gp_submit params = 0 \<longrightarrow> err = None \<and> r' = r)"
proof -
  let ?w = "readyCount (cqRing r) < gp_waitNr params"
  let ?f1 = "if ?w then sysRingEnterGetEvents OR gp_flags params else 0"
  let ?f2 = "if gp_submit params \<noteq> 0 then snd (needsEnter r ?f1) else ?f1"
  obtain c err r' where se: "sysEnter2 k (ring_fd r) (gp_submit params) (gp_waitNr params) ?f2
      (gp_arg params) (gp_sz params) False r = (c, err, r')" by (metis prod_cases3)
  note post = sysEnter2_completes [OF k wf se]
  show ?thesis
  proof (cases "\<not> ?w \<and> gp_submit params = 0")
    case True
    then show ?thesis
      using wf ne by (simp add: get_iter_def peekCQEvent_ext [OF wf ext] Let_def)
  next
    case False
    then have "get_iter k params r = Ok (Break
        (Some (cqe_ptr_of (cq_kHead (cqRing r)) (cq_kRingMask (cqRing r)))) err r')"
      using ne se by (auto simp: get_iter_def peekCQEvent_ext [OF wf ext] Let_def)
    moreover have "refused k params r e r'" if "err = Some e" for e using se that unfolding refused_def by blast
    moreover have "\<not> (unat (gp_waitNr params) \<le> length (cq_ready (cqRing r)) \<and> gp_submit params = 0)"
      using False ready_enough [of r "gp_waitNr params"] by simp
    ultimately show ?thesis using post by blast
  qed
qed

text \<open>A round that finds nothing and has to wait goes to the kernel.\<close>

lemma get_iter_wait:
  assumes wf: "cq_wf (cqRing r)" and ext: "ExtArgFeature (Params r)"
    and e: "cq_ready (cqRing r) = []" and nz: "gp_waitNr params \<noteq> 0" "gp_submit params = 0"
    and se: "sysEnter2 k (ring_fd r) 0 (gp_waitNr params) (sysRingEnterGetEvents OR gp_flags params)
      (gp_arg params) (gp_sz params) False r = (c, err, r')"
  shows "get_iter k params r = Ok (if err = None
     then Again (params\<lparr>gp_submit := 0 - ucast c\<rparr>) r' else Break None err r')"
  using e nz se word_neq_0_conv [THEN iffD1, OF nz(1)]
  by (auto simp: get_iter_def peekCQEvent_ext [OF wf ext] Let_def)

text \<open>
  Waiting for at least one event ends after at most two rounds, with an error of the kernel
  or with a pointer to the oldest event.
\<close>

definition found_oldest :: "cqe_ptr option \<Rightarrow> 'k Ring_scheme \<Rightarrow> bool" where
  "found_oldest p r \<longleftrightarrow> cq_wf (cqRing r) \<and> cq_ready (cqRing r) \<noteq> [] \<and>
     (\<exists>q. p = Some q \<and> cqe_at r q = Ok (hd (cq_ready (cqRing r))))"

lemma found_oldestI:
  assumes "cq_wf (cqRing r)" and "cq_ready (cqRing r) \<noteq> []"
  shows "found_oldest (Some (cqe_ptr_of (cq_kHead (cqRing r)) (cq_kRingMask (cqRing r)))) r"
proof -
  have "0 < length (cq_ready (cqRing r))" using assms(2) by blast
  from cq_ready_nth [OF this] have "hd (cq_ready (cqRing r))
      = cqeBuff (cqRing r) ! ringIdx (cq_kHead (cqRing r)) (cq_kRingMask (cqRing r))"
    using assms(2) by (simp add: hd_conv_nth)
  then show ?thesis using assms cqe_at_ptr [OF assms(1)] by (simp add: found_oldest_def)
qed

lemma getCQEvents_found:
  assumes "cq_wf (cqRing r)" and "ExtArgFeature (Params r)" and "cq_ready (cqRing r) \<noteq> []"
    and "kernel_completes k"
  shows "\<exists>p err r'. getCQEvents k params r = Some (Ok (p, err, r')) \<and> found_oldest p r' \<and>
     (\<forall>e. err = Some e \<longrightarrow> refused k params r e r') \<and>
     (unat (gp_waitNr params) \<le> length (cq_ready (cqRing r)) \<and> gp_submit params = 0 \<longrightarrow> err = None \<and> r' = r)"
proof -
  obtain err r' where it: "get_iter k params r
      = Ok (Break (Some (cqe_ptr_of (cq_kHead (cqRing r)) (cq_kRingMask (cqRing r)))) err r')"
    and r': "cq_wf (cqRing r')" "cq_kHead (cqRing r') = cq_kHead (cqRing r)"
      "cq_kRingMask (cqRing r') = cq_kRingMask (cqRing r)" "cq_ready (cqRing r') \<noteq> []"
      "\<forall>e. err = Some e \<longrightarrow> refused k params r e r'"
      "unat (gp_waitNr params) \<le> length (cq_ready (cqRing r)) \<and> gp_submit params = 0 \<longrightarrow> err = None \<and> r' = r"
    using get_iter_found [OF assms, of params] assms(3) by fastforce
  from found_oldestI [OF r'(1,4)] it r'(2,3,5,6) show ?thesis
    by (subst getCQEvents.simps) simp
qed

lemma getCQEvents_returns:
  assumes wf: "cq_wf (cqRing r)" and ext: "ExtArgFeature (Params r)"
    and k: "kernel_completes k" "kernel_waits k"
    and nz: "gp_waitNr params \<noteq> 0" "gp_submit params = 0"
  shows "\<exists>p err r'. getCQEvents k params r = Some (Ok (p, err, r')) \<and>
     (err = None \<or> cq_ready (cqRing r) \<noteq> [] \<longrightarrow> found_oldest p r') \<and>
     (\<forall>e. err = Some e \<longrightarrow> (\<exists>r1 new. cq_ready (cqRing r1) = cq_ready (cqRing r) @ new \<and> refused k params r1 e r')) \<and>
     (unat (gp_waitNr params) \<le> length (cq_ready (cqRing r)) \<longrightarrow> err = None \<and> r' = r)"
proof (cases "cq_ready (cqRing r) = []")
  case False
  with getCQEvents_found [OF wf ext _ k(1), of params] nz(2) show ?thesis by (metis append_Nil2)
next
  case True
  obtain c err r1 where se: "sysEnter2 k (ring_fd r) 0 (gp_waitNr params)
      (sysRingEnterGetEvents OR gp_flags params) (gp_arg params) (gp_sz params) False r = (c, err, r1)"
    by (metis prod_cases3)
  note it = get_iter_wait [OF wf ext True nz se]
  note r1 = sysEnter2_completes [OF k(1) wf se]
  have pos: "0 < unat (gp_waitNr params)"
    using nz(1) by (simp add: unsigned_eq_0_iff neq0_conv [symmetric] del: neq0_conv)
  have few: "\<not> unat (gp_waitNr params) \<le> length (cq_ready (cqRing r))" using True pos by (simp del: length_cq_ready)
  show ?thesis
  proof (cases "err = None")
    case False
    then obtain e where e: "err = Some e" by blast
    with se have "refused k params r e r1" unfolding refused_def by blast
    with it e few True show ?thesis
      by (subst getCQEvents.simps) (auto intro!: exI [of _ r] simp del: length_cq_ready)
  next
    case True
    have "0 < cq_cap (cqRing r)"
      using wf by (auto elim!: cq_wfE simp: cq_cap_def dest: pow2_ring_pos)
    moreover note pos
    moreover have "min (unat (gp_waitNr params)) (cq_cap (cqRing r)) \<le> length (cq_ready (cqRing r1))"
      using sysEnter2_cases [OF se] True k(2) wf getevents_flag unfolding kernel_waits_def
      by (metis option.distinct(1) unsigned_0)
    ultimately have "0 < length (cq_ready (cqRing r1))" by linarith
    then have "cq_ready (cqRing r1) \<noteq> []" by blast
    from getCQEvents_found [OF r1(1) _ this k(1), of "params\<lparr>gp_submit := 0 - ucast c\<rparr>"] ext r1(2)
    obtain p err' r' where "getCQEvents k (params\<lparr>gp_submit := 0 - ucast c\<rparr>) r1
        = Some (Ok (p, err', r'))" "found_oldest p r'" "\<forall>e. err' = Some e \<longrightarrow> refused k (params\<lparr>gp_submit := 0 - ucast c\<rparr>) r1 e r'"
      by auto
    with it True few r1(6) show ?thesis
      by (subst getCQEvents.simps) (auto simp: refused_def simp del: length_cq_ready)
  qed
qed

section \<open>The contract\<close>

text \<open>
  The queue seen by the event loops: reading a batch returns the oldest events without
  removing them, advancing removes them, the producer appends when there is room.
\<close>

datatype 'e cq_event = PostEv 'e | TakeEv nat

text \<open>Running a sequence of events; the logs hold the events posted and the events handled.\<close>

fun cq_exec ::
  "(nat \<Rightarrow> 'q \<Rightarrow> 'e list outcome) \<Rightarrow> (nat \<Rightarrow> 'q \<Rightarrow> 'q) \<Rightarrow> ('e \<Rightarrow> 'q \<Rightarrow> 'q) \<Rightarrow> ('q \<Rightarrow> bool) \<Rightarrow>
   'e cq_event list \<Rightarrow> 'q \<Rightarrow> 'e list \<Rightarrow> 'e list \<Rightarrow> ('q \<times> 'e list \<times> 'e list) outcome" where
  "cq_exec rd adv post room [] q pst hdl = Ok (q, pst, hdl)"
| "cq_exec rd adv post room (PostEv e # es) q pst hdl =
     (if room q then cq_exec rd adv post room es (post e q) (pst @ [e]) hdl
      else cq_exec rd adv post room es q pst hdl)"
| "cq_exec rd adv post room (TakeEv n # es) q pst hdl =
     obind (rd n q) (\<lambda>b. cq_exec rd adv post room es (adv (length b) q) pst (hdl @ b))"

locale completion_queue =
  fixes invar :: "'q \<Rightarrow> bool"
    and cap :: "'q \<Rightarrow> nat"
    and ready :: "'q \<Rightarrow> 'e list"
    and rd :: "nat \<Rightarrow> 'q \<Rightarrow> 'e list outcome"
    and adv :: "nat \<Rightarrow> 'q \<Rightarrow> 'q"
    and post :: "'e \<Rightarrow> 'q \<Rightarrow> 'q"
  assumes rd_front: "invar q \<Longrightarrow> n < 2 ^ 32 \<Longrightarrow> rd n q = Ok (take n (ready q))"
    and adv_drops: "invar q \<Longrightarrow> n \<le> length (ready q) \<Longrightarrow>
          invar (adv n q) \<and> cap (adv n q) = cap q \<and> ready (adv n q) = drop n (ready q)"
    and post_appends: "invar q \<Longrightarrow> length (ready q) < cap q \<Longrightarrow>
          invar (post e q) \<and> cap (post e q) = cap q \<and> ready (post e q) = ready q @ [e]"
begin

abbreviation exec where
  "exec \<equiv> cq_exec rd adv post (\<lambda>q. length (ready q) < cap q)"

text \<open>Every event that was posted is handled exactly once and in order, or still waiting.\<close>

lemma exec_in_order:
  assumes "invar q" and "pst = hdl @ ready q"
    and "\<And>n. TakeEv n \<in> set es \<Longrightarrow> n < 2 ^ 32"
  shows "\<exists>q' pst' hdl'. exec es q pst hdl = Ok (q', pst', hdl') \<and> invar q' \<and> cap q' = cap q \<and>
           pst' = hdl' @ ready q'"
  using assms
proof (induction es arbitrary: q pst hdl)
  case Nil
  then show ?case by simp
next
  case (Cons ev es)
  note tl = Cons.prems(3) [OF list.set_intros(2)]
  show ?case
  proof (cases ev)
    case (PostEv e)
    show ?thesis
    proof (cases "length (ready q) < cap q")
      case True
      with PostEv Cons.prems post_appends [OF Cons.prems(1) True, of e]
        Cons.IH [of "post e q" "pst @ [e]" hdl, OF _ _ tl] show ?thesis by simp
    next
      case False
      with PostEv Cons.IH [OF Cons.prems(1,2) tl] show ?thesis by simp
    qed
  next
    case (TakeEv n)
    let ?b = "take n (ready q)"
    have "rd n q = Ok ?b" using Cons.prems TakeEv by (intro rd_front) auto
    moreover have "invar (adv (length ?b) q) \<and> cap (adv (length ?b) q) = cap q \<and>
        ready (adv (length ?b) q) = drop (length ?b) (ready q)"
      using Cons.prems(1) by (intro adv_drops) simp_all
    moreover have "pst = (hdl @ ?b) @ drop (length ?b) (ready q)"
      using Cons.prems(2) by (simp add: min_def)
    ultimately show ?thesis
      using TakeEv Cons.IH [of "adv (length ?b) q" pst "hdl @ ?b", OF _ _ tl] by simp
  qed
qed

end

text \<open>Reading the events a filled buffer points to, as the loops \<^verbatim>\<open>cqe := cqeBuff[i]\<close> do.\<close>

fun read_ptrs :: "'k Ring_scheme \<Rightarrow> cqe_ptr option list \<Rightarrow> CQEvent list outcome" where
  "read_ptrs r [] = Ok []"
| "read_ptrs r (p # ps) =
     (case p of
        None \<Rightarrow> Panic NilDeref
      | Some q \<Rightarrow> obind (cqe_at r q) (\<lambda>ev. obind (read_ptrs r ps) (\<lambda>evs. Ok (ev # evs))))"

definition read_batch :: "nat \<Rightarrow> 'k Ring_scheme \<Rightarrow> CQEvent list outcome" where
  "read_batch n r =
     obind (peekCQEventBatch r (replicate n None)) (\<lambda>(c, buff). read_ptrs r (take (nat c) buff))"

lemma read_ptrs_map:
  "map (cqe_at r) qs = map Ok evs \<Longrightarrow> read_ptrs r (map Some qs) = Ok evs"
  by (induction qs arbitrary: evs) auto

lemma read_batch_ok:
  assumes "cq_wf (cqRing r)" and "n < 2 ^ 32"
  shows "read_batch n r = Ok (take n (cq_ready (cqRing r)))"
proof -
  define c where "c = min n (length (cq_ready (cqRing r)))"
  let ?q = "\<lambda>j. cqe_ptr_of (cq_kHead (cqRing r) + of_nat j) (cq_kRingMask (cqRing r))"
  have "peekCQEventBatch r (replicate n None)
      = Ok (int c, map (\<lambda>j. Some (?q j)) [0..<c] @ drop c (replicate n None))"
    using assms by (intro peekCQEventBatch_ok) (auto simp: c_def)
  moreover have "map (\<lambda>j. cqe_at r (?q j)) [0..<c] = map Ok (take c (cq_ready (cqRing r)))"
    using assms(1) by (intro batch_reads) (simp_all add: c_def)
  then have "read_ptrs r (map Some (map ?q [0..<c])) = Ok (take c (cq_ready (cqRing r)))"
    by (intro read_ptrs_map) (simp add: comp_def)
  moreover have "take c (cq_ready (cqRing r)) = take n (cq_ready (cqRing r))"
    by (simp add: c_def min_def)
  ultimately show ?thesis by (simp add: read_batch_def comp_def)
qed

interpretation rcq: completion_queue
  "\<lambda>r. cq_wf (cqRing r)" "\<lambda>r. cq_cap (cqRing r)" "\<lambda>r. cq_ready (cqRing r)"
  read_batch "\<lambda>n. AdvanceCQ (of_nat n)" kernel_post
proof (unfold_locales, goal_cases)
  case (1 q n)
  then show ?case by (rule read_batch_ok)
next
  case (2 q n)
  then show ?case using AdvanceCQ_ok [OF 2] by (simp add: cq_cap_def)
next
  case (3 q e)
  then show ?case using kernel_post_ok [OF 3, of e] by (simp add: cq_cap_def kernel_post_def Let_def)
qed

section \<open>A small ring\<close>

text \<open>
  A ring of four submission and four completion slots whose counters stand two steps before
  the 32-bit wrap-around, on a kernel with the extended-argument and fast-poll features: the
  concrete input of the witnesses.
\<close>

definition ex_params :: ringParams where
  "ex_params = \<lparr>sqEntries = 4, cqEntries = 4, p_flags = 0, sqThreadCpu = 0, sqThreadIdle = 0,
     features = 288, wqFD = 0, p_resv = (0, 0, 0),
     sqOffset = \<lparr>sqo_head = 0, sqo_tail = 4, sqo_ringMask = 16, sqo_ringEntries = 24,
       sqo_flags = 36, sqo_dropped = 32, sqo_array = 64, sqo_resv1 = 0, sqo_resv2 = 0\<rparr>,
     cqOffset = \<lparr>cqo_head = 8, cqo_tail = 12, cqo_ringMsk = 20, cqo_ringEntries = 28,
       cqo_overflow = 44, cqo_cqes = 128, cqo_flags = 40, cqo_resv1 = 0, cqo_resv2 = 0\<rparr>\<rparr>"

definition ex_cqe :: "u64 \<Rightarrow> u32 \<Rightarrow> CQEvent" where
  "ex_cqe ud res = \<lparr>cqe_UserData = ud, cqe_Res = res, cqe_Flags = 0\<rparr>"

definition ex_ring :: Ring where
  "ex_ring = \<lparr>ring_fd = 5, Params = ex_params,
     cqRing = \<lparr>cq_buff = nil_slice, cq_ringSize = 192, cq_kHead = - 2, cq_kTail = - 2,
       cq_kRingMask = 3, cq_kRingEntries = 4, cq_kOverflow = 0, cq_kFlags = 0,
       cqeBuff = replicate 4 (ex_cqe 0 0)\<rparr>,
     sqRing = \<lparr>sq_buff = nil_slice, sqeBuff = replicate 4 zero_SQEntry, sq_ringSize = 192,
       sq_kHead = - 2, sq_kTail = - 2, sq_kRingMask = 3, sq_kRingEntries = 4, sq_kFlags = 0,
       sq_kDropped = 0, kArray = replicate 4 0, sqeTail = - 2, sqeHead = - 2\<rparr>\<rparr>"

lemma pow2_ring_4: "pow2_ring 2 4 3"
  by (simp add: pow2_ring_def)

lemma ex_ring_sq: "sq_wf (sqRing ex_ring)" "sq_published (sqRing ex_ring) = []"
  "sq_pending (sqRing ex_ring) = []" "sq_cap (sqRing ex_ring) = 4"
  using pow2_ring_4
  by (auto simp: ex_ring_def sq_wf_def sq_published_def sq_pending_def sq_cap_def
      intro!: bexI [of _ 2])

lemma ex_ring_cq: "cq_wf (cqRing ex_ring)" "cq_ready (cqRing ex_ring) = []"
  "cq_cap (cqRing ex_ring) = 4"
  using pow2_ring_4
  by (auto simp: ex_ring_def cq_wf_def cq_ready_def cq_cap_def intro!: bexI [of _ 2])

lemma ex_ring_ext: "ExtArgFeature (Params ex_ring)"
  by (simp add: ex_ring_def ex_params_def ExtArgFeature_def featExtArg_def)

text \<open>The same ring with one pending entry, and with one waiting event.\<close>

definition ex_queued :: Ring where
  "ex_queued = ex_ring\<lparr>sqRing := sq_push (setUserData zero_SQEntry 7) (sqRing ex_ring)\<rparr>"

definition ex_posted :: Ring where
  "ex_posted = kernel_post (ex_cqe 9 0) ex_ring"

lemma ex_queued_sq: "sq_wf (sqRing ex_queued)" "sq_published (sqRing ex_queued) = []"
  "sq_pending (sqRing ex_queued) = [setUserData zero_SQEntry 7]"
proof -
  have room: "length (sq_published (sqRing ex_ring)) + length (sq_pending (sqRing ex_ring)) < sq_cap (sqRing ex_ring)"
    by (simp only: ex_ring_sq) simp
  show "sq_wf (sqRing ex_queued)" "sq_published (sqRing ex_queued) = []"
    "sq_pending (sqRing ex_queued) = [setUserData zero_SQEntry 7]"
    using sq_push_wf [OF ex_ring_sq(1) room] sq_push_contents [OF ex_ring_sq(1) room]
    by (simp_all add: ex_queued_def ex_ring_sq)
qed

lemma ex_posted_cq: "cq_wf (cqRing ex_posted)" "cq_ready (cqRing ex_posted) = [ex_cqe 9 0]"
proof -
  have "length (cq_ready (cqRing ex_ring)) < cq_cap (cqRing ex_ring)" by (simp only: ex_ring_cq) simp
  from kernel_post_ok [OF ex_ring_cq(1) this, of "ex_cqe 9 0"]
  show "cq_wf (cqRing ex_posted)" "cq_ready (cqRing ex_posted) = [ex_cqe 9 0]"
    by (simp_all add: ex_posted_def ex_ring_cq)
qed

text \<open>A kernel that fills the completion queue whenever it is entered.\<close>

definition ex_fill :: "'k Ring_scheme \<Rightarrow> 'k Ring_scheme" where
  "ex_fill r = (kernel_post (ex_cqe 7 0) ^^ (cq_cap (cqRing r) - length (cq_ready (cqRing r)))) r"

definition ex_kernel :: "'k Ring_scheme kernel" where
  "ex_kernel trap args r = (0, 0, ex_fill r)"

lemma kernel_posts_ok:
  assumes "cq_wf (cqRing r)" and "length (cq_ready (cqRing r)) + n \<le> cq_cap (cqRing r)"
  shows "cq_wf (cqRing ((kernel_post ev ^^ n) r)) \<and>
     cq_ready (cqRing ((kernel_post ev ^^ n) r)) = cq_ready (cqRing r) @ replicate n ev \<and>
     cq_cap (cqRing ((kernel_post ev ^^ n) r)) = cq_cap (cqRing r) \<and>
     Params ((kernel_post ev ^^ n) r) = Params r \<and>
     cq_kHead (cqRing ((kernel_post ev ^^ n) r)) = cq_kHead (cqRing r) \<and>
     cq_kRingMask (cqRing ((kernel_post ev ^^ n) r)) = cq_kRingMask (cqRing r)"
  using assms(2)
proof (induction n)
  case 0
  then show ?case using assms(1) by simp
next
  case (Suc n)
  let ?r = "(kernel_post ev ^^ n) r"
  have "cq_wf (cqRing ?r)" and "length (cq_ready (cqRing ?r)) < cq_cap (cqRing ?r)"
    using Suc by (simp_all del: length_cq_ready)
  from kernel_post_ok [OF this, of ev] Suc show ?case
    by (simp del: length_cq_ready add: replicate_append_same [symmetric])
      (simp add: kernel_post_def cq_cap_def Let_def)
qed

lemma cq_ready_le_cap: "cq_wf c \<Longrightarrow> length (cq_ready c) \<le> cq_cap c"
  by (simp add: cq_wf_def cq_cap_def)

lemma ex_fill_ok:
  assumes "cq_wf (cqRing r)"
  shows "cq_wf (cqRing (ex_fill r))" "Params (ex_fill r) = Params r"
    "cq_cap (cqRing (ex_fill r)) = cq_cap (cqRing r)"
    "cq_kHead (cqRing (ex_fill r)) = cq_kHead (cqRing r)"
    "cq_kRingMask (cqRing (ex_fill r)) = cq_kRingMask (cqRing r)"
    "\<exists>new. cq_ready (cqRing (ex_fill r)) = cq_ready (cqRing r) @ new"
    "length (cq_ready (cqRing (ex_fill r))) = cq_cap (cqRing r)"
  using kernel_posts_ok [OF assms, of "cq_cap (cqRing r) - length (cq_ready (cqRing r))" "ex_cqe 7 0"]
    cq_ready_le_cap [OF assms]
  by (simp_all del: length_cq_ready add: ex_fill_def)

lemma ex_kernel_ok: "kernel_completes ex_kernel" "kernel_waits ex_kernel"
  by (auto simp: kernel_completes_def kernel_waits_def ex_kernel_def ex_fill_ok simp del: length_cq_ready)

section \<open>Properties\<close>

text \<open>
  C1. The submission queue is a FIFO. Whatever sequence of \<^verbatim>\<open>QueueSQE\<close> calls with operations that can be
  prepared, flushes and kernel consumptions runs on a well-formed empty ring, no call panics and the accepted
  entries are, in order, those the kernel took, those published and those pending; this
  holds across the wrap-around of the 32-bit counters.
\<close>

theorem submission_fifo:
  assumes "sq_wf (sqRing r)" and "sq_published (sqRing r) = []" and "sq_pending (sqRing r) = []"
    and "\<And>a. QueueEv a \<in> set es \<Longrightarrow> \<exists>e. ring_entry spec a = Ok e"
  shows "\<exists>r' acc con. sq_exec (ring_queue spec) flushSQ kernel_consume (ring_entry spec)
           (\<lambda>r. sq_published (sqRing r)) es r [] [] = Ok (r', acc, con) \<and> sq_wf (sqRing r') \<and>
         acc = con @ sq_published (sqRing r') @ sq_pending (sqRing r')"
  using rsq.exec_fifo [of r "[]" "[]" es spec] assms by auto

theorem submission_fifo_witness:
  "\<exists>r' acc con. sq_exec (ring_queue 0) flushSQ kernel_consume (ring_entry 0)
       (\<lambda>r. sq_published (sqRing r))
       [QueueEv (NopOp, 0, 7), QueueEv (CloseOp 3, 0, 8), FlushEv, ConsumeEv 1, QueueEv (NopOp, 0, 9)]
       ex_ring [] [] = Ok (r', acc, con) \<and> sq_wf (sqRing r') \<and>
     acc = con @ sq_published (sqRing r') @ sq_pending (sqRing r')"
  by (rule submission_fifo) (auto simp: ex_ring_sq ring_entry_def)


text \<open>
  C2. Completions are handled in order. Whatever the kernel posts and however the reader
  takes batches, every posted event is handled exactly once, in posting order, or is still
  waiting; no read leaves the ring memory.
\<close>

theorem completion_in_order:
  assumes "cq_wf (cqRing r)" and "cq_ready (cqRing r) = []"
    and "\<And>n. TakeEv n \<in> set es \<Longrightarrow> n < 2 ^ 32"
  shows "\<exists>r' pst hdl. cq_exec read_batch (\<lambda>n. AdvanceCQ (of_nat n)) kernel_post
           (\<lambda>r. length (cq_ready (cqRing r)) < cq_cap (cqRing r)) es r [] [] = Ok (r', pst, hdl) \<and>
         cq_wf (cqRing r') \<and> pst = hdl @ cq_ready (cqRing r')"
  using rcq.exec_in_order [of r "[]" "[]" es] assms by (auto simp del: length_cq_ready)

theorem completion_in_order_witness:
  "\<exists>r' pst hdl. cq_exec read_batch (\<lambda>n. AdvanceCQ (of_nat n)) kernel_post
       (\<lambda>r. length (cq_ready (cqRing r)) < cq_cap (cqRing r))
       [PostEv (ex_cqe 1 0), PostEv (ex_cqe 2 0), TakeEv 1, PostEv (ex_cqe 3 0), TakeEv 5]
       ex_ring [] [] = Ok (r', pst, hdl) \<and>
     cq_wf (cqRing r') \<and> pst = hdl @ cq_ready (cqRing r')"
  by (rule completion_in_order) (auto simp: ex_ring_cq)

text \<open>
  C26. \<^verbatim>\<open>QueueSQE\<close> on every branch: a full queue gives \<^verbatim>\<open>ErrSQOverflow\<close> and changes nothing;
  otherwise an operation that cannot be prepared panics, and any other is appended to the
  pending entries with its opcode, the flags and the user data, and nothing else changes.
\<close>

theorem QueueSQE_behaviour:
  assumes "sq_wf (sqRing r)"
  shows "(length (sq_published (sqRing r)) + length (sq_pending (sqRing r)) = sq_cap (sqRing r) \<longrightarrow>
       QueueSQE spec op flags ud r = Ok (Some ErrSQOverflow, r)) \<and>
     (length (sq_published (sqRing r)) + length (sq_pending (sqRing r)) < sq_cap (sqRing r) \<longrightarrow>
       (case ring_entry spec (op, flags, ud) of
          Panic p \<Rightarrow> QueueSQE spec op flags ud r = Panic p
        | Ok e \<Rightarrow> sqe_OpCode e = opcode_u8 (Code op) \<and> sqe_Flags e = flags \<and> sqe_UserData e = ud \<and>
            (\<exists>s'. QueueSQE spec op flags ud r = Ok (None, r\<lparr>sqRing := s'\<rparr>) \<and> sq_wf s' \<and>
               sq_published s' = sq_published (sqRing r) \<and>
               sq_pending s' = sq_pending (sqRing r) @ [e])))"
proof (intro conjI impI)
  assume "length (sq_published (sqRing r)) + length (sq_pending (sqRing r)) = sq_cap (sqRing r)"
  then show "QueueSQE spec op flags ud r = Ok (Some ErrSQOverflow, r)" by (rule QueueSQE_full [OF assms])
next
  assume room: "length (sq_published (sqRing r)) + length (sq_pending (sqRing r)) < sq_cap (sqRing r)"
  show "case ring_entry spec (op, flags, ud) of
          Panic p \<Rightarrow> QueueSQE spec op flags ud r = Panic p
        | Ok e \<Rightarrow> sqe_OpCode e = opcode_u8 (Code op) \<and> sqe_Flags e = flags \<and> sqe_UserData e = ud \<and>
            (\<exists>s'. QueueSQE spec op flags ud r = Ok (None, r\<lparr>sqRing := s'\<rparr>) \<and> sq_wf s' \<and>
               sq_published s' = sq_published (sqRing r) \<and>
               sq_pending s' = sq_pending (sqRing r) @ [e])"
    unfolding ring_entry_uop QueueSQE_fits [OF assms room]
    using sq_push_wf [OF assms room] sq_push_contents [OF assms room] uop.entry_sel
    by (cases "uop.entry spec op flags ud") auto
qed

theorem QueueSQE_behaviour_witness:
  "\<exists>s'. QueueSQE 0 (CloseOp 3) 0 8 ex_ring = Ok (None, ex_ring\<lparr>sqRing := s'\<rparr>) \<and>
     length (sq_pending s') = 1"
  using QueueSQE_behaviour [OF ex_ring_sq(1), of 0 "CloseOp 3" 0 8]
  by (auto simp: ex_ring_sq ring_entry_def simp del: length_sq_pending length_sq_published)

text \<open>
  \<^verbatim>\<open>flushSQ\<close> publishes exactly the pending entries, behind those already published and
  in order, never writes outside the index array, and returns the number of published
  entries.
\<close>

theorem flushSQ_publishes:
  assumes "sq_wf (sqRing r)"
  shows "\<exists>s' cnt. flushSQ r = Ok (cnt, r\<lparr>sqRing := s'\<rparr>) \<and> sq_wf s' \<and>
     sq_published s' = sq_published (sqRing r) @ sq_pending (sqRing r) \<and> sq_pending s' = [] \<and>
     unat cnt = length (sq_published s')"
  using flushSQ_ok [OF assms] by blast

theorem flushSQ_publishes_witness:
  "\<exists>s' cnt. flushSQ ex_queued = Ok (cnt, ex_queued\<lparr>sqRing := s'\<rparr>) \<and> sq_wf s' \<and>
     sq_published s' = [setUserData zero_SQEntry 7] \<and> unat cnt = 1"
  using flushSQ_publishes [OF ex_queued_sq(1)]
  by (auto simp: ex_queued_sq simp del: length_sq_pending length_sq_published)

text \<open>
  C27. \<^verbatim>\<open>peekCQEvent\<close> agrees with the reference \<open>peek_ref\<close>: it drops the completions of
  timeouts the library queued itself, stops at the first failed one with its error, and
  otherwise returns a pointer to the oldest event of a client and the number waiting.
\<close>

theorem peekCQEvent_reference:
  assumes "cq_wf (cqRing r)"
  shows "\<exists>av p err n. peekCQEvent r = Ok (av, p, err, AdvanceCQ (of_nat n) r) \<and>
     n \<le> length (cq_ready (cqRing r)) \<and>
     (case peek_ref (lib_timeout (Params r)) (cq_ready (cqRing r)) of
        (ev, err', rest) \<Rightarrow> err = err' \<and> drop n (cq_ready (cqRing r)) = rest \<and>
          (p = None \<longleftrightarrow> ev = None) \<and>
          (\<forall>e. ev = Some e \<longrightarrow> cqe_at (AdvanceCQ (of_nat n) r) (the p) = Ok e \<and>
             unat av = length rest))"
  using assms by (rule peekCQEvent_ref)

text \<open>
  \<^verbatim>\<open>peekCQEventBatch\<close> fills the buffer with pointers to the oldest events, as many as
  fit, and each pointer reads back its event.
\<close>

theorem batch_oldest:
  assumes "cq_wf (cqRing r)" and "length buff < 2 ^ 32"
  shows "\<exists>n ptrs. peekCQEventBatch r buff = Ok (int n, map Some ptrs @ drop n buff) \<and> length ptrs = n \<and>
     n = min (length buff) (length (cq_ready (cqRing r))) \<and>
     map (cqe_at r) ptrs = map Ok (take n (cq_ready (cqRing r)))"
  using assms by (rule batch_points)

text \<open>
  C28. \<^verbatim>\<open>WaitCQEvents\<close> returns: on a ring with the extended-argument feature and a kernel that only
  appends completions and waits as documented, waiting for at least one event ends. Without an
  error the result points to the oldest event, and also with one if there was an event to begin with. An
  error is that of a system call made on the way, in a state in which the kernel had only added
  events. When as many events are there as asked for, there is no error and the kernel is not entered.
\<close>

theorem WaitCQEvents_returns:
  assumes "cq_wf (cqRing r)" and "ExtArgFeature (Params r)"
    and "kernel_completes k" and "kernel_waits k" and "cnt \<noteq> 0"
  shows "\<exists>p err r'. WaitCQEvents k cnt r = Some (Ok (p, err, r')) \<and>
     (err = None \<or> cq_ready (cqRing r) \<noteq> [] \<longrightarrow> found_oldest p r') \<and>
     (\<forall>e. err = Some e \<longrightarrow> (\<exists>r1 new sub flags c. cq_ready (cqRing r1) = cq_ready (cqRing r) @ new \<and>
        sysEnter2 k (ring_fd r1) sub cnt flags 0 8 False r1 = (c, Some e, r'))) \<and>
     (unat cnt \<le> length (cq_ready (cqRing r)) \<longrightarrow> err = None \<and> r' = r)"
proof -
  have sz: "go_quot numSig 8 = 8" by (simp add: numSig_def)
  show ?thesis
    using getCQEvents_returns [OF assms(1-4), of "\<lparr>gp_submit = 0, gp_waitNr = cnt, gp_flags = 0, gp_arg = 0, gp_sz = go_quot numSig 8\<rparr>"] assms(5)
    unfolding WaitCQEvents_def refused_def sz by simp
qed

theorem WaitCQEvents_returns_witness:
  "\<exists>p r'. WaitCQEvents ex_kernel 1 ex_ring = Some (Ok (p, None, r')) \<and> found_oldest p r'"
proof -
  obtain p err r' where r: "WaitCQEvents ex_kernel 1 ex_ring = Some (Ok (p, err, r'))" "err = None \<longrightarrow> found_oldest p r'"
    "\<forall>e. err = Some e \<longrightarrow> (\<exists>r1 sub flags c. sysEnter2 ex_kernel (ring_fd r1) sub 1 flags 0 8 False r1 = (c, Some e, r'))"
    using WaitCQEvents_returns [OF ex_ring_cq(1) ex_ring_ext ex_kernel_ok one_neq_zero] by blast
  have "err = None"
    using r(3) by (cases err) (auto simp: sysEnter2_def Let_def Syscall6_def ex_kernel_def)
  with r(1,2) show ?thesis by blast
qed

text \<open>
  \<^verbatim>\<open>PeekCQE\<close> on an empty queue returns \<^verbatim>\<open>EAGAIN\<close> without entering the kernel, unless
  the kernel holds overflown completions.
\<close>

theorem PeekCQE_empty:
  assumes "cq_ready (cqRing r) = []" and "\<not> cqNeedFlush (sqRing r)"
  shows "PeekCQE k r = Some (Ok (None, Some (Errno 11), r))"
  using assms peekCQEvent_empty [OF assms(1)]
  by (simp add: PeekCQE_def WaitCQEvents_def getCQEvents.simps get_iter_def)

theorem PeekCQE_empty_witness: "PeekCQE ex_kernel ex_ring = Some (Ok (None, Some (Errno 11), ex_ring))"
  by (rule PeekCQE_empty [OF ex_ring_cq(2)]) (simp add: ex_ring_def cqNeedFlush_def sqCQOverflow_def)

text \<open>
  With a polling kernel thread that is awake, \<^verbatim>\<open>Submit\<close> publishes everything and does not
  enter the kernel: the result is the same for every kernel.
\<close>

theorem Submit_sqpoll:
  assumes "sq_wf (sqRing r)" and "p_flags (Params r) AND setupSQPoll \<noteq> 0"
    and "sq_kFlags (sqRing r) AND sqNeedWakeup = 0"
  shows "\<exists>s' cnt. (\<forall>k. Submit k r = Ok (ucast (cnt :: u32), None, r\<lparr>sqRing := s'\<rparr>)) \<and> sq_wf s' \<and>
     sq_published s' = sq_published (sqRing r) @ sq_pending (sqRing r) \<and> sq_pending s' = [] \<and>
     unat cnt = length (sq_published s')"
proof -
  obtain s' cnt where f: "flushSQ r = Ok (cnt, r\<lparr>sqRing := s'\<rparr>)" "sq_wf s'"
    "sq_published s' = sq_published (sqRing r) @ sq_pending (sqRing r)" "sq_pending s' = []"
    "unat cnt = length (sq_published s')" "sq_kFlags s' = sq_kFlags (sqRing r)"
    using flushSQ_ok [OF assms(1)] by blast
  have "Submit k r = Ok (ucast cnt, None, r\<lparr>sqRing := s'\<rparr>)" for k
    using f(1,6) assms(2,3) by (simp add: Submit_def needsEnter_def)
  with f show ?thesis by blast
qed

theorem Submit_sqpoll_witness:
  "\<exists>s' cnt. (\<forall>k. Submit k (ex_ring\<lparr>Params := ex_params\<lparr>p_flags := 2\<rparr>\<rparr>)
       = Ok (ucast (cnt :: u32), None, ex_ring\<lparr>Params := ex_params\<lparr>p_flags := 2\<rparr>, sqRing := s'\<rparr>)) \<and>
     sq_wf s' \<and> sq_published s' = []"
  using Submit_sqpoll [of "ex_ring\<lparr>Params := ex_params\<lparr>p_flags := 2\<rparr>\<rparr>"] ex_ring_sq
  by (auto simp: setupSQPoll_def sqNeedWakeup_def ex_ring_def)

text \<open>
  \<^verbatim>\<open>joinErr\<close> keeps the first error on the chain: what \<^verbatim>\<open>errors.Is\<close> finds in it, it finds
  in the joined error.
\<close>

theorem joinErr_first:
  assumes "err_is err1 t"
  shows "err_is (joinErr err1 err2) t"
  using assms by (cases err1; cases err2) (auto simp: joinErr_def)

theorem joinErr_first_witness: "err_is (joinErr (Some (Errno 4)) (Some EOF)) (Errno 4)"
  by (rule joinErr_first) simp

theorem peekCQEvent_reference_witness:
  "\<exists>av p err n. peekCQEvent ex_posted = Ok (av, p, err, AdvanceCQ (of_nat n) ex_posted) \<and>
     err = None \<and> p \<noteq> None"
  using peekCQEvent_reference [OF ex_posted_cq(1)] ex_posted_cq(2)
  by (fastforce simp: lib_timeout_def ex_cqe_def libUserDataTimeout_def)

theorem batch_oldest_witness:
  "\<exists>ptrs. peekCQEventBatch ex_posted [None, None] = Ok (1, map Some ptrs @ [None]) \<and>
     map (cqe_at ex_posted) ptrs = [Ok (ex_cqe 9 0)]"
  using batch_oldest [OF ex_posted_cq(1), of "[None, None]"]
  by (auto simp: ex_posted_cq simp del: length_cq_ready)

end
