(* ===== verification/Uring_Setup.thy ===== *)
theory Uring_Setup
  imports Uring_CQ
begin

unbundle bit_operations_syntax

text \<open>
  Creating and closing rings: the options, \<^verbatim>\<open>New\<close>, \<^verbatim>\<open>CreateMany\<close> and \<^verbatim>\<open>Close\<close> of
  \<^verbatim>\<open>src/uring/ring.go\<close>, \<^verbatim>\<open>allocRing\<close> and \<^verbatim>\<open>freeRing\<close> of \<^verbatim>\<open>src/uring/setup.go\<close>, and
  \<^verbatim>\<open>sysSetup\<close> of \<^verbatim>\<open>src/uring/syscall.go\<close>. The operating system is a parameter: the four calls
  the code makes, on a world of their own.

  A mapping is the memory region \<^verbatim>\<open>mmap\<close> returns: its address, its length in bytes and the
  little-endian 32-bit word at each byte offset. The ring record holds the cells the Go
  pointers point to, so the model reads the region where the code computes a pointer into it.
\<close>

section \<open>The operating system\<close>

record mapping =
  mp_base :: u64
  mp_len :: nat
  mp_mem :: "nat \<Rightarrow> u32"

record 'w os =
  os_setup :: "u32 \<Rightarrow> ringParams \<Rightarrow> 'w \<Rightarrow> u64 \<times> u64 \<times> ringParams \<times> 'w"
  os_mmap :: "int \<Rightarrow> u64 \<Rightarrow> int \<Rightarrow> 'w \<Rightarrow> (go_error + mapping) \<times> 'w"
  os_munmap :: "slice \<Rightarrow> 'w \<Rightarrow> go_error option \<times> 'w"
  os_close :: "int \<Rightarrow> 'w \<Rightarrow> go_error option \<times> 'w"

definition map_slice :: "mapping \<Rightarrow> slice" where
  "map_slice m = \<lparr>sl_base = mp_base m, sl_len = mp_len m\<rparr>"

definition u32_at :: "mapping \<Rightarrow> u32 \<Rightarrow> u32 outcome" where
  "u32_at m off = (if unat off + 4 \<le> mp_len m then Ok (mp_mem m (unat off)) else Panic WildAccess)"

definition u32s_at :: "mapping \<Rightarrow> u32 \<Rightarrow> nat \<Rightarrow> u32 list outcome" where
  "u32s_at m off n =
     (if unat off + 4 * n \<le> mp_len m then Ok (map (\<lambda>i. mp_mem m (unat off + 4 * i)) [0..<n])
      else Panic WildAccess)"

definition u64_of :: "(nat \<Rightarrow> u32) \<Rightarrow> nat \<Rightarrow> u64" where
  "u64_of mem off = ucast (mem off) OR push_bit 32 (ucast (mem (off + 4)))"

definition cqe_of :: "(nat \<Rightarrow> u32) \<Rightarrow> nat \<Rightarrow> CQEvent" where
  "cqe_of mem off = \<lparr>cqe_UserData = u64_of mem off, cqe_Res = mem (off + 8), cqe_Flags = mem (off + 12)\<rparr>"

definition cqes_at :: "mapping \<Rightarrow> u32 \<Rightarrow> nat \<Rightarrow> CQEvent list outcome" where
  "cqes_at m off n =
     (if unat off + sizeof_CQEvent * n \<le> mp_len m
      then Ok (map (\<lambda>i. cqe_of (mp_mem m) (unat off + sizeof_CQEvent * i)) [0..<n])
      else Panic WildAccess)"

definition sqe_of :: "(nat \<Rightarrow> u32) \<Rightarrow> nat \<Rightarrow> SQEntry" where
  "sqe_of mem off =
     \<lparr>sqe_OpCode = ucast (mem off), sqe_Flags = ucast (drop_bit 8 (mem off)),
      sqe_IoPrio = ucast (drop_bit 16 (mem off)), sqe_Fd = mem (off + 4), sqe_Off = u64_of mem (off + 8),
      sqe_Addr = u64_of mem (off + 16), sqe_Len = mem (off + 24), sqe_OpcodeFlags = mem (off + 28),
      sqe_UserData = u64_of mem (off + 32), sqe_BufIG = ucast (mem (off + 40)),
      sqe_Personality = ucast (drop_bit 16 (mem (off + 40))), sqe_SpliceFdIn = mem (off + 44),
      sqe_pad2 = (u64_of mem (off + 48), u64_of mem (off + 56))\<rparr>"

definition sqes_of :: "mapping \<Rightarrow> SQEntry list" where
  "sqes_of m = map (\<lambda>i. sqe_of (mp_mem m) (sizeof_SQEntry * i)) [0..<mp_len m div sizeof_SQEntry]"

section \<open>Options\<close>

type_synonym SetupOption = "ringParams \<Rightarrow> ringParams"

definition WithCQSize :: "u32 \<Rightarrow> SetupOption" where
  "WithCQSize sz params = params\<lparr>p_flags := p_flags params OR setupCQSize, cqEntries := sz\<rparr>"

definition WithIOPoll :: SetupOption where
  "WithIOPoll params = params\<lparr>p_flags := p_flags params OR setupIOPoll\<rparr>"

definition WithAttachedWQ :: "int \<Rightarrow> SetupOption" where
  "WithAttachedWQ fd params = params\<lparr>p_flags := p_flags params OR setupAttachWQ, wqFD := of_int fd\<rparr>"

text \<open>\<^verbatim>\<open>threadIdle.Milliseconds()\<close> divides the nanoseconds by a million.\<close>

definition WithSQPoll :: "int \<Rightarrow> SetupOption" where
  "WithSQPoll threadIdle params = params\<lparr>p_flags := p_flags params OR setupSQPoll,
     sqThreadIdle := of_int (go_quot threadIdle 1000000)\<rparr>"

definition WithSQThreadCPU :: "u32 \<Rightarrow> SetupOption" where
  "WithSQThreadCPU cpu params = params\<lparr>p_flags := p_flags params OR setupSQAff, sqThreadCpu := cpu\<rparr>"

section \<open>Allocation\<close>

definition cqRingOffset :: u64 where "cqRingOffset = 0x8000000"
definition sqesOffset :: u64 where "sqesOffset = 0x10000000"

definition sysSetup :: "'w os \<Rightarrow> u32 \<Rightarrow> ringParams \<Rightarrow> 'w \<Rightarrow> int \<times> go_error option \<times> ringParams \<times> 'w" where
  "sysSetup os entries params w =
     (case os_setup os entries params w of (fd, errno, params', w') \<Rightarrow>
        (sint fd, if errno \<noteq> 0 then NewSyscallError ''io_uring_setup'' (Some (Errno errno)) else None,
         params', w'))"

text \<open>\<^verbatim>\<open>freeRing\<close>: comparing the first bytes of the two buffers panics when the first is empty.\<close>

definition freeRing :: "'w os \<Rightarrow> Ring \<Rightarrow> 'w \<Rightarrow> (go_error option \<times> 'w) outcome" where
  "freeRing os r w =
     (case os_munmap os (sq_buff (sqRing r)) w of (err, w1) \<Rightarrow>
        if cq_buff (cqRing r) \<noteq> nil_slice then
          obind (addr0 (cq_buff (cqRing r))) (\<lambda>c. obind (addr0 (sq_buff (sqRing r))) (\<lambda>s.
            if c \<noteq> s then
              (case os_munmap os (cq_buff (cqRing r)) w1 of (err2, w2) \<Rightarrow> Ok (joinErr err err2, w2))
            else Ok (err, w1)))
        else Ok (err, w1))"

text \<open>The sizes of the two mappings.\<close>

definition ring_sizes :: "ringParams \<Rightarrow> u64 \<times> u64" where
  "ring_sizes params =
     (let sqSize = ucast (sqo_array (sqOffset params)) + ucast (sqEntries params * 4);
          cqSize = ucast (cqo_cqes (cqOffset params)) + ucast (cqEntries params * of_nat sizeof_CQEvent)
      in if SingleMMapFeature params
         then let m = (if sqSize < cqSize then cqSize else sqSize) in (m, m)
         else (sqSize, cqSize))"

definition sq_cells :: "ringParams \<Rightarrow> mapping \<Rightarrow> sq \<Rightarrow> sq outcome" where
  "sq_cells params m s =
     (let offs = sqOffset params
      in obind (addr0 (sq_buff s)) (\<lambda>_.
         obind (u32_at m (sqo_head offs)) (\<lambda>h.
         obind (u32_at m (sqo_tail offs)) (\<lambda>t.
         obind (u32_at m (sqo_ringMask offs)) (\<lambda>mk.
         obind (u32_at m (sqo_ringEntries offs)) (\<lambda>e.
         obind (u32_at m (sqo_flags offs)) (\<lambda>f.
         obind (u32_at m (sqo_dropped offs)) (\<lambda>d.
         obind (u32s_at m (sqo_array offs) (unat (sqEntries params))) (\<lambda>a.
           Ok (s\<lparr>sq_kHead := h, sq_kTail := t, sq_kRingMask := mk, sq_kRingEntries := e, sq_kFlags := f,
                 sq_kDropped := d, kArray := a\<rparr>))))))))))"

definition cq_cells :: "ringParams \<Rightarrow> mapping \<Rightarrow> cq \<Rightarrow> cq outcome" where
  "cq_cells params m c =
     (let offs = cqOffset params
      in obind (addr0 (cq_buff c)) (\<lambda>start.
         obind (u32_at m (cqo_head offs)) (\<lambda>h.
         obind (u32_at m (cqo_tail offs)) (\<lambda>t.
         obind (u32_at m (cqo_ringMsk offs)) (\<lambda>mk.
         obind (u32_at m (cqo_ringEntries offs)) (\<lambda>e.
         obind (u32_at m (cqo_overflow offs)) (\<lambda>v.
         obind (cqes_at m (cqo_cqes offs) (unat (cqEntries params))) (\<lambda>b.
           Ok (c\<lparr>cq_kHead := h, cq_kTail := t, cq_kRingMask := mk, cq_kRingEntries := e, cq_kOverflow := v,
                 cqeBuff := b,
                 cq_kFlags := (if cqo_flags offs \<noteq> 0 then start + ucast (cqo_flags offs) else cq_kFlags c)\<rparr>)))))))))"

definition fail_free :: "'w os \<Rightarrow> go_error \<Rightarrow> Ring \<Rightarrow> 'w \<Rightarrow> (go_error option \<times> Ring \<times> 'w) outcome" where
  "fail_free os e r w = obind (freeRing os r w) (\<lambda>(_, w'). Ok (Some e, r, w'))"

definition allocRing :: "'w os \<Rightarrow> ringParams \<Rightarrow> Ring \<Rightarrow> 'w \<Rightarrow> (go_error option \<times> Ring \<times> 'w) outcome" where
  "allocRing os params r w =
     (let (sqSize, cqSize) = ring_sizes params;
          r1 = r\<lparr>sqRing := (sqRing r)\<lparr>sq_ringSize := sqSize\<rparr>, cqRing := (cqRing r)\<lparr>cq_ringSize := cqSize\<rparr>\<rparr>
      in (case os_mmap os (ring_fd r) 0 (sint sqSize) w of
            (Inl e, w1) \<Rightarrow> Ok (Some e, r1, w1)
          | (Inr m1, w1) \<Rightarrow>
              let r2 = r1\<lparr>sqRing := (sqRing r1)\<lparr>sq_buff := map_slice m1\<rparr>\<rparr>
              in (case (if SingleMMapFeature params then (Inr m1, w1)
                        else os_mmap os (ring_fd r) cqRingOffset (sint cqSize) w1) of
                    (Inl e, w2) \<Rightarrow> fail_free os e r2 w2
                  | (Inr m2, w2) \<Rightarrow>
                      let r3 = r2\<lparr>cqRing := (cqRing r2)\<lparr>cq_buff := map_slice m2\<rparr>\<rparr>
                      in obind (sq_cells params m1 (sqRing r3)) (\<lambda>s.
                           let r4 = r3\<lparr>sqRing := s\<rparr>;
                               sz = uint (sqEntries params) * int sizeof_SQEntry
                           in (case os_mmap os (ring_fd r) sqesOffset sz w2 of
                                 (Inl e, w3) \<Rightarrow> fail_free os e r4 w3
                               | (Inr m3, w3) \<Rightarrow>
                                   obind (cq_cells params m2 (cqRing r4)) (\<lambda>c.
                                     Ok (None, r4\<lparr>sqRing := s\<lparr>sqeBuff := sqes_of m3\<rparr>, cqRing := c\<rparr>, w3)))))))"

section \<open>New and Close\<close>

definition zero_params :: ringParams where
  "zero_params = \<lparr>sqEntries = 0, cqEntries = 0, p_flags = 0, sqThreadCpu = 0, sqThreadIdle = 0,
     features = 0, wqFD = 0, p_resv = (0, 0, 0),
     sqOffset = \<lparr>sqo_head = 0, sqo_tail = 0, sqo_ringMask = 0, sqo_ringEntries = 0, sqo_flags = 0,
       sqo_dropped = 0, sqo_array = 0, sqo_resv1 = 0, sqo_resv2 = 0\<rparr>,
     cqOffset = \<lparr>cqo_head = 0, cqo_tail = 0, cqo_ringMsk = 0, cqo_ringEntries = 0, cqo_overflow = 0,
       cqo_cqes = 0, cqo_flags = 0, cqo_resv1 = 0, cqo_resv2 = 0\<rparr>\<rparr>"

definition empty_ring :: "int \<Rightarrow> ringParams \<Rightarrow> Ring" where
  "empty_ring fd params = \<lparr>ring_fd = fd, Params = params,
     cqRing = \<lparr>cq_buff = nil_slice, cq_ringSize = 0, cq_kHead = 0, cq_kTail = 0, cq_kRingMask = 0,
       cq_kRingEntries = 0, cq_kOverflow = 0, cq_kFlags = 0, cqeBuff = []\<rparr>,
     sqRing = \<lparr>sq_buff = nil_slice, sqeBuff = [], sq_ringSize = 0, sq_kHead = 0, sq_kTail = 0,
       sq_kRingMask = 0, sq_kRingEntries = 0, sq_kFlags = 0, sq_kDropped = 0, kArray = [],
       sqeTail = 0, sqeHead = 0\<rparr>\<rparr>"

text \<open>\<^verbatim>\<open>New\<close> returns the ring together with the error when the allocation fails.\<close>

definition New :: "'w os \<Rightarrow> u32 \<Rightarrow> SetupOption list \<Rightarrow> 'w \<Rightarrow> (Ring option \<times> go_error option \<times> 'w) outcome" where
  "New os entries opts w =
     (if MaxEntries < entries
      then Ok (None, Some (Wrapped ErrRingSetup ''entries > MaxEntries''), w)
      else let params = fold (\<lambda>opt p. opt p) opts zero_params
           in (case sysSetup os entries params w of
                 (fd, Some e, params', w1) \<Rightarrow> Ok (None, Some e, w1)
               | (fd, None, params', w1) \<Rightarrow>
                   obind (allocRing os params' (empty_ring fd params') w1) (\<lambda>(err, r, w2).
                     Ok (Some r, err, w2))))"

definition Ring_Fd :: "'k Ring_scheme \<Rightarrow> int" where
  "Ring_Fd r = ring_fd r"

definition Ring_Close :: "'w os \<Rightarrow> Ring \<Rightarrow> 'w \<Rightarrow> (go_error option \<times> 'w) outcome" where
  "Ring_Close os r w =
     obind (freeRing os r w) (\<lambda>(err, w1).
       case os_close os (ring_fd r) w1 of (err2, w2) \<Rightarrow> Ok (joinErr err err2, w2))"

section \<open>Many rings\<close>

text \<open>
  The clean-up after a failure closes the rings created so far and drops the errors. The
  code keeps the \<^verbatim>\<open>Close\<close> methods in a map, whose order of iteration is not fixed; the model
  closes in the order of creation.
\<close>

fun close_all :: "'w os \<Rightarrow> Ring list \<Rightarrow> 'w \<Rightarrow> 'w outcome" where
  "close_all os [] w = Ok w"
| "close_all os (r # rs) w = obind (Ring_Close os r w) (\<lambda>(_, w'). close_all os rs w')"

text \<open>The inner loop: \<open>n\<close> further rings that share the worker pool of the ring \<open>fd\<close>.\<close>

fun attach_rings ::
  "'w os \<Rightarrow> u32 \<Rightarrow> SetupOption list \<Rightarrow> int \<Rightarrow> nat \<Rightarrow> Ring list \<Rightarrow> 'w \<Rightarrow> ((go_error + Ring list) \<times> 'w) outcome" where
  "attach_rings os entries opts fd 0 rings w = Ok (Inr rings, w)"
| "attach_rings os entries opts fd (Suc n) rings w =
     obind (New os entries (opts @ [WithAttachedWQ fd]) w) (\<lambda>(r, err, w1).
       case (err, r) of
         (Some e, _) \<Rightarrow> obind (close_all os rings w1) (\<lambda>w2. Ok (Inl e, w2))
       | (None, None) \<Rightarrow> Panic NilDeref
       | (None, Some ring) \<Rightarrow> attach_rings os entries opts fd n (rings @ [ring]) w1)"

function create_rings ::
  "'w os \<Rightarrow> u32 \<Rightarrow> SetupOption list \<Rightarrow> int \<Rightarrow> int \<Rightarrow> int \<Rightarrow> Ring list \<Rightarrow> 'w \<Rightarrow>
   ((go_error + Ring list) \<times> 'w) outcome" where
  "create_rings os entries opts instancePerPool count i rings w =
     (if i < count then
        obind (New os entries opts w) (\<lambda>(r, err, w1).
          case (err, r) of
            (Some e, _) \<Rightarrow> obind (close_all os rings w1) (\<lambda>w2. Ok (Inl e, w2))
          | (None, None) \<Rightarrow> Panic NilDeref
          | (None, Some mainRing) \<Rightarrow>
              obind (attach_rings os entries opts (ring_fd mainRing) (nat (instancePerPool - 1))
                       (rings @ [mainRing]) w1) (\<lambda>(res, w2).
                case res of
                  Inl e \<Rightarrow> Ok (Inl e, w2)
                | Inr rings' \<Rightarrow>
                    create_rings os entries opts instancePerPool count
                      (i + int (nat (instancePerPool - 1)) + 1) rings' w2))
      else Ok (Inr rings, w))"
  by pat_completeness auto
termination
  by (relation "measure (\<lambda>(os, entries, opts, instancePerPool, count, i, rings, w). nat (count - i))") auto

declare create_rings.simps [simp del]

definition CreateMany ::
  "'w os \<Rightarrow> int \<Rightarrow> u32 \<Rightarrow> int \<Rightarrow> SetupOption list \<Rightarrow> 'w \<Rightarrow> ((go_error + Ring list) \<times> 'w) outcome" where
  "CreateMany os count entries wpCount opts w =
     (if count < wpCount
      then Ok (Inl (NewError ''number of io_uring instances must be greater or equal number of worker pools''), w)
      else if wpCount = 0 then Panic DivideByZero
      else if go_rem count wpCount \<noteq> 0
      then Ok (Inl (NewError ''number of worker pools must be a multiple of the entries''), w)
      else create_rings os entries opts (go_quot count wpCount) count 0 [] w)"

text \<open>The function \<^verbatim>\<open>CreateMany\<close> returns for closing all rings; \<^verbatim>\<open>%w\<close> with a nil error wraps nothing.\<close>

fun close_deferred :: "'w os \<Rightarrow> Ring list \<Rightarrow> go_error option \<Rightarrow> 'w \<Rightarrow> (go_error option \<times> 'w) outcome" where
  "close_deferred os [] err w = Ok (err, w)"
| "close_deferred os (r # rs) err w =
     obind (Ring_Close os r w) (\<lambda>(cErr, w').
       close_deferred os rs
         (if cErr \<noteq> None
          then (case err of None \<Rightarrow> Some (WrappedNil ''close ring'') | Some e \<Rightarrow> Some (Wrapped e ''close ring''))
          else err) w')"

section \<open>The memory of a ring\<close>

text \<open>
  What mmap(2) and io_uring_setup(2) promise. \<open>mmap_exact\<close>: a mapping has the length that was asked for.
  \<open>sq_layout\<close>, \<open>cq_layout\<close>: the sizes are powers of two within the limits, and the fields of a queue lie
  within the size documented for its mapping: the offset of the last array plus the array.
\<close>

definition mmap_exact :: "'w os \<Rightarrow> bool" where
  "mmap_exact os \<longleftrightarrow> (\<forall>fd off len w m w'. os_mmap os fd off len w = (Inr m, w') \<longrightarrow> mp_len m = nat len)"

definition sq_need :: "ringParams \<Rightarrow> nat" where
  "sq_need p = unat (sqo_array (sqOffset p)) + 4 * unat (sqEntries p)"

definition cq_need :: "ringParams \<Rightarrow> nat" where
  "cq_need p = unat (cqo_cqes (cqOffset p)) + 16 * unat (cqEntries p)"

definition sq_layout :: "ringParams \<Rightarrow> bool" where
  "sq_layout p \<longleftrightarrow> (let offs = sqOffset p in (\<exists>k\<in>set [0..<16]. sqEntries p = 2 ^ k) \<and>
     list_all (\<lambda>x. unat x + 4 \<le> sq_need p)
       [sqo_head offs, sqo_tail offs, sqo_ringMask offs, sqo_ringEntries offs, sqo_flags offs, sqo_dropped offs])"

definition cq_layout :: "ringParams \<Rightarrow> bool" where
  "cq_layout p \<longleftrightarrow> (let offs = cqOffset p in (\<exists>k\<in>set [0..<17]. cqEntries p = 2 ^ k) \<and>
     list_all (\<lambda>x. unat x + 4 \<le> cq_need p)
       [cqo_head offs, cqo_tail offs, cqo_ringMsk offs, cqo_ringEntries offs, cqo_overflow offs])"

text \<open>The cells of the queues are the words at the offsets the kernel reported.\<close>

definition sq_in :: "ringParams \<Rightarrow> mapping \<Rightarrow> sq \<Rightarrow> bool" where
  "sq_in p m s \<longleftrightarrow> (let offs = sqOffset p; at = (\<lambda>off. mp_mem m (unat off)) in
     sq_kHead s = at (sqo_head offs) \<and> sq_kTail s = at (sqo_tail offs) \<and> sq_kRingMask s = at (sqo_ringMask offs) \<and>
     sq_kRingEntries s = at (sqo_ringEntries offs) \<and> sq_kFlags s = at (sqo_flags offs) \<and> sq_kDropped s = at (sqo_dropped offs) \<and>
     kArray s = map (\<lambda>i. mp_mem m (unat (sqo_array offs) + 4 * i)) [0..<unat (sqEntries p)])"

definition cq_in :: "ringParams \<Rightarrow> mapping \<Rightarrow> cq \<Rightarrow> bool" where
  "cq_in p m c \<longleftrightarrow> (let offs = cqOffset p; at = (\<lambda>off. mp_mem m (unat off)) in
     cq_kHead c = at (cqo_head offs) \<and> cq_kTail c = at (cqo_tail offs) \<and> cq_kRingMask c = at (cqo_ringMsk offs) \<and>
     cq_kRingEntries c = at (cqo_ringEntries offs) \<and> cq_kOverflow c = at (cqo_overflow offs) \<and>
     cqeBuff c = map (\<lambda>i. cqe_of (mp_mem m) (unat (cqo_cqes offs) + 16 * i)) [0..<unat (cqEntries p)])"

text \<open>What the kernel has written into the memory of a new ring: the sizes and the masks, nothing queued.\<close>

definition fresh_sq :: "ringParams \<Rightarrow> mapping \<Rightarrow> bool" where
  "fresh_sq p m \<longleftrightarrow> (let offs = sqOffset p; at = (\<lambda>off. mp_mem m (unat off)) in
     at (sqo_ringMask offs) = sqEntries p - 1 \<and> at (sqo_ringEntries offs) = sqEntries p \<and>
     at (sqo_head offs) = 0 \<and> at (sqo_tail offs) = 0)"

definition fresh_cq :: "ringParams \<Rightarrow> mapping \<Rightarrow> bool" where
  "fresh_cq p m \<longleftrightarrow> (let offs = cqOffset p; at = (\<lambda>off. mp_mem m (unat off)) in
     at (cqo_ringMsk offs) = cqEntries p - 1 \<and> at (cqo_ringEntries offs) = cqEntries p \<and>
     at (cqo_head offs) = 0 \<and> at (cqo_tail offs) = 0)"

text \<open>The sizes the code asks for: the 32-bit products and the 64-bit sums do not wrap, and a shared mapping is large enough for both.\<close>

lemma pow2_le: "k \<le> n \<Longrightarrow> n < 32 \<Longrightarrow> unat (2 ^ k :: u32) \<le> 2 ^ n"
  using unat_pow2 [of k] power_increasing [of k n "2 :: nat"] by simp

lemma size_u64:
  fixes a n :: u32
  assumes "unat n * c < 2 ^ 32" and "unat c' = c"
  shows "unat (ucast a + ucast (n * c') :: u64) = unat a + c * unat n"
    and "nat (sint (ucast a + ucast (n * c') :: u64)) = unat a + c * unat n"
proof -
  have prod: "unat (n * c') = c * unat n" using assms by (simp add: unat_word_ariths mult.commute)
  have "unat a < 2 ^ 32" using unsigned_less [of a] by simp
  moreover have "c * unat n < 2 ^ 32" using assms(1) by (simp add: mult.commute)
  ultimately have lt: "unat a + c * unat n < 2 ^ 63" and "unat a + c * unat n < 2 ^ 64" by simp_all
  then show sum: "unat (ucast a + ucast (n * c') :: u64) = unat a + c * unat n"
    by (simp add: unat_word_ariths(1) unsigned_ucast_eq take_bit_nat_eq_self prod)
  have u: "uint (ucast a + ucast (n * c') :: u64) = int (unat a + c * unat n)" by (simp only: uint_nat sum)
  have "int (unat a + c * unat n) < 2 ^ 63" using lt by (metis of_nat_less_iff of_nat_numeral of_nat_power)
  then have "sint (ucast a + ucast (n * c') :: u64) = int (unat a + c * unat n)"
    unfolding sint_uint u by (intro signed_take_bit_int_eq_self) (simp_all add: order_trans [OF _ of_nat_0_le_iff] del: of_nat_add of_nat_mult)
  then show "nat (sint (ucast a + ucast (n * c') :: u64)) = unat a + c * unat n" by (simp only: nat_int)
qed

lemma layout_bounds:
  "sq_layout p \<Longrightarrow> 0 < unat (sqEntries p) \<and> unat (sqEntries p) \<le> 2 ^ 15"
  "cq_layout p \<Longrightarrow> 0 < unat (cqEntries p) \<and> unat (cqEntries p) \<le> 2 ^ 16"
  using pow2_le [of _ 15] pow2_le [of _ 16] unat_pow2 by (auto simp: sq_layout_def cq_layout_def Let_def)

lemma ring_sizes_enough:
  assumes "sq_layout p" and "cq_layout p"
  shows "sq_need p \<le> nat (sint (fst (ring_sizes p)))" and "cq_need p \<le> nat (sint (snd (ring_sizes p)))"
    and "SingleMMapFeature p \<Longrightarrow> fst (ring_sizes p) = snd (ring_sizes p)"
proof -
  let ?s = "ucast (sqo_array (sqOffset p)) + ucast (sqEntries p * 4) :: u64"
  let ?c = "ucast (cqo_cqes (cqOffset p)) + ucast (cqEntries p * 16) :: u64"
  have s: "unat ?s = sq_need p" "nat (sint ?s) = sq_need p"
    using size_u64 [of "sqEntries p" 4 4] layout_bounds(1) [OF assms(1)] by (auto simp: sq_need_def)
  have c: "unat ?c = cq_need p" "nat (sint ?c) = cq_need p"
    using size_u64 [of "cqEntries p" 16 16] layout_bounds(2) [OF assms(2)] by (auto simp: cq_need_def)
  have r: "ring_sizes p = (if SingleMMapFeature p then (if ?s < ?c then (?c, ?c) else (?s, ?s)) else (?s, ?c))"
    by (simp add: ring_sizes_def sizeof_CQEvent_def Let_def)
  show "sq_need p \<le> nat (sint (fst (ring_sizes p)))" "cq_need p \<le> nat (sint (snd (ring_sizes p)))"
    using s c by (auto simp: r word_less_nat_alt not_less)
  show "SingleMMapFeature p \<Longrightarrow> fst (ring_sizes p) = snd (ring_sizes p)" by (simp add: r)
qed

lemma sq_cells_in:
  assumes "sq_layout p" and "sq_need p \<le> mp_len m" and "sq_buff s = map_slice m"
  shows "\<exists>s'. sq_cells p m s = Ok s' \<and> sq_in p m s' \<and> sq_buff s' = sq_buff s \<and> sqeHead s' = sqeHead s \<and> sqeTail s' = sqeTail s"
proof -
  have "mp_len m \<noteq> 0" using assms(1,2) by (auto simp: sq_layout_def Let_def)
  moreover have "unat x + 4 \<le> mp_len m" if "unat x + 4 \<le> sq_need p" for x :: u32 using that assms(2) by simp
  moreover have "unat (sqo_array (sqOffset p)) + 4 * unat (sqEntries p) \<le> mp_len m" using assms(2) by (simp add: sq_need_def)
  ultimately show ?thesis
    using assms(1,3) by (auto simp: sq_layout_def Let_def sq_cells_def addr0_def map_slice_def u32_at_def u32s_at_def sq_in_def)
qed

lemma cq_cells_in:
  assumes "cq_layout p" and "cq_need p \<le> mp_len m" and "cq_buff c = map_slice m"
  shows "\<exists>c'. cq_cells p m c = Ok c' \<and> cq_in p m c'"
proof -
  have "mp_len m \<noteq> 0" using assms(1,2) by (auto simp: cq_layout_def Let_def)
  moreover have "unat x + 4 \<le> mp_len m" if "unat x + 4 \<le> cq_need p" for x :: u32 using that assms(2) by simp
  moreover have "unat (cqo_cqes (cqOffset p)) + 16 * unat (cqEntries p) \<le> mp_len m" using assms(2) by (simp add: cq_need_def)
  ultimately show ?thesis
    using assms(1,3)
    by (auto simp: cq_layout_def Let_def cq_cells_def addr0_def map_slice_def u32_at_def cqes_at_def sizeof_CQEvent_def cq_in_def)
qed

lemma fresh_sq_wf:
  assumes "sq_layout p" and "fresh_sq p m" and "sq_in p m s" and "sqeHead s = 0" and "sqeTail s = 0"
    and "length (sqeBuff s) = unat (sqEntries p)"
  shows "sq_wf s \<and> sq_published s = [] \<and> sq_pending s = [] \<and> sq_cap s = unat (sqEntries p)"
  using assms
  by (auto simp: sq_layout_def fresh_sq_def sq_in_def Let_def sq_wf_def sq_published_def sq_pending_def sq_cap_def window_def pow2_ring_def)

lemma fresh_cq_wf:
  assumes "cq_layout p" and "fresh_cq p m" and "cq_in p m c"
  shows "cq_wf c \<and> cq_ready c = [] \<and> cq_cap c = unat (cqEntries p)"
  using assms
  by (auto simp: cq_layout_def fresh_cq_def cq_in_def Let_def cq_wf_def cq_ready_def cq_cap_def window_def pow2_ring_def)

lemma mmap_len: "mmap_exact os \<Longrightarrow> os_mmap os fd off len w = (Inr m, w') \<Longrightarrow> mp_len m = nat len"
  unfolding mmap_exact_def by blast

lemma allocRing_in:
  assumes os: "mmap_exact os" and lay: "sq_layout p" "cq_layout p"
    and m1: "os_mmap os fd 0 (sint (fst (ring_sizes p))) w1 = (Inr m1, w2)"
    and m2: "if SingleMMapFeature p then m2 = m1 \<and> w3 = w2
      else os_mmap os fd cqRingOffset (sint (snd (ring_sizes p))) w2 = (Inr m2, w3)"
    and m3: "os_mmap os fd sqesOffset (uint (sqEntries p) * 64) w3 = (Inr m3, w4)"
  shows "\<exists>r. allocRing os p (empty_ring fd p) w1 = Ok (None, r, w4) \<and> ring_fd r = fd \<and> Params r = p \<and>
     sq_in p m1 (sqRing r) \<and> cq_in p m2 (cqRing r) \<and> length (sqeBuff (sqRing r)) = unat (sqEntries p) \<and>
     sqeHead (sqRing r) = 0 \<and> sqeTail (sqRing r) = 0"
proof -
  obtain sqSize cqSize where sz: "ring_sizes p = (sqSize, cqSize)" by fastforce
  note need = ring_sizes_enough [OF lay]
  have len: "sq_need p \<le> mp_len m1" "cq_need p \<le> mp_len m2" "mp_len m3 = 64 * unat (sqEntries p)"
    using need mmap_len [OF os m1] mmap_len [OF os m3] m2 mmap_len [OF os, of fd cqRingOffset "sint (snd (ring_sizes p))" w2 m2 w3]
    by (auto simp: nat_mult_distrib split: if_splits)
  let ?r0 = "empty_ring fd p"
  let ?s0 = "(sqRing ?r0)\<lparr>sq_ringSize := sqSize, sq_buff := map_slice m1\<rparr>"
  let ?c0 = "(cqRing ?r0)\<lparr>cq_ringSize := cqSize, cq_buff := map_slice m2\<rparr>"
  obtain s' where s': "sq_cells p m1 ?s0 = Ok s'" "sq_in p m1 s'" "sqeHead s' = 0" "sqeTail s' = 0"
    using sq_cells_in [OF lay(1) len(1), of ?s0] by (auto simp: empty_ring_def)
  obtain c' where c': "cq_cells p m2 ?c0 = Ok c'" "cq_in p m2 c'"
    using cq_cells_in [OF lay(2) len(2), of ?c0] by auto
  have b: "length (sqes_of m3) = unat (sqEntries p)"
    using len(3) by (simp add: sqes_of_def sizeof_SQEntry_def)
  have two: "(if SingleMMapFeature p then (Inr m1, w2) else os_mmap os fd cqRingOffset (sint cqSize) w2) = (Inr m2, w3)"
    using m2 sz by (auto split: if_splits)
  have "allocRing os p ?r0 w1 = Ok (None, ?r0\<lparr>sqRing := s'\<lparr>sqeBuff := sqes_of m3\<rparr>, cqRing := c'\<rparr>, w4)"
    using m1 two m3 s'(1) c'(1) sz
    by (cases "SingleMMapFeature p") (simp_all add: allocRing_def Let_def sizeof_SQEntry_def empty_ring_def)
  with s'(2-4) c'(2) b show ?thesis by (auto simp: empty_ring_def sq_in_def Let_def)
qed

section \<open>Counting rings\<close>

lemma attach_rings_length:
  "attach_rings os entries opts fd n rings w = Ok (Inr rings', w') \<Longrightarrow> length rings' = length rings + n"
proof (induction n arbitrary: rings w)
  case (Suc n)
  then show ?case by (fastforce simp: go_outcome split: option.splits)
qed simp

lemma create_rings_length:
  assumes "create_rings os entries opts per count i rings w = Ok (Inr rings', w')"
    and "0 < per" and "count - i = per * int q"
  shows "length rings' = length rings + nat (count - i)"
  using assms
proof (induction q arbitrary: i rings w)
  case 0
  then show ?case by (simp add: create_rings.simps)
next
  case (Suc q)
  have "0 < per * int (Suc q)" using Suc.prems(2) by (intro mult_pos_pos) simp_all
  then have lt: "i < count" using Suc.prems(3) by linarith
  have step: "i + int (nat (per - 1)) + 1 = i + per" using Suc.prems(2) by simp
  obtain mr w1 where mr: "New os entries opts w = Ok (Some mr, None, w1)"
    using Suc.prems(1) lt
    by (auto simp: create_rings.simps [of os entries opts per count i rings w] go_outcome split: option.splits)
  obtain res w2 where res: "attach_rings os entries opts (ring_fd mr) (nat (per - 1)) (rings @ [mr]) w1 = Ok (res, w2)"
    using Suc.prems(1) lt mr
    by (auto simp: create_rings.simps [of os entries opts per count i rings w] go_outcome)
  obtain rs where at: "attach_rings os entries opts (ring_fd mr) (nat (per - 1)) (rings @ [mr]) w1 = Ok (Inr rs, w2)"
    and rec: "create_rings os entries opts per count (i + per) rs w2 = Ok (Inr rings', w')"
    using Suc.prems(1,2) lt mr res
    by (cases res) (simp_all add: create_rings.simps [of os entries opts per count i rings w])
  have "count - (i + per) = per * int q" using Suc.prems(3) by (simp add: algebra_simps)
  from Suc.IH [OF rec Suc.prems(2) this] attach_rings_length [OF at] Suc.prems(2) this
  show ?case by (simp add: nat_add_distrib algebra_simps)
qed

text \<open>When every \<^verbatim>\<open>New\<close> succeeds the loops do too.\<close>

definition new_succeeds :: "'w os \<Rightarrow> u32 \<Rightarrow> bool" where
  "new_succeeds os entries \<longleftrightarrow> (\<forall>opts w. \<exists>r w'. New os entries opts w = Ok (Some r, None, w'))"

lemma attach_rings_succeeds:
  assumes "new_succeeds os entries"
  shows "\<exists>rings' w'. attach_rings os entries opts fd n rings w = Ok (Inr rings', w')"
proof (induction n arbitrary: rings w)
  case (Suc n)
  obtain r w1 where "New os entries (opts @ [WithAttachedWQ fd]) w = Ok (Some r, None, w1)"
    using assms unfolding new_succeeds_def by blast
  with Suc.IH [of "rings @ [r]" w1] show ?case by simp
qed simp

lemma CreateMany_length:
  assumes "0 < wpCount" and c: "CreateMany os count entries wpCount opts w = Ok (Inr rings, w')"
  shows "int (length rings) = count"
proof -
  have le: "wpCount \<le> count" and rem: "go_rem count wpCount = 0"
    and run: "create_rings os entries opts (go_quot count wpCount) count 0 [] w = Ok (Inr rings, w')"
    using assms(1) c by (auto simp: CreateMany_def split: if_splits)
  have q: "go_quot count wpCount = count div wpCount" "count mod wpCount = 0"
    using le assms(1) rem by simp_all
  have "0 < count div wpCount" using le assms(1) by (simp add: pos_imp_zdiv_pos_iff)
  moreover have "count - 0 = count div wpCount * int (nat wpCount)" using q(2) assms(1) by auto
  ultimately show ?thesis
    using create_rings_length [OF run [unfolded q(1)], of "nat wpCount"] le assms(1) by simp
qed

lemma create_rings_succeeds:
  assumes "new_succeeds os entries"
  shows "\<exists>rings' w'. create_rings os entries opts per count i rings w = Ok (Inr rings', w')"
proof (induction "nat (count - i)" arbitrary: i rings w rule: less_induct)
  case less
  show ?case
  proof (cases "i < count")
    case True
    obtain r w1 where r: "New os entries opts w = Ok (Some r, None, w1)"
      using assms unfolding new_succeeds_def by blast
    obtain rs w2 where at: "attach_rings os entries opts (ring_fd r) (nat (per - 1)) (rings @ [r]) w1 = Ok (Inr rs, w2)"
      using attach_rings_succeeds [OF assms] by blast
    have "nat (count - (i + int (nat (per - 1)) + 1)) < nat (count - i)" using True by simp
    from less [OF this, of rs w2] True r at show ?thesis
      by (simp add: create_rings.simps [of os entries opts per count i rings w])
  qed (simp add: create_rings.simps)
qed

section \<open>A small system\<close>

text \<open>An operating system that gives out the ring of the witnesses, in one mapping of 192 bytes.\<close>

definition ex_mapping :: mapping where
  "ex_mapping = \<lparr>mp_base = 4096, mp_len = 192,
     mp_mem = (\<lambda>off. if off = 16 \<or> off = 20 then 3 else if off = 24 \<or> off = 28 then 4 else 0)\<rparr>"

definition ex_os :: "nat os" where
  "ex_os = \<lparr>os_setup = (\<lambda>entries p w. (5, 0, ex_params\<lparr>features := 289\<rparr>, w + 1)),
     os_mmap = (\<lambda>fd off len w. (Inr (ex_mapping\<lparr>mp_len := nat len\<rparr>), w + 1)),
     os_munmap = (\<lambda>b w. (None, w)), os_close = (\<lambda>fd w. (None, w))\<rparr>"

lemma ex_os_exact: "mmap_exact ex_os"
  by (simp add: mmap_exact_def ex_os_def)

lemma ex_layout: "sq_layout (ex_params\<lparr>features := f\<rparr>)" "cq_layout (ex_params\<lparr>features := f\<rparr>)"
  by (simp_all add: sq_layout_def cq_layout_def sq_need_def cq_need_def ex_params_def Let_def bexI [of _ 2])

lemma ex_mapping_fresh:
  "fresh_sq (ex_params\<lparr>features := f\<rparr>) (ex_mapping\<lparr>mp_len := n\<rparr>)" "fresh_cq (ex_params\<lparr>features := f\<rparr>) (ex_mapping\<lparr>mp_len := n\<rparr>)"
  by (simp_all add: fresh_sq_def fresh_cq_def ex_mapping_def ex_params_def Let_def)

lemma ex_os_maps:
  "os_mmap ex_os fd off len w = (Inr (ex_mapping\<lparr>mp_len := nat len\<rparr>), w + 1)"
  "SingleMMapFeature (ex_params\<lparr>features := 289\<rparr>)"
  by (simp_all add: ex_os_def SingleMMapFeature_def featSingleMMap_def ex_params_def)

lemma ex_os_shared:
  "if SingleMMapFeature (ex_params\<lparr>features := 289\<rparr>) then m = m \<and> (w :: nat) = w else os_mmap ex_os fd off len w = (Inr m, w)"
  by (simp add: ex_os_maps(2))

lemma ex_os_succeeds: "new_succeeds ex_os 4"
proof -
  let ?p = "ex_params\<lparr>features := 289\<rparr>"
  have "\<exists>r. allocRing ex_os ?p (empty_ring 5 ?p) w = Ok (None, r, w + 2)" for w
    using allocRing_in [OF ex_os_exact ex_layout ex_os_maps(1) ex_os_shared ex_os_maps(1)] by (metis add_2_eq_Suc' Suc_eq_plus1)
  moreover have "sysSetup ex_os 4 q w = (5, None, ?p, w + 1)" for q w
    by (simp add: sysSetup_def ex_os_def)
  ultimately have "\<exists>r. New ex_os 4 opts w = Ok (Some r, None, w + 1 + 2)" for opts w
    unfolding New_def by (simp add: MaxEntries_def Let_def) (metis (no_types, lifting) obind.simps(1) split_conv)
  then show ?thesis unfolding new_succeeds_def by blast
qed

section \<open>Properties\<close>

text \<open>
  C40. \<^verbatim>\<open>New\<close> builds a ring in the memory it maps. When io_uring_setup and the mappings succeed, the
  mappings have the lengths that the code computes and asks for, and the fields of each queue lie within
  the size documented for it, then every pointer lies inside its mapping, whether or not the two queues share one:
  \<^verbatim>\<open>New\<close> returns a ring whose cells are the words at the offsets the kernel reported, whatever they
  hold. If the kernel has initialised them as documented, the ring satisfies the
  invariants of both queues, holds nothing, and has the sizes the kernel reported.
\<close>

theorem New_well_formed:
  assumes "entries \<le> MaxEntries" and "mmap_exact os" and "sq_layout p" and "cq_layout p"
    and "os_setup os entries (fold (\<lambda>opt p. opt p) opts zero_params) w = (fd, 0, p, w1)"
    and "os_mmap os (sint fd) 0 (sint (fst (ring_sizes p))) w1 = (Inr m1, w2)"
    and "if SingleMMapFeature p then m2 = m1 \<and> w3 = w2
      else os_mmap os (sint fd) cqRingOffset (sint (snd (ring_sizes p))) w2 = (Inr m2, w3)"
    and "os_mmap os (sint fd) sqesOffset (uint (sqEntries p) * 64) w3 = (Inr m3, w4)"
  shows "\<exists>r. New os entries opts w = Ok (Some r, None, w4) \<and> ring_fd r = sint fd \<and> Params r = p \<and>
     sq_in p m1 (sqRing r) \<and> cq_in p m2 (cqRing r) \<and>
     (fresh_sq p m1 \<and> fresh_cq p m2 \<longrightarrow>
        sq_wf (sqRing r) \<and> sq_published (sqRing r) = [] \<and> sq_pending (sqRing r) = [] \<and>
        sq_cap (sqRing r) = unat (sqEntries p) \<and>
        cq_wf (cqRing r) \<and> cq_ready (cqRing r) = [] \<and> cq_cap (cqRing r) = unat (cqEntries p))"
proof -
  obtain r where r: "allocRing os p (empty_ring (sint fd) p) w1 = Ok (None, r, w4)" "ring_fd r = sint fd" "Params r = p"
    "sq_in p m1 (sqRing r)" "cq_in p m2 (cqRing r)" "length (sqeBuff (sqRing r)) = unat (sqEntries p)"
    "sqeHead (sqRing r) = 0" "sqeTail (sqRing r) = 0"
    using allocRing_in [OF assms(2-4,6-8)] by blast
  have "New os entries opts w = Ok (Some r, None, w4)"
    using r(1) assms(1,5) by (simp add: New_def sysSetup_def Let_def not_less)
  moreover note r(2-5) fresh_sq_wf [OF assms(3) _ r(4,7,8,6)] fresh_cq_wf [OF assms(4) _ r(5)]
  ultimately show ?thesis by blast
qed

theorem New_well_formed_witness:
  "\<exists>r. New ex_os 4 [WithIOPoll] 0 = Ok (Some r, None, 3) \<and> sq_wf (sqRing r) \<and> cq_wf (cqRing r)"
proof -
  let ?p = "ex_params\<lparr>features := 289\<rparr>"
  have st: "os_setup ex_os 4 (fold (\<lambda>opt p. opt p) [WithIOPoll] zero_params) 0 = (5, 0, ?p, 1)"
    by (simp add: ex_os_def)
  have len: "4 \<le> MaxEntries" by (simp add: MaxEntries_def)
  show ?thesis
    using New_well_formed [OF len ex_os_exact ex_layout st ex_os_maps(1) ex_os_shared ex_os_maps(1)] ex_mapping_fresh by fastforce
qed

text \<open>
  \<^verbatim>\<open>CreateMany\<close> gives what was asked for: with at least one worker pool, a successful call
  returns exactly \<^verbatim>\<open>count\<close> rings; a call whose count is a multiple of the number of pools succeeds if
  every ring can be created; a count that does not fit is refused before the system is asked
  for anything.
\<close>

theorem CreateMany_count:
  assumes "0 < wpCount"
  shows "(\<forall>rings w'. CreateMany os count entries wpCount opts w = Ok (Inr rings, w') \<longrightarrow> int (length rings) = count) \<and>
     (new_succeeds os entries \<and> wpCount \<le> count \<and> count mod wpCount = 0 \<longrightarrow>
        (\<exists>rings w'. CreateMany os count entries wpCount opts w = Ok (Inr rings, w'))) \<and>
     (count < wpCount \<or> count mod wpCount \<noteq> 0 \<longrightarrow>
        (\<exists>e. CreateMany os count entries wpCount opts w = Ok (Inl e, w)))"
proof (intro conjI allI impI)
  fix rings w'
  assume "CreateMany os count entries wpCount opts w = Ok (Inr rings, w')"
  then show "int (length rings) = count" by (rule CreateMany_length [OF assms])
next
  assume "new_succeeds os entries \<and> wpCount \<le> count \<and> count mod wpCount = 0"
  then show "\<exists>rings w'. CreateMany os count entries wpCount opts w = Ok (Inr rings, w')"
    using assms create_rings_succeeds [of os entries] by (simp add: CreateMany_def)
next
  assume "count < wpCount \<or> count mod wpCount \<noteq> 0"
  then show "\<exists>e. CreateMany os count entries wpCount opts w = Ok (Inl e, w)"
    using assms by (cases "count < wpCount") (auto simp: CreateMany_def)
qed

theorem CreateMany_count_witness:
  "(\<exists>rings w'. CreateMany ex_os 4 4 2 [] 0 = Ok (Inr rings, w') \<and> length rings = 4) \<and>
   (\<exists>e. CreateMany ex_os 5 4 2 [] 0 = Ok (Inl e, 0))"
proof
  have "\<exists>rings w'. CreateMany ex_os 4 4 2 [] 0 = Ok (Inr rings, w')"
    using CreateMany_count [of 2 ex_os 4 4 "[]" 0] ex_os_succeeds by simp
  then obtain rings w' where r: "CreateMany ex_os 4 4 2 [] 0 = Ok (Inr rings, w')" by blast
  then have "int (length rings) = 4" using CreateMany_count [of 2 ex_os 4 4 "[]" 0] by simp
  with r show "\<exists>rings w'. CreateMany ex_os 4 4 2 [] 0 = Ok (Inr rings, w') \<and> length rings = 4" by auto
  show "\<exists>e. CreateMany ex_os 5 4 2 [] 0 = Ok (Inl e, 0)"
    using CreateMany_count [of 2 ex_os 5 4 "[]" 0] by simp
qed

text \<open>
  \<^verbatim>\<open>New\<close> refuses more than \<^verbatim>\<open>MaxEntries\<close> entries with \<^verbatim>\<open>ErrRingSetup\<close>, before any system call; if
  the system refuses, its error is returned and nothing is mapped.
\<close>

theorem New_refused:
  "(MaxEntries < entries \<longrightarrow>
      (\<exists>e. New os entries opts w = Ok (None, Some e, w) \<and> errors_is e ErrRingSetup)) \<and>
   (entries \<le> MaxEntries \<longrightarrow> (\<forall>fd errno p w1.
      os_setup os entries (fold (\<lambda>opt p. opt p) opts zero_params) w = (fd, errno, p, w1) \<longrightarrow> errno \<noteq> 0 \<longrightarrow>
      New os entries opts w = Ok (None, Some (SyscallError ''io_uring_setup'' (Errno errno)), w1)))"
  by (auto simp: New_def sysSetup_def NewSyscallError_def Let_def not_less)

theorem New_refused_witness:
  "\<exists>e. New ex_os 40000 [] 0 = Ok (None, Some e, 0) \<and> errors_is e ErrRingSetup"
  using New_refused [of 40000 ex_os "[]" 0] by (simp add: MaxEntries_def)

text \<open>
  A failed allocation gives back the queues it mapped: when the mapping of the completion
  queue is refused, the submission queue is unmapped before the error is returned; when the
  mapping of the entries is refused, both queues are, and a queue pair that shares one
  mapping is unmapped once.
\<close>

theorem allocRing_releases:
  assumes "ring_sizes p = (sqSize, cqSize)" and "sq_layout p" and "sq_need p \<le> mp_len m1"
    and "os_mmap os fd 0 (sint sqSize) w1 = (Inr m1, w2)"
  shows "(\<not> SingleMMapFeature p \<and> os_mmap os fd cqRingOffset (sint cqSize) w2 = (Inl e, w3) \<longrightarrow>
        (\<exists>r. allocRing os p (empty_ring fd p) w1 = Ok (Some e, r, snd (os_munmap os (map_slice m1) w3)))) \<and>
     (\<not> SingleMMapFeature p \<and> os_mmap os fd cqRingOffset (sint cqSize) w2 = (Inr m2, w3) \<and>
        mp_len m2 \<noteq> 0 \<and> mp_base m2 \<noteq> mp_base m1 \<and>
        os_mmap os fd sqesOffset (uint (sqEntries p) * 64) w3 = (Inl e, w4) \<longrightarrow>
        (\<exists>r. allocRing os p (empty_ring fd p) w1 =
           Ok (Some e, r, snd (os_munmap os (map_slice m2) (snd (os_munmap os (map_slice m1) w4)))))) \<and>
     (SingleMMapFeature p \<and> os_mmap os fd sqesOffset (uint (sqEntries p) * 64) w2 = (Inl e, w3) \<longrightarrow>
        (\<exists>r. allocRing os p (empty_ring fd p) w1 = Ok (Some e, r, snd (os_munmap os (map_slice m1) w3))))"
proof -
  let ?r0 = "empty_ring fd p"
  let ?s0 = "(sqRing ?r0)\<lparr>sq_ringSize := sqSize, sq_buff := map_slice m1\<rparr>"
  have ne: "mp_len m1 \<noteq> 0" using assms(2,3) by (auto simp: sq_layout_def Let_def)
  obtain s' where "sq_cells p m1 ?s0 = Ok s'" "sq_buff s' = map_slice m1"
    using sq_cells_in [OF assms(2,3), of ?s0] by (auto simp: empty_ring_def)
  with assms(1,4) ne show ?thesis
    by (simp add: allocRing_def fail_free_def freeRing_def empty_ring_def Let_def sizeof_SQEntry_def
        addr0_def map_slice_def nil_slice_def split: prod.split)
qed

text \<open>A system that refuses to map the entries, and counts what it unmaps by the hundreds.\<close>

definition ex_nomem :: "nat os" where
  "ex_nomem = ex_os\<lparr>os_mmap := (\<lambda>fd off len w.
       if off = sqesOffset then (Inl (Errno 12), w) else (Inr (ex_mapping\<lparr>mp_base := 4096 + off\<rparr>), w + 1)),
     os_munmap := (\<lambda>b w. (None, w + 100))\<rparr>"

theorem allocRing_releases_witness:
  "\<exists>r. allocRing ex_nomem ex_params (empty_ring 5 ex_params) 0 = Ok (Some (Errno 12), r, 202)"
proof -
  obtain a b where sz: "ring_sizes ex_params = (a, b)" by fastforce
  have one: "\<not> SingleMMapFeature ex_params" by (simp add: SingleMMapFeature_def featSingleMMap_def ex_params_def)
  have "sq_layout ex_params" "sq_need ex_params \<le> mp_len ex_mapping"
    by (simp_all add: sq_layout_def sq_need_def ex_mapping_def ex_params_def Let_def bexI [of _ 2])
  from allocRing_releases [OF sz this, of ex_nomem 5 0 1 "Errno 12" 2 "ex_mapping\<lparr>mp_base := 4096 + cqRingOffset\<rparr>" 2] one
  show ?thesis
    by (simp add: ex_nomem_def cqRingOffset_def sqesOffset_def ex_mapping_def)
qed

end
