(* ===== verification/Uring_Register.thy ===== *)
theory Uring_Register
  imports Uring_Setup
begin

unbundle bit_operations_syntax

text \<open>
  Registration with a ring: \<^verbatim>\<open>src/uring/register.go\<close> and \<^verbatim>\<open>sysRegister\<close> of \<^verbatim>\<open>src/uring/syscall.go\<close>.

  The code hands the kernel a pointer to a Go object. What matters is the memory the object
  occupies, so an argument is the list of its little-endian 32-bit words, \<open>None\<close> for a nil
  pointer, and the kernel, a parameter, may write to it.
\<close>

section \<open>The system call\<close>

type_synonym 'w register_call =
  "int \<Rightarrow> int \<Rightarrow> u32 list option \<Rightarrow> int \<Rightarrow> 'w \<Rightarrow> u64 \<times> u32 list option \<times> 'w"

definition sysRegister ::
  "'w register_call \<Rightarrow> int \<Rightarrow> int \<Rightarrow> u32 list option \<Rightarrow> int \<Rightarrow> 'w \<Rightarrow> go_error option \<times> u32 list option \<times> 'w" where
  "sysRegister call ringFD opc arg nrArgs w =
     (case call ringFD opc arg nrArgs w of (errno, mem, w') \<Rightarrow>
        (if errno \<noteq> 0 then NewSyscallError ''io_uring_register'' (Some (Errno errno)) else None, mem, w'))"

definition sysRingRegisterBuffers :: int where "sysRingRegisterBuffers = 0"
definition sysRingUnRegisterBuffers :: int where "sysRingUnRegisterBuffers = 1"
definition sysRingRegisterFiles :: int where "sysRingRegisterFiles = 2"
definition sysRingUnRegisterFiles :: int where "sysRingUnRegisterFiles = 3"
definition sysRingRegisterProbe :: int where "sysRingRegisterProbe = 8"
definition sysRingRegisterIOWQMaxWorkers :: int where "sysRingRegisterIOWQMaxWorkers = 19"

section \<open>Memory layout\<close>

text \<open>The words of a 64-bit value, of an iovec and of arrays of them.\<close>

definition u64_words :: "u64 \<Rightarrow> u32 list" where
  "u64_words x = [ucast x, ucast (drop_bit 32 x)]"

definition int_words :: "int \<Rightarrow> u32 list" where
  "int_words n = u64_words (of_int n)"

definition iovec_words :: "iovec \<Rightarrow> u32 list" where
  "iovec_words v = u64_words (iov_Base v) @ u64_words (iov_Len v)"

text \<open>Memory made of words, read at byte offsets.\<close>

definition word_mem :: "u32 list \<Rightarrow> nat \<Rightarrow> u32" where
  "word_mem ws off = ws ! (off div 4)"

section \<open>Probing\<close>

record probeOp =
  po_Op :: u8
  po_res :: u8
  po_Flags :: u16
  po_res2 :: u32

record Probe =
  pr_lastOp :: u8
  pr_opsLen :: u8
  pr_res :: u16
  pr_res2 :: "u32 \<times> u32 \<times> u32"
  pr_ops :: "probeOp list"

definition OpSupportedFlag :: u16 where "OpSupportedFlag = 1"

definition zero_probeOp :: probeOp where
  "zero_probeOp = \<lparr>po_Op = 0, po_res = 0, po_Flags = 0, po_res2 = 0\<rparr>"

definition zero_Probe :: Probe where
  "zero_Probe = \<lparr>pr_lastOp = 0, pr_opsLen = 0, pr_res = 0, pr_res2 = (0, 0, 0),
     pr_ops = replicate 256 zero_probeOp\<rparr>"

definition pack_word :: "u8 \<Rightarrow> u8 \<Rightarrow> u16 \<Rightarrow> u32" where
  "pack_word a b c = ucast a OR push_bit 8 (ucast b) OR push_bit 16 (ucast c)"

definition probeOp_words :: "probeOp \<Rightarrow> u32 list" where
  "probeOp_words p = [pack_word (po_Op p) (po_res p) (po_Flags p), po_res2 p]"

definition Probe_words :: "Probe \<Rightarrow> u32 list" where
  "Probe_words p = (case pr_res2 p of (x, y, z) \<Rightarrow>
     [pack_word (pr_lastOp p) (pr_opsLen p) (pr_res p), x, y, z] @ concat (map probeOp_words (pr_ops p)))"

fun probeOps_of :: "u32 list \<Rightarrow> probeOp list" where
  "probeOps_of (x # y # ws) =
     \<lparr>po_Op = ucast x, po_res = ucast (drop_bit 8 x), po_Flags = ucast (drop_bit 16 x), po_res2 = y\<rparr> # probeOps_of ws"
| "probeOps_of _ = []"

definition Probe_of :: "u32 list \<Rightarrow> Probe" where
  "Probe_of ws =
     \<lparr>pr_lastOp = ucast (ws ! 0), pr_opsLen = ucast (drop_bit 8 (ws ! 0)), pr_res = ucast (drop_bit 16 (ws ! 0)),
      pr_res2 = (ws ! 1, ws ! 2, ws ! 3), pr_ops = probeOps_of (drop 4 ws)\<rparr>"

definition GetOP :: "Probe \<Rightarrow> int \<Rightarrow> probeOp outcome" where
  "GetOP p code = (if 0 \<le> code \<and> code < int (length (pr_ops p)) then Ok (pr_ops p ! nat code) else Panic IndexOutOfRange)"

text \<open>\<^verbatim>\<open>Ring.Probe\<close>: the object after the call is what the kernel left in its memory.\<close>

definition Ring_Probe :: "'w register_call \<Rightarrow> Ring \<Rightarrow> 'w \<Rightarrow> Probe \<times> go_error option \<times> 'w" where
  "Ring_Probe call r w =
     (case sysRegister call (ring_fd r) sysRingRegisterProbe (Some (Probe_words zero_Probe)) 256 w of
        (err, mem, w') \<Rightarrow> ((case mem of Some ws \<Rightarrow> Probe_of ws | None \<Rightarrow> zero_Probe), err, w'))"

section \<open>Workers, buffers and files\<close>

definition SetIOWQMaxWorkers :: "'w register_call \<Rightarrow> Ring \<Rightarrow> int \<Rightarrow> 'w \<Rightarrow> go_error option \<times> 'w" where
  "SetIOWQMaxWorkers call r count w =
     (case sysRegister call (ring_fd r) sysRingRegisterIOWQMaxWorkers (Some (int_words count)) 2 w of
        (err, _, w') \<Rightarrow> (err, w'))"

definition RegisterBuffers :: "'w register_call \<Rightarrow> Ring \<Rightarrow> iovec list \<Rightarrow> 'w \<Rightarrow> (go_error option \<times> 'w) outcome" where
  "RegisterBuffers call r buffers w =
     (if buffers = [] then Panic IndexOutOfRange
      else case sysRegister call (ring_fd r) sysRingRegisterBuffers (Some (concat (map iovec_words buffers)))
             (int (length buffers)) w of (err, _, w') \<Rightarrow> Ok (err, w'))"

definition UnRegisterBuffers :: "'w register_call \<Rightarrow> Ring \<Rightarrow> 'w \<Rightarrow> go_error option \<times> 'w" where
  "UnRegisterBuffers call r w =
     (case sysRegister call (ring_fd r) sysRingUnRegisterBuffers None 0 w of (err, _, w') \<Rightarrow> (err, w'))"

definition RegisterFiles :: "'w register_call \<Rightarrow> Ring \<Rightarrow> int list \<Rightarrow> 'w \<Rightarrow> (go_error option \<times> 'w) outcome" where
  "RegisterFiles call r descriptors w =
     (if descriptors = [] then Panic IndexOutOfRange
      else case sysRegister call (ring_fd r) sysRingRegisterFiles (Some (concat (map int_words descriptors)))
             (int (length descriptors)) w of (err, _, w') \<Rightarrow> Ok (err, w'))"

definition UnRegisterFiles :: "'w register_call \<Rightarrow> Ring \<Rightarrow> 'w \<Rightarrow> go_error option \<times> 'w" where
  "UnRegisterFiles call r w =
     (case sysRegister call (ring_fd r) sysRingUnRegisterFiles None 0 w of (err, _, w') \<Rightarrow> (err, w'))"

section \<open>How the kernel reads the memory\<close>

text \<open>
  io_uring_register(2): the buffers are an array of \<^verbatim>\<open>struct iovec\<close>, the files an array of
  signed 32-bit descriptors, the numbers of workers an array of two 32-bit numbers.
\<close>

definition kernel_iovecs :: "nat \<Rightarrow> u32 list \<Rightarrow> iovec list" where
  "kernel_iovecs n ws = map (\<lambda>i. \<lparr>iov_Base = u64_of (word_mem ws) (16 * i), iov_Len = u64_of (word_mem ws) (16 * i + 8)\<rparr>) [0..<n]"

definition kernel_i32s :: "nat \<Rightarrow> u32 list \<Rightarrow> int list" where
  "kernel_i32s n ws = map (\<lambda>i. sint (word_mem ws (4 * i))) [0..<n]"

section \<open>Round trips\<close>

lemma u64_of_words: "u64_of (word_mem (pre @ u64_words x @ post)) (4 * length pre) = x"
proof -
  have mem: "word_mem (pre @ u64_words x @ post) (4 * length pre) = ucast x"
    "word_mem (pre @ u64_words x @ post) (4 * length pre + 4) = ucast (drop_bit 32 x)"
    by (simp_all add: word_mem_def u64_words_def nth_append)
  show ?thesis unfolding u64_of_def mem
  proof (rule bit_eqI)
    fix n assume "possible_bit TYPE(u64) n"
    then have "n < 64" by simp
    then show "bit (ucast (ucast x :: u32) OR push_bit 32 (ucast (ucast (drop_bit 32 x) :: u32)) :: u64) n = bit x n"
      by (cases "n < 32") (auto simp: bit_simps)
  qed
qed

lemma length_iovec_words [simp]: "length (iovec_words v) = 4"
  by (simp add: iovec_words_def u64_words_def)

lemma length_concat_const: "(\<And>x. length (f x) = k) \<Longrightarrow> length (concat (map f xs)) = k * length xs"
  by (induction xs) auto

lemma concat_split: "i < length xs \<Longrightarrow> concat (map f xs) = concat (map f (take i xs)) @ f (xs ! i) @ concat (map f (drop (Suc i) xs))"
  by (metis concat_append concat.simps(2) id_take_nth_drop list.simps(9) map_append)

lemma kernel_iovecs_words:
  "kernel_iovecs (length vs) (concat (map iovec_words vs)) = vs"
proof (rule nth_equalityI)
  fix i assume "i < length (kernel_iovecs (length vs) (concat (map iovec_words vs)))"
  then have i: "i < length vs" by (simp add: kernel_iovecs_def)
  let ?pre = "concat (map iovec_words (take i vs))" and ?post = "concat (map iovec_words (drop (Suc i) vs))"
  let ?v = "vs ! i" and ?ws = "concat (map iovec_words vs)"
  have ws: "?ws = ?pre @ u64_words (iov_Base ?v) @ (u64_words (iov_Len ?v) @ ?post)"
    "?ws = (?pre @ u64_words (iov_Base ?v)) @ u64_words (iov_Len ?v) @ ?post"
    using concat_split [OF i, of iovec_words] by (simp_all add: iovec_words_def)
  have len: "length ?pre = 4 * i" using i by (subst length_concat_const [where k = 4]) simp_all
  have "u64_of (word_mem ?ws) (4 * length ?pre) = iov_Base ?v"
    by (subst ws(1)) (rule u64_of_words)
  moreover have "u64_of (word_mem ?ws) (4 * length (?pre @ u64_words (iov_Base ?v))) = iov_Len ?v"
    by (subst ws(2)) (rule u64_of_words)
  ultimately show "kernel_iovecs (length vs) ?ws ! i = ?v"
    using i len by (simp add: kernel_iovecs_def u64_words_def algebra_simps)
qed (simp add: kernel_iovecs_def)

lemma unpack_word:
  "ucast (pack_word a b c) = a" "ucast (drop_bit 8 (pack_word a b c)) = b" "ucast (drop_bit 16 (pack_word a b c)) = c"
  by (auto simp: pack_word_def bit_eq_iff bit_simps dest: bit_imp_le_length)

lemma probeOps_words: "probeOps_of (concat (map probeOp_words ops)) = ops"
  by (induction ops) (simp_all add: probeOp_words_def unpack_word)

lemma Probe_of_words: "Probe_of (Probe_words p) = p"
  by (cases p) (auto simp: Probe_of_def Probe_words_def unpack_word probeOps_words split: prod.split)

text \<open>An array of 64-bit numbers, read as 32-bit ones.\<close>

lemma nth_int_words:
  "i < 2 * length ns \<Longrightarrow> concat (map int_words ns) ! i
     = (if even i then ucast (of_int (ns ! (i div 2)) :: u64) else ucast (drop_bit 32 (of_int (ns ! (i div 2)) :: u64)))"
proof (induction ns arbitrary: i)
  case (Cons n ns)
  show ?case
  proof (cases "i < 2")
    case True
    then have "i = 0 \<or> i = 1" by auto
    then show ?thesis by (auto simp: int_words_def u64_words_def)
  next
    case False
    then obtain j where j: "i = j + 2" by (metis add.commute le_Suc_ex not_less)
    with Cons show ?thesis by (simp add: int_words_def u64_words_def)
  qed
qed simp

lemma small_int_words:
  assumes "0 \<le> n" and "n < 2 ^ 31"
  shows "sint (ucast (of_int n :: u64) :: u32) = n" and "ucast (drop_bit 32 (of_int n :: u64)) = (0 :: u32)"
proof -
  have "sint (word_of_int n :: u32) = n" using assms by (simp add: signed_of_int signed_take_bit_int_eq_self)
  moreover have "ucast (of_int n :: u64) = (of_int n :: u32)" by (rule bit_eqI) (simp add: bit_simps)
  ultimately show "sint (ucast (of_int n :: u64) :: u32) = n" by simp
  have "\<not> bit n (32 + i)" for i
    using bit_take_bit_iff [of 31 n "32 + i"] take_bit_int_eq_self [of n 31] assms by simp
  then show "ucast (drop_bit 32 (of_int n :: u64)) = (0 :: u32)" by (auto simp: bit_eq_iff bit_simps)
qed

lemma kernel_i32s_ints:
  assumes "\<forall>d\<in>set ds. 0 \<le> d \<and> d < 2 ^ 31"
  shows "kernel_i32s (length ds) (concat (map int_words ds)) = map (\<lambda>i. if even i then ds ! (i div 2) else 0) [0..<length ds]"
  unfolding kernel_i32s_def
proof (rule map_upt_cong)
  fix i assume i: "i < length ds"
  then have "ds ! (i div 2) \<in> set ds" by simp
  with assms have d: "0 \<le> ds ! (i div 2)" "ds ! (i div 2) < 2 ^ 31" by blast+
  from i have "word_mem (concat (map int_words ds)) (4 * i) = concat (map int_words ds) ! i"
    by (simp add: word_mem_def)
  with i nth_int_words [of i ds] small_int_words [OF d]
  show "sint (word_mem (concat (map int_words ds)) (4 * i)) = (if even i then ds ! (i div 2) else 0)" by simp
qed

text \<open>A list that is its own first half with zeros in between has only zeros behind its head.\<close>

lemma spread_same:
  fixes ds :: "int list"
  shows "map (\<lambda>i. if even i then ds ! (i div 2) else 0) [0..<length ds] = ds \<longleftrightarrow> (\<forall>j. 0 < j \<longrightarrow> j < length ds \<longrightarrow> ds ! j = 0)"
proof
  assume eq: "map (\<lambda>i. if even i then ds ! (i div 2) else 0) [0..<length ds] = ds"
  have at: "ds ! j = (if even j then ds ! (j div 2) else 0)" if "j < length ds" for j
    using nth_map [of j "[0..<length ds]" "\<lambda>i. if even i then ds ! (i div 2) else 0"] that unfolding eq by simp
  have "0 < j \<longrightarrow> j < length ds \<longrightarrow> ds ! j = 0" for j
  proof (induction j rule: less_induct)
    case (less j)
    show ?case
    proof (intro impI)
      assume j: "0 < j" "j < length ds"
      show "ds ! j = 0"
      proof (cases "even j")
        case True
        then have "0 < j div 2" "j div 2 < j" using j(1) by (auto elim: evenE)
        with less [of "j div 2"] at [OF j(2)] True j show ?thesis by simp
      qed (use at [OF j(2)] in simp)
    qed
  qed
  then show "\<forall>j. 0 < j \<longrightarrow> j < length ds \<longrightarrow> ds ! j = 0" by blast
next
  assume z: "\<forall>j. 0 < j \<longrightarrow> j < length ds \<longrightarrow> ds ! j = 0"
  show "map (\<lambda>i. if even i then ds ! (i div 2) else 0) [0..<length ds] = ds"
  proof (rule nth_equalityI)
    fix i assume i: "i < length (map (\<lambda>i. if even i then ds ! (i div 2) else 0) [0..<length ds])"
    then have "i = 0 \<or> ds ! i = 0 \<and> (even i \<longrightarrow> ds ! (i div 2) = 0)"
      using z by (cases "i = 0") (auto elim!: evenE)
    with i show "map (\<lambda>i. if even i then ds ! (i div 2) else 0) [0..<length ds] ! i = ds ! i"
      using z by (cases "even i") auto
  qed simp
qed

section \<open>Properties\<close>

text \<open>
  What the kernel reports about its operations arrives: if the probe call leaves the
  description \<open>p\<close> in the memory it was given, \<^verbatim>\<open>Probe\<close> returns \<open>p\<close>; \<^verbatim>\<open>GetOP\<close> then gives the entry of
  every opcode below 256 and panics for any other number.
\<close>

theorem Probe_reports:
  assumes "length (pr_ops p) = 256"
    and "call (ring_fd r) 8 (Some (Probe_words zero_Probe)) 256 w = (0, Some (Probe_words p), w')"
  shows "Ring_Probe call r w = (p, None, w') \<and>
     (\<forall>code. GetOP p code = (if 0 \<le> code \<and> code < 256 then Ok (pr_ops p ! nat code) else Panic IndexOutOfRange))"
  using assms by (simp add: Ring_Probe_def sysRegister_def sysRingRegisterProbe_def Probe_of_words GetOP_def)

theorem Probe_reports_witness:
  "Ring_Probe (\<lambda>fd opc mem n w. (0, Some (Probe_words (zero_Probe\<lparr>pr_lastOp := 39\<rparr>)), Suc w))
     (empty_ring 5 zero_params) 0 = (zero_Probe\<lparr>pr_lastOp := 39\<rparr>, None, 1)"
proof -
  let ?p = "zero_Probe\<lparr>pr_lastOp := 39\<rparr>"
  have "length (pr_ops ?p) = 256" by (simp add: zero_Probe_def)
  from Probe_reports [OF this, of "\<lambda>fd opc mem n w. (0, Some (Probe_words ?p), Suc w)" "empty_ring 5 zero_params" 0 1]
  show ?thesis by simp
qed

text \<open>
  Registered buffers arrive: \<^verbatim>\<open>RegisterBuffers\<close> passes memory from which the kernel, reading
  the number of iovecs it is told, reads exactly the given buffers; an empty list panics before
  the call.
\<close>

theorem RegisterBuffers_seen:
  "RegisterBuffers call r buffers w =
     (if buffers = [] then Panic IndexOutOfRange
      else case call (ring_fd r) 0 (Some (concat (map iovec_words buffers))) (int (length buffers)) w of
        (errno, _, w') \<Rightarrow>
          Ok (if errno = 0 then None else Some (SyscallError ''io_uring_register'' (Errno errno)), w')) \<and>
   kernel_iovecs (length buffers) (concat (map iovec_words buffers)) = buffers"
  by (simp add: RegisterBuffers_def sysRegister_def sysRingRegisterBuffers_def NewSyscallError_def
      kernel_iovecs_words split: prod.split)

text \<open>
  C39. Registered files do not arrive. \<^verbatim>\<open>RegisterFiles\<close> passes an array of 64-bit integers, and the
  kernel reads as many 32-bit descriptors as it is told from that memory: it sees each descriptor followed by
  a zero, and only the first half of them. What it sees is what was meant exactly if all descriptors
  but the first are 0; so never for two or more different descriptors with one other than 0 behind the first.
\<close>

theorem RegisterFiles_seen:
  assumes "\<forall>d\<in>set ds. 0 \<le> d \<and> d < 2 ^ 31" and "ds \<noteq> []"
  shows "\<exists>mem. (\<forall>call w. RegisterFiles call r ds w =
        (case call (ring_fd r) 2 (Some mem) (int (length ds)) w of (errno, _, w') \<Rightarrow>
           Ok (if errno = 0 then None else Some (SyscallError ''io_uring_register'' (Errno errno)), w'))) \<and>
     kernel_i32s (length ds) mem = map (\<lambda>i. if even i then ds ! (i div 2) else 0) [0..<length ds] \<and>
     (kernel_i32s (length ds) mem = ds \<longleftrightarrow> (\<forall>j. 0 < j \<longrightarrow> j < length ds \<longrightarrow> ds ! j = 0))"
proof (intro exI [of _ "concat (map int_words ds)"] conjI allI)
  fix call :: "'a register_call" and w
  show "RegisterFiles call r ds w =
        (case call (ring_fd r) 2 (Some (concat (map int_words ds))) (int (length ds)) w of (errno, _, w') \<Rightarrow>
           Ok (if errno = 0 then None else Some (SyscallError ''io_uring_register'' (Errno errno)), w'))"
    using assms(2)
    by (simp add: RegisterFiles_def sysRegister_def sysRingRegisterFiles_def NewSyscallError_def split: prod.split)
next
  show "kernel_i32s (length ds) (concat (map int_words ds)) = map (\<lambda>i. if even i then ds ! (i div 2) else 0) [0..<length ds]"
    by (rule kernel_i32s_ints [OF assms(1)])
  then show "kernel_i32s (length ds) (concat (map int_words ds)) = ds \<longleftrightarrow> (\<forall>j. 0 < j \<longrightarrow> j < length ds \<longrightarrow> ds ! j = 0)"
    using spread_same [of ds] by simp
qed

theorem RegisterFiles_seen_witness:
  "\<exists>mem. RegisterFiles (\<lambda>fd opc mem n w. (9, mem, Suc w)) (empty_ring 5 zero_params) [7, 8, 9] 0
       = Ok (Some (SyscallError ''io_uring_register'' (Errno 9)), 1) \<and>
     kernel_i32s 3 mem = [7, 0, 8] \<and> kernel_i32s 3 mem \<noteq> [7, 8, 9]"
proof -
  obtain mem where m: "\<forall>call w. RegisterFiles call (empty_ring 5 zero_params) [7, 8, 9] (w :: nat) =
        (case call (ring_fd (empty_ring 5 zero_params)) 2 (Some mem) 3 w of (errno, _, w') \<Rightarrow>
           Ok (if errno = 0 then None else Some (SyscallError ''io_uring_register'' (Errno errno)), w'))"
    "kernel_i32s 3 mem = [7, 0, 8]"
    using RegisterFiles_seen [of "[7, 8, 9]" "empty_ring 5 zero_params"] by (auto simp: upt_conv_Cons numeral_3_eq_3)
  from m(1) [rule_format, of "\<lambda>fd opc mem n w. (9, mem, Suc w)" 0] m(2) show ?thesis by (intro exI [of _ mem]) simp
qed

text \<open>
  The worker counts of \<^verbatim>\<open>SetIOWQMaxWorkers\<close> are read from a 64-bit integer in the same way: the
  count, and zero, which keeps the second limit.
\<close>

theorem SetIOWQMaxWorkers_seen:
  assumes "0 \<le> count" and "count < 2 ^ 31"
  shows "SetIOWQMaxWorkers call r count w =
      (case call (ring_fd r) 19 (Some (int_words count)) 2 w of (errno, _, w') \<Rightarrow>
         (if errno = 0 then None else Some (SyscallError ''io_uring_register'' (Errno errno)), w')) \<and>
     kernel_i32s 2 (int_words count) = [count, 0]"
proof
  show "kernel_i32s 2 (int_words count) = [count, 0]"
    using small_int_words [OF assms]
    by (simp add: kernel_i32s_def int_words_def u64_words_def word_mem_def upt_conv_Cons)
qed (simp add: SetIOWQMaxWorkers_def sysRegister_def sysRingRegisterIOWQMaxWorkers_def NewSyscallError_def split: prod.split)

end
