(* ===== verification/Reactor_Kernel.thy ===== *)
theory Reactor_Kernel
  imports Uring_CQ "HOL-Library.Multiset"
begin

unbundle bit_operations_syntax

text \<open>
  The kernel as the environment of an event loop. A ring is extended by the requests the
  kernel has accepted and not yet completed; the step relation lists what the documented
  interface allows the kernel to do at any moment: take published entries, complete an
  accepted request by posting one event with its user data, change the flags word.
  \<open>kernel_conforms\<close> says that a call into the kernel does nothing else.
\<close>

section \<open>Kernel steps\<close>

record kring = Ring +
  inflight :: "u64 list"

inductive kernel_step :: "kring \<Rightarrow> kring \<Rightarrow> bool" where
  take_sqes: "n \<le> length (sq_published (sqRing r)) \<Longrightarrow>
     kernel_step r ((kernel_consume n r)\<lparr>inflight :=
       inflight r @ map sqe_UserData (take n (sq_published (sqRing r)))\<rparr>)"
| complete: "cqe_UserData ev \<in> set (inflight r) \<Longrightarrow>
     length (cq_ready (cqRing r)) < cq_cap (cqRing r) \<Longrightarrow>
     kernel_step r ((kernel_post ev r)\<lparr>inflight := remove1 (cqe_UserData ev) (inflight r)\<rparr>)"
| set_flags: "kernel_step r (r\<lparr>sqRing := (sqRing r)\<lparr>sq_kFlags := f\<rparr>\<rparr>)"

definition kernel_conforms :: "kring kernel \<Rightarrow> bool" where
  "kernel_conforms k \<longleftrightarrow> (\<forall>trap args r. kernel_step\<^sup>*\<^sup>* r (snd (snd (k trap args r))))"

text \<open>The user data of every request the ring or the kernel still owes a completion.\<close>

definition live :: "kring \<Rightarrow> u64 list" where
  "live r = map sqe_UserData (sq_published (sqRing r) @ sq_pending (sqRing r)) @ inflight r
     @ map cqe_UserData (cq_ready (cqRing r))"

definition kring_wf :: "kring \<Rightarrow> bool" where
  "kring_wf r \<longleftrightarrow> sq_wf (sqRing r) \<and> cq_wf (cqRing r)"

text \<open>What no kernel step touches, and what every one keeps.\<close>

definition kernel_frame :: "kring \<Rightarrow> kring \<Rightarrow> bool" where
  "kernel_frame r r' \<longleftrightarrow> kring_wf r' \<and> mset (live r') = mset (live r) \<and>
     sq_pending (sqRing r') = sq_pending (sqRing r) \<and> sq_cap (sqRing r') = sq_cap (sqRing r) \<and>
     Params r' = Params r \<and> ring_fd r' = ring_fd r \<and> cq_cap (cqRing r') = cq_cap (cqRing r) \<and>
     cq_kHead (cqRing r') = cq_kHead (cqRing r) \<and>
     cq_kRingMask (cqRing r') = cq_kRingMask (cqRing r) \<and>
     (\<exists>new. cq_ready (cqRing r') = cq_ready (cqRing r) @ new)"

lemma kernel_frame_refl: "kring_wf r \<Longrightarrow> kernel_frame r r"
  by (simp add: kernel_frame_def)

lemma kernel_frame_trans: "kernel_frame r s \<Longrightarrow> kernel_frame s t \<Longrightarrow> kernel_frame r t"
  by (auto simp: kernel_frame_def)

lemma kernel_consume_sel [simp]:
  "cqRing (kernel_consume n r) = cqRing r" "Params (kernel_consume n r) = Params r"
  "ring_fd (kernel_consume n r) = ring_fd r"
  "inflight (kernel_consume n (r' :: kring)) = inflight r'"
  by (simp_all add: kernel_consume_def)

lemma kernel_post_sel [simp]:
  "sqRing (kernel_post ev r) = sqRing r" "Params (kernel_post ev r) = Params r"
  "ring_fd (kernel_post ev r) = ring_fd r"
  "cq_kHead (cqRing (kernel_post ev r)) = cq_kHead (cqRing r)"
  "cq_kRingMask (cqRing (kernel_post ev r)) = cq_kRingMask (cqRing r)"
  "cq_cap (cqRing (kernel_post ev r)) = cq_cap (cqRing r)"
  "inflight (kernel_post ev (r' :: kring)) = inflight r'"
  by (simp_all add: kernel_post_def cq_cap_def Let_def)

lemma kernel_step_frame:
  assumes "kernel_step r r'" and wf: "kring_wf r"
  shows "kernel_frame r r'"
  using assms(1)
proof (cases rule: kernel_step.cases)
  case 1: (take_sqes n)
  have sq: "sq_wf (sqRing r)" using wf by (simp add: kring_wf_def)
  let ?p = "sq_published (sqRing r)"
  note c = kernel_consume_ok [OF sq 1(2)]
  have "mset (map sqe_UserData ?p) = mset (map sqe_UserData (take n ?p)) + mset (map sqe_UserData (drop n ?p))"
    by (metis append_take_drop_id map_append mset_append)
  then have "mset (live r') = mset (live r)" using 1 c by (simp add: live_def)
  with 1 c wf show ?thesis by (simp add: kernel_frame_def kring_wf_def)
next
  case 2: (complete ev)
  have cq: "cq_wf (cqRing r)" using wf by (simp add: kring_wf_def)
  note p = kernel_post_ok [OF cq 2(3), of ev]
  have "mset (live r') = mset (live r)"
    using 2 p by (simp add: live_def)
  with 2 p wf show ?thesis by (auto simp: kernel_frame_def kring_wf_def)
next
  case 3: (set_flags f)
  have "sq_wf (sqRing r') = sq_wf (sqRing r)" and "sq_published (sqRing r') = sq_published (sqRing r)"
    and "sq_pending (sqRing r') = sq_pending (sqRing r)" and "sq_cap (sqRing r') = sq_cap (sqRing r)"
    using 3 by (simp_all add: sq_wf_def sq_published_def sq_pending_def sq_cap_def)
  with 3 wf show ?thesis by (simp add: kernel_frame_def kring_wf_def live_def)
qed

lemma kernel_steps_frame: "kernel_step\<^sup>*\<^sup>* r r' \<Longrightarrow> kring_wf r \<Longrightarrow> kernel_frame r r'"
proof (induction rule: rtranclp_induct)
  case base
  then show ?case by (rule kernel_frame_refl)
next
  case (step s t)
  then have "kernel_frame r s" by blast
  moreover from this have "kring_wf s" by (simp add: kernel_frame_def)
  ultimately show ?case using kernel_step_frame step.hyps(2) kernel_frame_trans by blast
qed

lemma conforms_frame:
  assumes "kernel_conforms k" and "kring_wf r" and "k trap args r = (c, e, r')"
  shows "kernel_frame r r'"
  using assms kernel_steps_frame unfolding kernel_conforms_def by (metis snd_conv)

lemma sysEnter2_frame:
  assumes "kernel_conforms k" and "kring_wf r"
    and "sysEnter2 k fd sub wnr fl arg sz raw r = (c, err, r')"
  shows "kernel_frame r r'"
  using assms(1,2) sysEnter2_cases [OF assms(3)] by (metis conforms_frame)

section \<open>Ring operations as seen by an event loop\<close>

text \<open>\<^verbatim>\<open>Submit\<close> publishes everything and loses nothing.\<close>

lemma Submit_frame:
  assumes wf: "kring_wf r" and k: "kernel_conforms k"
  shows "\<exists>c err r'. Submit k r = Ok (c, err, r') \<and> kring_wf r' \<and> mset (live r') = mset (live r) \<and>
     sq_pending (sqRing r') = [] \<and> sq_cap (sqRing r') = sq_cap (sqRing r) \<and> Params r' = Params r"
proof -
  obtain s' cnt where fl: "flushSQ r = Ok (cnt, r\<lparr>sqRing := s'\<rparr>)" "sq_wf s'"
    "sq_published s' = sq_published (sqRing r) @ sq_pending (sqRing r)" "sq_pending s' = []"
    "sq_cap s' = sq_cap (sqRing r)"
    using flushSQ_ok [of r] wf by (auto simp: kring_wf_def)
  let ?r1 = "r\<lparr>sqRing := s'\<rparr>"
  have r1: "kring_wf ?r1" "mset (live ?r1) = mset (live r)" "sq_pending (sqRing ?r1) = []"
    "sq_cap (sqRing ?r1) = sq_cap (sqRing r)" "Params ?r1 = Params r"
    using wf fl by (simp_all add: kring_wf_def live_def)
  obtain need flags where ne: "needsEnter ?r1 0 = (need, flags)" by fastforce
  show ?thesis
  proof (cases need)
    case False
    with fl(1) ne r1 show ?thesis by (simp add: Submit_def Let_def)
  next
    case True
    let ?fl = "if p_flags (Params ?r1) AND setupIOPoll = 1 then flags OR sysRingEnterGetEvents else flags"
    obtain c err r' where se: "sysEnter k (ring_fd ?r1) cnt 0 ?fl 0 True ?r1 = (c, err, r')"
      by (metis prod_cases3)
    have "kernel_frame ?r1 r'"
      using sysEnter2_frame [OF k r1(1)] se unfolding sysEnter_def by blast
    moreover have "Submit k r = Ok (c, err, r')"
      using fl(1) ne True se by (simp add: Submit_def Let_def)
    ultimately show ?thesis using r1 by (auto simp: kernel_frame_def)
  qed
qed

text \<open>
  A batch read by the event loop: the oldest events of the ring it leaves, through pointers
  that read back those events.
\<close>

lemma PeekCQEventBatch_frame:
  assumes wf: "kring_wf r" and k: "kernel_conforms k" and len: "length buff < 2 ^ 32"
  shows "\<exists>n ptrs rest r'. PeekCQEventBatch k r buff = Ok (int n, map Some ptrs @ rest, r') \<and>
     kernel_frame r r' \<and> length ptrs = n \<and> n \<le> length buff \<and> length rest = length buff - n \<and>
     n \<le> length (cq_ready (cqRing r')) \<and>
     map (cqe_at r') ptrs = map Ok (take n (cq_ready (cqRing r'))) \<and>
     (length buff \<noteq> 0 \<and> n = 0 \<longrightarrow> cq_ready (cqRing r') = [])"
proof -
  have cq: "cq_wf (cqRing r)" using wf by (simp add: kring_wf_def)
  obtain n ptrs where p: "peekCQEventBatch r buff = Ok (int n, map Some ptrs @ drop n buff)"
    "length ptrs = n" "n = min (length buff) (length (cq_ready (cqRing r)))"
    "map (cqe_at r) ptrs = map Ok (take n (cq_ready (cqRing r)))"
    using batch_points [OF cq len] by blast
  show ?thesis
  proof (cases "n = 0 \<and> cqNeedFlush (sqRing r)")
    case False
    with p wf show ?thesis
      by (intro exI [of _ n] exI [of _ ptrs] exI [of _ "drop n buff"] exI [of _ r])
        (auto simp: PeekCQEventBatch_def kernel_frame_refl min_def split: if_splits)
  next
    case True
    obtain c err r1 where se: "sysEnter k (ring_fd r) 0 0 sysRingEnterGetEvents 0 False r = (c, err, r1)"
      by (metis prod_cases3)
    have fr: "kernel_frame r r1" using sysEnter2_frame [OF k wf] se unfolding sysEnter_def by blast
    then have wf1: "kring_wf r1" by (simp add: kernel_frame_def)
    obtain n' ptrs' where p': "peekCQEventBatch r1 buff = Ok (int n', map Some ptrs' @ drop n' buff)"
      "length ptrs' = n'" "n' = min (length buff) (length (cq_ready (cqRing r1)))"
      "map (cqe_at r1) ptrs' = map Ok (take n' (cq_ready (cqRing r1)))"
      using batch_points [OF _ len] wf1 unfolding kring_wf_def by blast
    have "PeekCQEventBatch k r buff = Ok (int n', map Some ptrs' @ drop n' buff, r1)"
      using True p se p'(1) by (simp add: PeekCQEventBatch_def)
    with p' fr show ?thesis
      by (intro exI [of _ n'] exI [of _ ptrs'] exI [of _ "drop n' buff"] exI [of _ r1])
        (auto simp: min_def split: if_splits)
  qed
qed

text \<open>Removing the first \<open>n\<close> waiting events settles what the ring owed for them.\<close>

lemma AdvanceCQ_live:
  assumes wf: "kring_wf r" and n: "n \<le> length (cq_ready (cqRing r))"
  shows "kring_wf (AdvanceCQ (of_nat n) r)"
    and "mset (live r) = mset (live (AdvanceCQ (of_nat n) r))
           + mset (map cqe_UserData (take n (cq_ready (cqRing r))))"
proof -
  have cq: "cq_wf (cqRing r)" using wf by (simp add: kring_wf_def)
  note a = AdvanceCQ_ok [OF cq n]
  show "kring_wf (AdvanceCQ (of_nat n) r)" using wf a by (simp add: kring_wf_def)
  have "inflight (AdvanceCQ (of_nat n) r) = inflight r" by (simp add: AdvanceCQ_def Let_def)
  moreover have "mset (map cqe_UserData (cq_ready (cqRing r)))
      = mset (map cqe_UserData (take n (cq_ready (cqRing r))))
        + mset (map cqe_UserData (drop n (cq_ready (cqRing r))))"
    by (metis append_take_drop_id map_append mset_append)
  ultimately show "mset (live r) = mset (live (AdvanceCQ (of_nat n) r))
           + mset (map cqe_UserData (take n (cq_ready (cqRing r))))"
    using a(2) by (simp add: live_def)
qed

text \<open>
  What queueing does to a well-formed ring: nothing on overflow, otherwise it owes one more
  completion, with the given user data.
\<close>

lemma QueueSQE_live:
  assumes wf: "kring_wf r" and q: "QueueSQE spec op fl ud r = Ok (err, r')"
  shows "kring_wf r' \<and> (err = None \<longrightarrow> mset (live r') = add_mset ud (mset (live r))) \<and>
     (err \<noteq> None \<longrightarrow> r' = r \<and> err = Some ErrSQOverflow)"
proof -
  have sq: "sq_wf (sqRing r)" using wf by (simp add: kring_wf_def)
  consider (full) "length (sq_published (sqRing r)) + length (sq_pending (sqRing r)) = sq_cap (sqRing r)"
    | (fits) "length (sq_published (sqRing r)) + length (sq_pending (sqRing r)) < sq_cap (sqRing r)"
    using sq_used(2) [OF sq] by linarith
  then show ?thesis
  proof cases
    case full
    with q wf QueueSQE_full [OF sq full] show ?thesis by auto
  next
    case fits
    from q obtain e where e: "uop.entry spec op fl ud = Ok e" "err = None"
      "r' = r\<lparr>sqRing := sq_push e (sqRing r)\<rparr>"
      by (auto simp: QueueSQE_fits [OF sq fits] go_outcome)
    with wf sq_push_wf [OF sq fits, of e] sq_push_contents [OF sq fits, of e]
      uop.entry_sel(3) [OF e(1)]
    show ?thesis by (simp add: kring_wf_def live_def)
  qed
qed

section \<open>Waiting, as seen by an event loop\<close>

text \<open>A conforming kernel only appends to the completion queue, whatever the other queue holds.\<close>

definition cq_extends :: "cq \<Rightarrow> cq \<Rightarrow> bool" where
  "cq_extends c c' \<longleftrightarrow> cq_wf c' \<and> cq_cap c' = cq_cap c \<and> cq_kHead c' = cq_kHead c \<and>
     cq_kRingMask c' = cq_kRingMask c \<and> (\<exists>new. cq_ready c' = cq_ready c @ new)"

lemma kernel_steps_extend:
  "kernel_step\<^sup>*\<^sup>* r r' \<Longrightarrow> cq_wf (cqRing r) \<Longrightarrow> cq_extends (cqRing r) (cqRing r') \<and> Params r' = Params r"
proof (induction rule: rtranclp_induct)
  case base
  then show ?case by (simp add: cq_extends_def)
next
  case (step s t)
  then have IH: "cq_extends (cqRing r) (cqRing s)" "Params s = Params r" by auto
  from step.hyps(2) show ?case
  proof (cases rule: kernel_step.cases)
    case (complete ev)
    with IH kernel_post_ok [of s ev] show ?thesis by (auto simp: cq_extends_def)
  qed (use IH in auto)
qed

lemma conforms_completes: "kernel_conforms k \<Longrightarrow> kernel_completes k"
  using kernel_steps_extend unfolding kernel_conforms_def kernel_completes_def cq_extends_def
  by (metis snd_conv)

text \<open>Whatever round the loop of \<^verbatim>\<open>getCQEvents\<close> is in, only the kernel changes the ring.\<close>

lemma get_iter_frame:
  assumes wf: "kring_wf r" and ext: "ExtArgFeature (Params r)" and k: "kernel_conforms k"
  shows "\<exists>st. get_iter k params r = Ok st \<and>
     (case st of Break p err r' \<Rightarrow> kernel_frame r r' | Again params' r' \<Rightarrow> kernel_frame r r')"
proof -
  have cq: "cq_wf (cqRing r)" using wf by (simp add: kring_wf_def)
  obtain av p where pk: "peekCQEvent r = Ok (av, p, None, r)"
    using peekCQEvent_ext [OF cq ext] by (cases "cq_ready (cqRing r) = []") auto
  let ?w = "av < gp_waitNr params \<or> p = None \<and> gp_waitNr params = 0 \<and> gp_submit params = 0"
  let ?f1 = "if ?w then sysRingEnterGetEvents OR gp_flags params else 0"
  let ?f2 = "if gp_submit params \<noteq> 0 then snd (needsEnter r ?f1) else ?f1"
  obtain c err r' where se: "sysEnter2 k (ring_fd r) (gp_submit params) (gp_waitNr params) ?f2
      (gp_arg params) (gp_sz params) False r = (c, err, r')" by (metis prod_cases3)
  have fr: "kernel_frame r r'" by (rule sysEnter2_frame [OF k wf se])
  consider (idle) "p = None \<and> gp_waitNr params = 0 \<and> gp_submit params = 0 \<and> \<not> cqNeedFlush (sqRing r)"
    | (rest) "\<not> (p = None \<and> gp_waitNr params = 0 \<and> gp_submit params = 0 \<and> \<not> cqNeedFlush (sqRing r))" "\<not> (?w \<or> gp_submit params \<noteq> 0)"
    | (enter) "\<not> (p = None \<and> gp_waitNr params = 0 \<and> gp_submit params = 0 \<and> \<not> cqNeedFlush (sqRing r))" "?w \<or> gp_submit params \<noteq> 0"
    by blast
  then show ?thesis
  proof cases
    case idle
    then show ?thesis by (simp add: get_iter_def pk kernel_frame_refl [OF wf])
  next
    case rest
    then have "get_iter k params r = Ok (Break p None r)"
      by (auto simp: get_iter_def pk Let_def)
    then show ?thesis by (simp add: kernel_frame_refl [OF wf])
  next
    case enter
    then have "get_iter k params r = Ok (if err \<noteq> None then Break p err r' else if p \<noteq> None
        then Break p None r' else Again (params\<lparr>gp_submit := gp_submit params - ucast c\<rparr>) r')"
      using enter(1) unfolding get_iter_def pk Let_def
      by (simp only: obind.simps prod.case simp_thms if_False if_True se) (auto simp: se)
    then show ?thesis using fr by simp
  qed
qed

lemma getCQEvents_frame:
  assumes "getCQEvents k params r = Some res" and "kernel_conforms k"
    and "kring_wf r" and "ExtArgFeature (Params r)"
  shows "\<exists>p err r'. res = Ok (p, err, r') \<and> kernel_frame r r'"
proof -
  let ?P = "\<lambda>k params r res. kernel_conforms k \<longrightarrow> kring_wf r \<longrightarrow> ExtArgFeature (Params r) \<longrightarrow>
     (\<exists>p err r'. res = Ok (p, err, r') \<and> kernel_frame r r')"
  have "?P k params r res"
  proof (rule getCQEvents.raw_induct [of ?P, OF _ assms(1)], intro impI)
    fix get k params r res
    assume IH: "\<And>k params r res. get k params r = Some res \<Longrightarrow> ?P k params r res"
      and run: "(case get_iter k params r of Ok st \<Rightarrow> (case st of Break p err r' \<Rightarrow> Some (Ok (p, err, r'))
          | Again params' r' \<Rightarrow> get k params' r') | Panic p \<Rightarrow> Some (Panic p)) = Some res"
      and k: "kernel_conforms k" and wf: "kring_wf r" and ext: "ExtArgFeature (Params r)"
    from get_iter_frame [OF wf ext k] obtain st where st: "get_iter k params r = Ok st"
      "case st of Break p err r' \<Rightarrow> kernel_frame r r' | Again params' r' \<Rightarrow> kernel_frame r r'" by blast
    show "\<exists>p err r'. res = Ok (p, err, r') \<and> kernel_frame r r'"
    proof (cases st)
      case (Break p err r')
      with run st show ?thesis by auto
    next
      case (Again params' r')
      then have fr: "kernel_frame r r'" and "get k params' r' = Some res" using run st by auto
      moreover have "kring_wf r'" "ExtArgFeature (Params r')"
        using fr ext by (simp_all add: kernel_frame_def)
      ultimately show ?thesis using IH k kernel_frame_trans by blast
    qed
  qed
  with assms(2-4) show ?thesis by blast
qed

section \<open>A small ring with its kernel\<close>

text \<open>
  The ring of the witnesses with no request in flight, and a kernel whose every call is
  interrupted by a signal (\<^verbatim>\<open>EINTR\<close> is 4).
\<close>

definition ex_kring :: kring where
  "ex_kring = \<lparr>ring_fd = 5, Params = ex_params, cqRing = cqRing ex_ring, sqRing = sqRing ex_ring,
     inflight = []\<rparr>"

definition ex_intr :: "kring kernel" where
  "ex_intr trap args r = (0, 4, r)"

lemma ex_kring_wf: "kring_wf ex_kring" "live ex_kring = []" "ExtArgFeature (Params ex_kring)"
  "FastPollFeature (Params ex_kring)"
  using ex_ring_sq ex_ring_cq ex_ring_ext
  by (simp_all add: kring_wf_def live_def ex_kring_def)
    (simp_all add: ex_ring_def ex_params_def FastPollFeature_def featFastPoll_def)

lemma ex_kring_room:
  "length (sq_published (sqRing ex_kring)) + length (sq_pending (sqRing ex_kring)) = 0"
  "sq_cap (sqRing ex_kring) = 4"
  using ex_ring_sq by (simp_all add: ex_kring_def del: length_sq_published length_sq_pending)

lemma ex_intr_ok: "kernel_conforms ex_intr" "kernel_waits ex_intr"
  by (simp_all add: kernel_conforms_def kernel_waits_def ex_intr_def)

text \<open>A kernel that is always busy (\<^verbatim>\<open>EBUSY\<close> is 16).\<close>

definition ex_busy :: "kring kernel" where
  "ex_busy trap args r = (0, 16, r)"

lemma ex_busy_ok: "kernel_conforms ex_busy"
  by (simp add: kernel_conforms_def ex_busy_def)

text \<open>The ring with three and with all four of its slots pending.\<close>

definition ex_three :: kring where
  "ex_three = ex_kring\<lparr>sqRing := (sqRing ex_ring)\<lparr>sqeTail := 1\<rparr>\<rparr>"

definition ex_full :: kring where
  "ex_full = ex_kring\<lparr>sqRing := (sqRing ex_ring)\<lparr>sqeTail := 2\<rparr>\<rparr>"

lemma ex_three_wf: "kring_wf ex_three"
  "length (sq_published (sqRing ex_three)) + length (sq_pending (sqRing ex_three)) + 1 = sq_cap (sqRing ex_three)"
  using pow2_ring_4 ex_ring_cq(1)
  by (auto simp: ex_three_def ex_kring_def kring_wf_def ex_ring_def sq_wf_def sq_cap_def intro!: bexI [of _ 2])

lemma ex_full_wf: "kring_wf ex_full"
  "length (sq_published (sqRing ex_full)) + length (sq_pending (sqRing ex_full)) = sq_cap (sqRing ex_full)"
  using pow2_ring_4 ex_ring_cq(1)
  by (auto simp: ex_full_def ex_kring_def kring_wf_def ex_ring_def sq_wf_def sq_cap_def intro!: bexI [of _ 2])

lemma ex_busy_submit:
  "\<exists>c r'. Submit ex_busy ex_three = Ok (c, Some (SyscallError ''io_uring_enter'' (Errno 16)), r')"
proof -
  have sq: "sq_wf (sqRing ex_three)" using ex_three_wf(1) by (simp add: kring_wf_def)
  obtain s' cnt where f: "flushSQ ex_three = Ok (cnt, ex_three\<lparr>sqRing := s'\<rparr>)"
    using flushSQ_ok [OF sq] by blast
  have "p_flags (Params ex_three) = 0" by (simp add: ex_three_def ex_kring_def ex_params_def)
  with f show ?thesis
    by (simp add: Submit_def needsEnter_def sysEnter_def sysEnter2_def RawSyscall6_def NewSyscallError_def ex_busy_def)
qed

section \<open>Properties\<close>

text \<open>
  C29. \<^verbatim>\<open>Submit\<close> never loses a request: with a conforming kernel it returns, with an error or
  not, leaves nothing pending, and every request owed a completion before is owed one after.
\<close>

theorem Submit_keeps_requests:
  assumes "kring_wf r" and "kernel_conforms k"
  shows "\<exists>c err r'. Submit k r = Ok (c, err, r') \<and> kring_wf r' \<and> sq_pending (sqRing r') = [] \<and>
     mset (live r') = mset (live r)"
  using Submit_frame [OF assms] by blast

theorem Submit_keeps_requests_witness:
  "\<exists>c err r'. Submit ex_intr ex_kring = Ok (c, err, r') \<and> mset (live r') = {#}"
  using Submit_keeps_requests [OF ex_kring_wf(1) ex_intr_ok(1)] by (auto simp: ex_kring_wf(2))

end
