(* ===== verification/Reactor_Registry.thy ===== *)
theory Reactor_Registry
  imports Uring_Prelude
begin

text \<open>
  The callback registry of \<^verbatim>\<open>src/reactor/registry.go\<close>. A shard keeps, for each descriptor
  index, a nonce counter and a map from nonces to callbacks: in arrays below \<^verbatim>\<open>boundary\<close>, in
  maps above it. The registry spreads descriptors over shards in granules.

  A callback is a Go function value, \<open>None\<close> when it is nil; a missing map entry reads as nil.
  The mutex makes each operation one step, and the nonce comes from an atomic increment.
\<close>

section \<open>Shards\<close>

type_synonym 'cb cbMap = "u32 \<rightharpoonup> 'cb option"

record 'cb shard =
  nonces :: "u32 list"
  callbacks :: "'cb cbMap list"
  boundary :: int
  slowCallbacks :: "int \<rightharpoonup> 'cb cbMap"
  slowNonces :: "int \<rightharpoonup> u32"

definition newShard :: "int \<Rightarrow> 'cb shard outcome" where
  "newShard fCap =
     (if fCap < 0 then Panic MakeSliceLen
      else Ok \<lparr>nonces = replicate (nat fCap) 0, callbacks = replicate (nat fCap) Map.empty,
               boundary = fCap, slowCallbacks = Map.empty, slowNonces = Map.empty\<rparr>)"

text \<open>\<^verbatim>\<open>m[k]\<close> on a map of numbers or of functions: the zero value when the key is missing.\<close>

definition map_read :: "('a \<rightharpoonup> 'b) \<Rightarrow> 'b \<Rightarrow> 'a \<Rightarrow> 'b" where
  "map_read m z k = (case m k of None \<Rightarrow> z | Some v \<Rightarrow> v)"

definition shard_add :: "int \<Rightarrow> 'cb option \<Rightarrow> 'cb shard \<Rightarrow> (u32 \<times> 'cb shard) outcome" where
  "shard_add idx cb sh =
     (if idx < boundary sh then
        (if 0 \<le> idx \<and> nat idx < length (nonces sh) \<and> nat idx < length (callbacks sh) then
           let n = nonces sh ! nat idx + 1;
               sh1 = sh\<lparr>nonces := (nonces sh)[nat idx := n]\<rparr>
           in Ok (n, sh1\<lparr>callbacks := (callbacks sh)[nat idx := (callbacks sh ! nat idx)(n \<mapsto> cb)]\<rparr>)
         else Panic IndexOutOfRange)
      else
        let n = map_read (slowNonces sh) 0 idx + 1;
            sh1 = sh\<lparr>slowNonces := (slowNonces sh)(idx \<mapsto> n)\<rparr>;
            m = map_read (slowCallbacks sh) Map.empty idx
        in Ok (n, sh1\<lparr>slowCallbacks := (slowCallbacks sh)(idx \<mapsto> m(n \<mapsto> cb))\<rparr>))"

definition shard_pop :: "int \<Rightarrow> u32 \<Rightarrow> 'cb shard \<Rightarrow> ('cb option \<times> 'cb shard) outcome" where
  "shard_pop idx nonce sh =
     (if idx < boundary sh then
        (if 0 \<le> idx \<and> nat idx < length (callbacks sh) then
           let m = callbacks sh ! nat idx
           in Ok (map_read m None nonce, sh\<lparr>callbacks := (callbacks sh)[nat idx := m(nonce := None)]\<rparr>)
         else Panic IndexOutOfRange)
      else
        (case slowCallbacks sh idx of
           None \<Rightarrow> Ok (None, sh)
         | Some m \<Rightarrow> Ok (map_read m None nonce,
                         sh\<lparr>slowCallbacks := (slowCallbacks sh)(idx \<mapsto> m(nonce := None))\<rparr>)))"

section \<open>The registry\<close>

record 'cb cbRegistry =
  reg_shards :: "'cb shard list"
  granularity :: int
  shardCnt :: int

fun newShards :: "nat \<Rightarrow> int \<Rightarrow> 'cb shard list outcome" where
  "newShards 0 fCap = Ok []"
| "newShards (Suc n) fCap =
     obind (newShard fCap) (\<lambda>s. obind (newShards n fCap) (\<lambda>ss. Ok (s # ss)))"

definition newCbRegistry :: "int \<Rightarrow> int \<Rightarrow> 'cb cbRegistry outcome" where
  "newCbRegistry shardCount gran =
     (if shardCount < 0 then Panic MakeSliceLen
      else obind (newShards (nat shardCount) (go_quot (2 ^ 16) shardCount)) (\<lambda>ss.
        Ok \<lparr>reg_shards = ss, granularity = gran, shardCnt = shardCount\<rparr>))"

definition shardNumAndFlattenIdx :: "'cb cbRegistry \<Rightarrow> int \<Rightarrow> (int \<times> int) outcome" where
  "shardNumAndFlattenIdx r fd =
     (if granularity r = 0 \<or> shardCnt r = 0 then Panic DivideByZero
      else let gNum = go_quot fd (granularity r)
           in Ok (go_rem gNum (shardCnt r),
                  go_quot gNum (shardCnt r) * granularity r + go_rem fd (granularity r)))"

definition registry_add :: "int \<Rightarrow> 'cb option \<Rightarrow> 'cb cbRegistry \<Rightarrow> (u32 \<times> 'cb cbRegistry) outcome" where
  "registry_add fd cb r =
     obind (shardNumAndFlattenIdx r fd) (\<lambda>(shardNum, idx).
       if 0 \<le> shardNum \<and> nat shardNum < length (reg_shards r)
       then obind (shard_add idx cb (reg_shards r ! nat shardNum)) (\<lambda>(n, sh).
              Ok (n, r\<lparr>reg_shards := (reg_shards r)[nat shardNum := sh]\<rparr>))
       else Panic IndexOutOfRange)"

definition registry_pop :: "int \<Rightarrow> u32 \<Rightarrow> 'cb cbRegistry \<Rightarrow> ('cb option \<times> 'cb cbRegistry) outcome" where
  "registry_pop fd nonce r =
     obind (shardNumAndFlattenIdx r fd) (\<lambda>(shardNum, idx).
       if 0 \<le> shardNum \<and> nat shardNum < length (reg_shards r)
       then obind (shard_pop idx nonce (reg_shards r ! nat shardNum)) (\<lambda>(cb, sh).
              Ok (cb, r\<lparr>reg_shards := (reg_shards r)[nat shardNum := sh]\<rparr>))
       else Panic IndexOutOfRange)"

section \<open>The contract of a callback store\<close>

text \<open>
  What the event loops rely on: \<open>add\<close> stores under the next nonce of the key and changes
  nothing else; \<open>pop\<close> returns what is stored (nil if nothing is) and removes exactly that.
\<close>

datatype ('k, 'cb) store_op = AddOp 'k "'cb option" | PopOp 'k u32

fun store_exec ::
  "('k \<Rightarrow> 'cb option \<Rightarrow> 's \<Rightarrow> (u32 \<times> 's) outcome) \<Rightarrow> ('k \<Rightarrow> u32 \<Rightarrow> 's \<Rightarrow> ('cb option \<times> 's) outcome) \<Rightarrow>
   ('k, 'cb) store_op list \<Rightarrow> 's \<Rightarrow> 's outcome" where
  "store_exec add pop [] s = Ok s"
| "store_exec add pop (AddOp k cb # ops) s = obind (add k cb s) (\<lambda>(_, s'). store_exec add pop ops s')"
| "store_exec add pop (PopOp k n # ops) s = obind (pop k n s) (\<lambda>(_, s'). store_exec add pop ops s')"

fun adds_to :: "'k \<Rightarrow> ('k, 'cb) store_op list \<Rightarrow> nat" where
  "adds_to k [] = 0"
| "adds_to k (AddOp k' _ # ops) = (if k' = k then Suc (adds_to k ops) else adds_to k ops)"
| "adds_to k (PopOp _ _ # ops) = adds_to k ops"

fun op_key :: "('k, 'cb) store_op \<Rightarrow> 'k" where
  "op_key (AddOp k _) = k"
| "op_key (PopOp k _) = k"

locale callback_store =
  fixes invar :: "'s \<Rightarrow> bool"
    and key :: "'k \<Rightarrow> bool"
    and nonce_of :: "'s \<Rightarrow> 'k \<Rightarrow> u32"
    and lookup :: "'s \<Rightarrow> 'k \<Rightarrow> 'cb cbMap"
    and add :: "'k \<Rightarrow> 'cb option \<Rightarrow> 's \<Rightarrow> (u32 \<times> 's) outcome"
    and pop :: "'k \<Rightarrow> u32 \<Rightarrow> 's \<Rightarrow> ('cb option \<times> 's) outcome"
  assumes add_ok: "invar s \<Longrightarrow> key k \<Longrightarrow>
        \<exists>s'. add k cb s = Ok (nonce_of s k + 1, s') \<and> invar s' \<and>
          (\<forall>k'. key k' \<longrightarrow> nonce_of s' k' = (if k' = k then nonce_of s k + 1 else nonce_of s k')) \<and>
          (\<forall>k'. key k' \<longrightarrow> lookup s' k' =
             (if k' = k then (lookup s k)(nonce_of s k + 1 \<mapsto> cb) else lookup s k'))"
    and pop_ok: "invar s \<Longrightarrow> key k \<Longrightarrow>
        \<exists>s'. pop k n s = Ok (map_read (lookup s k) None n, s') \<and> invar s' \<and>
          (\<forall>k'. key k' \<longrightarrow> nonce_of s' k' = nonce_of s k') \<and>
          (\<forall>k'. key k' \<longrightarrow> lookup s' k' = (if k' = k then (lookup s k)(n := None) else lookup s k'))"
begin

lemma pop_after_add:
  assumes "invar s" and "key k" and "add k cb s = Ok (n, s')"
  shows "\<exists>s''. pop k n s' = Ok (cb, s'') \<and> invar s'' \<and> lookup s'' k n = None"
proof -
  from add_ok [OF assms(1,2), of cb] assms(3)
  have "invar s'" and "n = nonce_of s k + 1" and "lookup s' k n = Some cb"
    using assms(2) by auto
  with pop_ok [of s' k n] assms(2) show ?thesis by (fastforce simp: map_read_def)
qed

text \<open>
  A stored callback stays under its nonce through every sequence of other operations, as
  long as fewer than \<open>2 ^ 32\<close> further callbacks are added for the same key.
\<close>

lemma exec_keeps:
  assumes "invar s" and "key k" and "lookup s k n = Some cb"
    and "\<And>x. x \<in> set ops \<Longrightarrow> key (op_key x)" and "PopOp k n \<notin> set ops"
    and "unat (nonce_of s k - n) + adds_to k ops < 2 ^ 32"
  shows "\<exists>s'. store_exec add pop ops s = Ok s' \<and> invar s' \<and> lookup s' k n = Some cb"
  using assms
proof (induction ops arbitrary: s)
  case Nil
  then show ?case by simp
next
  case (Cons x ops)
  note key = Cons.prems(4) [OF list.set_intros(1)] and tl = Cons.prems(4) [OF list.set_intros(2)]
  show ?case
  proof (cases x)
    case (AddOp k' cb')
    with key have k': "key k'" by simp
    obtain s1 where s1: "add k' cb' s = Ok (nonce_of s k' + 1, s1)" "invar s1"
      "nonce_of s1 k = (if k = k' then nonce_of s k + 1 else nonce_of s k)"
      "lookup s1 k = (if k = k' then (lookup s k)(nonce_of s k + 1 \<mapsto> cb') else lookup s k)"
      using add_ok [OF Cons.prems(1) k', of cb'] Cons.prems(2) by metis
    have fresh: "k = k' \<Longrightarrow> unat (nonce_of s k + 1 - n) = unat (nonce_of s k - n) + 1"
      using unat_diff_grow [of "nonce_of s k" n 1] Cons.prems(6) AddOp by simp
    then have "k = k' \<Longrightarrow> nonce_of s k + 1 \<noteq> n" by auto
    then have "lookup s1 k n = Some cb" using s1(4) Cons.prems(3) by auto
    moreover have "unat (nonce_of s1 k - n) + adds_to k ops < 2 ^ 32"
      using Cons.prems(6) AddOp fresh s1(3) by (auto split: if_splits)
    ultimately show ?thesis
      using Cons.IH [OF s1(2) Cons.prems(2)] tl Cons.prems(5) s1(1) AddOp by auto
  next
    case (PopOp k' m)
    with key have k': "key k'" by simp
    obtain v s1 where s1: "pop k' m s = Ok (v, s1)" "invar s1" "nonce_of s1 k = nonce_of s k"
      "lookup s1 k = (if k = k' then (lookup s k)(m := None) else lookup s k)"
      using pop_ok [OF Cons.prems(1) k', of m] Cons.prems(2) by metis
    have "lookup s1 k n = Some cb" using s1(4) Cons.prems(3,5) PopOp by auto
    then show ?thesis
      using Cons.IH [OF s1(2) Cons.prems(2)] tl Cons.prems(5,6) s1(1,3) PopOp by auto
  qed
qed

end

section \<open>Shards implement the contract\<close>

definition shard_inv :: "'cb shard \<Rightarrow> bool" where
  "shard_inv sh \<longleftrightarrow> 0 \<le> boundary sh \<and> length (nonces sh) = nat (boundary sh) \<and>
     length (callbacks sh) = nat (boundary sh)"

definition shard_nonce :: "'cb shard \<Rightarrow> int \<Rightarrow> u32" where
  "shard_nonce sh idx =
     (if idx < boundary sh then nonces sh ! nat idx else map_read (slowNonces sh) 0 idx)"

definition shard_lookup :: "'cb shard \<Rightarrow> int \<Rightarrow> 'cb cbMap" where
  "shard_lookup sh idx =
     (if idx < boundary sh then callbacks sh ! nat idx
      else map_read (slowCallbacks sh) Map.empty idx)"

lemma shard_add_ok:
  assumes "shard_inv sh" and "0 \<le> idx"
  shows "\<exists>sh'. shard_add idx cb sh = Ok (shard_nonce sh idx + 1, sh') \<and> shard_inv sh' \<and>
     (\<forall>j. 0 \<le> j \<longrightarrow> shard_nonce sh' j = (if j = idx then shard_nonce sh idx + 1 else shard_nonce sh j)) \<and>
     (\<forall>j. 0 \<le> j \<longrightarrow> shard_lookup sh' j =
        (if j = idx then (shard_lookup sh idx)(shard_nonce sh idx + 1 \<mapsto> cb) else shard_lookup sh j))"
proof (cases "idx < boundary sh")
  case True
  with assms show ?thesis
    by (auto simp: shard_add_def shard_inv_def shard_nonce_def shard_lookup_def Let_def
        nth_list_update)
next
  case False
  with assms show ?thesis
    by (auto simp: shard_add_def shard_inv_def shard_nonce_def shard_lookup_def Let_def map_read_def)
qed

lemma shard_pop_ok:
  assumes "shard_inv sh" and "0 \<le> idx"
  shows "\<exists>sh'. shard_pop idx n sh = Ok (map_read (shard_lookup sh idx) None n, sh') \<and> shard_inv sh' \<and>
     (\<forall>j. 0 \<le> j \<longrightarrow> shard_nonce sh' j = shard_nonce sh j) \<and>
     (\<forall>j. 0 \<le> j \<longrightarrow> shard_lookup sh' j =
        (if j = idx then (shard_lookup sh idx)(n := None) else shard_lookup sh j))"
proof (cases "idx < boundary sh")
  case True
  with assms show ?thesis
    by (auto simp: shard_pop_def shard_inv_def shard_nonce_def shard_lookup_def Let_def
        nth_list_update)
next
  case False
  with assms show ?thesis
    by (cases "slowCallbacks sh idx")
      (auto simp: shard_pop_def shard_inv_def shard_nonce_def shard_lookup_def map_read_def)
qed

interpretation shd: callback_store
  shard_inv "\<lambda>idx. 0 \<le> idx" shard_nonce shard_lookup shard_add shard_pop
  by unfold_locales (fact shard_add_ok, fact shard_pop_ok)

section \<open>Spreading a store over shards\<close>

text \<open>
  A family of stores addressed through an injective route is again a store, for the keys of
  the route. This is what the registry is, with \<^verbatim>\<open>shardNumAndFlattenIdx\<close> as the route.
\<close>

locale sharded_store = callback_store invar key nonce_of lookup add pop
  for invar :: "'s \<Rightarrow> bool" and key :: "'k \<Rightarrow> bool" and nonce_of :: "'s \<Rightarrow> 'k \<Rightarrow> u32"
    and lookup :: "'s \<Rightarrow> 'k \<Rightarrow> 'cb cbMap"
    and add :: "'k \<Rightarrow> 'cb option \<Rightarrow> 's \<Rightarrow> (u32 \<times> 's) outcome"
    and pop :: "'k \<Rightarrow> u32 \<Rightarrow> 's \<Rightarrow> ('cb option \<times> 's) outcome" +
  fixes fkey :: "'f \<Rightarrow> bool" and route :: "'f \<Rightarrow> nat \<times> 'k" and cnt :: nat
  assumes route_range: "fkey f \<Longrightarrow> fst (route f) < cnt \<and> key (snd (route f))"
    and route_inj: "fkey f \<Longrightarrow> fkey g \<Longrightarrow> route f = route g \<Longrightarrow> f = g"
begin

definition all_invar :: "'s list \<Rightarrow> bool" where
  "all_invar ss \<longleftrightarrow> length ss = cnt \<and> (\<forall>s\<in>set ss. invar s)"

definition route_nonce :: "'s list \<Rightarrow> 'f \<Rightarrow> u32" where
  "route_nonce ss f = nonce_of (ss ! fst (route f)) (snd (route f))"

definition route_lookup :: "'s list \<Rightarrow> 'f \<Rightarrow> 'cb cbMap" where
  "route_lookup ss f = lookup (ss ! fst (route f)) (snd (route f))"

definition route_add :: "'f \<Rightarrow> 'cb option \<Rightarrow> 's list \<Rightarrow> (u32 \<times> 's list) outcome" where
  "route_add f cb ss = obind (add (snd (route f)) cb (ss ! fst (route f)))
     (\<lambda>(n, s). Ok (n, ss[fst (route f) := s]))"

definition route_pop :: "'f \<Rightarrow> u32 \<Rightarrow> 's list \<Rightarrow> ('cb option \<times> 's list) outcome" where
  "route_pop f n ss = obind (pop (snd (route f)) n (ss ! fst (route f)))
     (\<lambda>(v, s). Ok (v, ss[fst (route f) := s]))"

lemma route_same_shard:
  "fkey f \<Longrightarrow> fkey g \<Longrightarrow> fst (route f) = fst (route g) \<Longrightarrow> snd (route f) = snd (route g) \<longleftrightarrow> f = g"
  by (metis prod_eqI route_inj)

lemma all_invar_nth: "all_invar ss \<Longrightarrow> fkey f \<Longrightarrow> invar (ss ! fst (route f))"
  by (simp add: all_invar_def route_range)

lemma all_invar_update: "all_invar ss \<Longrightarrow> invar s \<Longrightarrow> all_invar (ss[i := s])"
  by (auto simp: all_invar_def dest: set_update_subset_insert [THEN subsetD])

lemma nth_route_update:
  "all_invar ss \<Longrightarrow> fkey f \<Longrightarrow> fkey g \<Longrightarrow>
     ss[fst (route f) := s] ! fst (route g) = (if fst (route g) = fst (route f) then s else ss ! fst (route g))"
  by (simp add: all_invar_def route_range nth_list_update)

lemma route_add_ok:
  assumes "all_invar ss" and "fkey f"
  shows "\<exists>ss'. route_add f cb ss = Ok (route_nonce ss f + 1, ss') \<and> all_invar ss' \<and>
     (\<forall>g. fkey g \<longrightarrow> route_nonce ss' g = (if g = f then route_nonce ss f + 1 else route_nonce ss g)) \<and>
     (\<forall>g. fkey g \<longrightarrow> route_lookup ss' g =
        (if g = f then (route_lookup ss f)(route_nonce ss f + 1 \<mapsto> cb) else route_lookup ss g))"
proof -
  let ?i = "fst (route f)" and ?k = "snd (route f)"
  have k: "key ?k" using route_range assms(2) by blast
  obtain s' where s': "add ?k cb (ss ! ?i) = Ok (nonce_of (ss ! ?i) ?k + 1, s')" "invar s'"
    "\<And>k'. key k' \<Longrightarrow> nonce_of s' k'
        = (if k' = ?k then nonce_of (ss ! ?i) ?k + 1 else nonce_of (ss ! ?i) k')"
    "\<And>k'. key k' \<Longrightarrow> lookup s' k' = (if k' = ?k
        then (lookup (ss ! ?i) ?k)(nonce_of (ss ! ?i) ?k + 1 \<mapsto> cb) else lookup (ss ! ?i) k')"
    using add_ok [OF all_invar_nth [OF assms] k, of cb] by metis
  show ?thesis
  proof (intro exI [of _ "ss[?i := s']"] conjI allI impI)
    show "route_add f cb ss = Ok (route_nonce ss f + 1, ss[?i := s'])"
      using s'(1) by (simp add: route_add_def route_nonce_def)
    show "all_invar (ss[?i := s'])" using all_invar_update assms(1) s'(2) by blast
    fix g assume g: "fkey g"
    have kg: "key (snd (route g))" using route_range g by blast
    show "route_nonce (ss[?i := s']) g = (if g = f then route_nonce ss f + 1 else route_nonce ss g)"
      using nth_route_update [OF assms g] s'(3) [OF kg] route_same_shard [OF g assms(2)]
      by (auto simp: route_nonce_def)
    show "route_lookup (ss[?i := s']) g
        = (if g = f then (route_lookup ss f)(route_nonce ss f + 1 \<mapsto> cb) else route_lookup ss g)"
      using nth_route_update [OF assms g] s'(4) [OF kg] route_same_shard [OF g assms(2)]
      by (auto simp: route_nonce_def route_lookup_def)
  qed
qed

lemma route_pop_ok:
  assumes "all_invar ss" and "fkey f"
  shows "\<exists>ss'. route_pop f n ss = Ok (map_read (route_lookup ss f) None n, ss') \<and> all_invar ss' \<and>
     (\<forall>g. fkey g \<longrightarrow> route_nonce ss' g = route_nonce ss g) \<and>
     (\<forall>g. fkey g \<longrightarrow> route_lookup ss' g = (if g = f then (route_lookup ss f)(n := None) else route_lookup ss g))"
proof -
  let ?i = "fst (route f)" and ?k = "snd (route f)"
  have k: "key ?k" using route_range assms(2) by blast
  obtain s' where s': "pop ?k n (ss ! ?i) = Ok (map_read (lookup (ss ! ?i) ?k) None n, s')" "invar s'"
    "\<And>k'. key k' \<Longrightarrow> nonce_of s' k' = nonce_of (ss ! ?i) k'"
    "\<And>k'. key k' \<Longrightarrow> lookup s' k'
        = (if k' = ?k then (lookup (ss ! ?i) ?k)(n := None) else lookup (ss ! ?i) k')"
    using pop_ok [OF all_invar_nth [OF assms] k, of n] by metis
  show ?thesis
  proof (intro exI [of _ "ss[?i := s']"] conjI allI impI)
    show "route_pop f n ss = Ok (map_read (route_lookup ss f) None n, ss[?i := s'])"
      using s'(1) by (simp add: route_pop_def route_lookup_def)
    show "all_invar (ss[?i := s'])" using all_invar_update assms(1) s'(2) by blast
    fix g assume g: "fkey g"
    have kg: "key (snd (route g))" using route_range g by blast
    show "route_nonce (ss[?i := s']) g = route_nonce ss g"
      using nth_route_update [OF assms g] s'(3) [OF kg] by (auto simp: route_nonce_def)
    show "route_lookup (ss[?i := s']) g
        = (if g = f then (route_lookup ss f)(n := None) else route_lookup ss g)"
      using nth_route_update [OF assms g] s'(4) [OF kg] route_same_shard [OF g assms(2)]
      by (auto simp: route_lookup_def)
  qed
qed

end

sublocale sharded_store \<subseteq> sharded: callback_store all_invar fkey route_nonce route_lookup route_add route_pop
  by unfold_locales (fact route_add_ok, fact route_pop_ok)

section \<open>The route of the registry\<close>

definition fd_route :: "int \<Rightarrow> int \<Rightarrow> int \<Rightarrow> nat \<times> int" where
  "fd_route g c fd = (nat (fd div g mod c), fd div g div c * g + fd mod g)"

text \<open>The descriptor a shard number and a flattened index belong to.\<close>

definition fd_unroute :: "int \<Rightarrow> int \<Rightarrow> nat \<times> int \<Rightarrow> int" where
  "fd_unroute g c si = (case si of (sn, idx) \<Rightarrow> (idx div g * c + int sn) * g + idx mod g)"

lemma fd_unroute_route:
  assumes "0 \<le> fd" and "0 < g" and "0 < c"
  shows "fd_unroute g c (fd_route g c fd) = fd"
proof -
  let ?q = "fd div g div c"
  have "(?q * g + fd mod g) div g = ?q" and "(?q * g + fd mod g) mod g = fd mod g"
    using assms by simp_all
  moreover have "?q * c + fd div g mod c = fd div g" by simp
  moreover have "int (nat (fd div g mod c)) = fd div g mod c" using assms by simp
  ultimately show ?thesis by (simp add: fd_unroute_def fd_route_def)
qed

interpretation rte: sharded_store
  shard_inv "\<lambda>idx. 0 \<le> idx" shard_nonce shard_lookup shard_add shard_pop
  "\<lambda>fd. 0 \<le> fd \<and> 0 < g \<and> 0 < c" "fd_route g c" "nat c" for g c
proof (unfold_locales, goal_cases)
  case (1 fd)
  then show ?case by (simp add: fd_route_def nat_less_iff pos_imp_zdiv_nonneg_iff)
next
  case (2 fd fd')
  then show ?case by (metis fd_unroute_route)
qed

section \<open>The registry implements the contract\<close>

definition registry_inv :: "'cb cbRegistry \<Rightarrow> bool" where
  "registry_inv r \<longleftrightarrow> 0 < granularity r \<and> 0 < shardCnt r \<and>
     length (reg_shards r) = nat (shardCnt r) \<and> (\<forall>sh\<in>set (reg_shards r). shard_inv sh)"

definition registry_nonce :: "'cb cbRegistry \<Rightarrow> int \<Rightarrow> u32" where
  "registry_nonce r fd = (case fd_route (granularity r) (shardCnt r) fd of (sn, idx) \<Rightarrow>
     shard_nonce (reg_shards r ! sn) idx)"

definition registry_lookup :: "'cb cbRegistry \<Rightarrow> int \<Rightarrow> 'cb cbMap" where
  "registry_lookup r fd = (case fd_route (granularity r) (shardCnt r) fd of (sn, idx) \<Rightarrow>
     shard_lookup (reg_shards r ! sn) idx)"

lemma shardNum_route:
  assumes "registry_inv r" and "0 \<le> fd"
  shows "shardNumAndFlattenIdx r fd = Ok (int (fst (fd_route (granularity r) (shardCnt r) fd)),
     snd (fd_route (granularity r) (shardCnt r) fd))"
  using assms
  by (simp add: shardNumAndFlattenIdx_def registry_inv_def fd_route_def pos_imp_zdiv_nonneg_iff Let_def)

text \<open>The registry's operations are the routed operations on its list of shards.\<close>

lemma registry_routed:
  assumes "registry_inv r" and "0 \<le> fd"
  shows "registry_add fd cb r = obind (rte.route_add (granularity r) (shardCnt r) fd cb (reg_shards r))
      (\<lambda>(n, ss). Ok (n, r\<lparr>reg_shards := ss\<rparr>))"
    and "registry_pop fd m r = obind (rte.route_pop (granularity r) (shardCnt r) fd m (reg_shards r))
      (\<lambda>(v, ss). Ok (v, r\<lparr>reg_shards := ss\<rparr>))"
proof -
  let ?f = "fd_route (granularity r) (shardCnt r) fd"
  have lt: "fst ?f < length (reg_shards r)"
    using rte.route_range [of fd "granularity r" "shardCnt r"] assms by (simp add: registry_inv_def)
  show "registry_add fd cb r = obind (rte.route_add (granularity r) (shardCnt r) fd cb (reg_shards r))
      (\<lambda>(n, ss). Ok (n, r\<lparr>reg_shards := ss\<rparr>))"
    using lt by (cases "shard_add (snd ?f) cb (reg_shards r ! fst ?f)")
      (auto simp: registry_add_def rte.route_add_def shardNum_route [OF assms])
  show "registry_pop fd m r = obind (rte.route_pop (granularity r) (shardCnt r) fd m (reg_shards r))
      (\<lambda>(v, ss). Ok (v, r\<lparr>reg_shards := ss\<rparr>))"
    using lt by (cases "shard_pop (snd ?f) m (reg_shards r ! fst ?f)")
      (auto simp: registry_pop_def rte.route_pop_def shardNum_route [OF assms])
qed

lemma registry_route_simps:
  "registry_inv r \<longleftrightarrow> 0 < granularity r \<and> 0 < shardCnt r \<and> rte.all_invar (shardCnt r) (reg_shards r)"
  "registry_nonce r fd = rte.route_nonce (granularity r) (shardCnt r) (reg_shards r) fd"
  "registry_lookup r fd = rte.route_lookup (granularity r) (shardCnt r) (reg_shards r) fd"
  by (auto simp: registry_inv_def rte.all_invar_def registry_nonce_def rte.route_nonce_def
      registry_lookup_def rte.route_lookup_def split: prod.splits)

interpretation creg: callback_store
  registry_inv "\<lambda>fd. 0 \<le> fd" registry_nonce registry_lookup registry_add registry_pop
proof (unfold_locales, goal_cases)
  case (1 r fd cb)
  then have "rte.all_invar (shardCnt r) (reg_shards r)" and "0 \<le> fd \<and> 0 < granularity r \<and> 0 < shardCnt r"
    by (simp_all add: registry_route_simps)
  from rte.sharded.add_ok [OF this, of cb] show ?case
    using 1 by (auto simp: registry_routed registry_route_simps)
next
  case (2 r fd n)
  then have "rte.all_invar (shardCnt r) (reg_shards r)" and "0 \<le> fd \<and> 0 < granularity r \<and> 0 < shardCnt r"
    by (simp_all add: registry_route_simps)
  from rte.sharded.pop_ok [OF this, of n] show ?case
    using 2 by (auto simp: registry_routed registry_route_simps)
qed

section \<open>A fresh registry\<close>

lemma newShards_ok:
  "0 \<le> f \<Longrightarrow> newShards n f = Ok (replicate n \<lparr>nonces = replicate (nat f) 0,
      callbacks = replicate (nat f) Map.empty, boundary = f, slowCallbacks = Map.empty,
      slowNonces = Map.empty\<rparr>)"
  by (induction n) (auto simp: newShard_def)

lemma newCbRegistry_ok:
  assumes "0 < c" and "0 < g"
  shows "\<exists>r :: 'cb cbRegistry. newCbRegistry c g = Ok r \<and> registry_inv r \<and> granularity r = g \<and> shardCnt r = c \<and>
     (\<forall>fd. 0 \<le> fd \<longrightarrow> registry_nonce r fd = 0 \<and> registry_lookup r fd = Map.empty)"
proof -
  let ?f = "65536 div c"
  let ?sh = "\<lparr>nonces = replicate (nat ?f) 0, callbacks = replicate (nat ?f) Map.empty,
      boundary = ?f, slowCallbacks = Map.empty, slowNonces = Map.empty\<rparr> :: 'cb shard"
  let ?r = "\<lparr>reg_shards = replicate (nat c) ?sh, granularity = g, shardCnt = c\<rparr> :: 'cb cbRegistry"
  have f: "0 \<le> ?f" using assms by (simp add: pos_imp_zdiv_nonneg_iff)
  have "newCbRegistry c g = Ok ?r"
    using assms f by (simp add: newCbRegistry_def newShards_ok)
  moreover have "registry_inv ?r" using assms f by (simp add: registry_inv_def shard_inv_def)
  moreover have "registry_nonce ?r fd = 0 \<and> registry_lookup ?r fd = Map.empty" if "0 \<le> fd" for fd
  proof -
    obtain sn idx where r: "fd_route g c fd = (sn, idx)" by fastforce
    then have "sn < nat c" "0 \<le> idx"
      using rte.route_range [of fd g c] that assms by auto
    with r show ?thesis
      by (simp add: registry_nonce_def registry_lookup_def shard_nonce_def shard_lookup_def
          map_read_def nat_less_iff)
  qed
  ultimately show ?thesis by (intro exI [of _ ?r]) simp
qed

section \<open>Properties\<close>

text \<open>A registry of two shards with one fast slot each: the concrete input of the witnesses.\<close>

definition ex_shard :: "nat shard" where
  "ex_shard = \<lparr>nonces = [4294967295], callbacks = [Map.empty], boundary = 1,
     slowCallbacks = Map.empty, slowNonces = Map.empty\<rparr>"

definition ex_registry :: "nat cbRegistry" where
  "ex_registry = \<lparr>reg_shards = [ex_shard, ex_shard], granularity = 75, shardCnt = 2\<rparr>"

lemma ex_registry_inv: "registry_inv ex_registry"
  by (simp add: registry_inv_def ex_registry_def shard_inv_def ex_shard_def)

text \<open>
  C17. A callback that was added comes back: popping the nonce \<^verbatim>\<open>add\<close> returned gives the
  callback, and it is gone afterwards.
\<close>

theorem registry_add_pop:
  assumes "registry_inv r" and "0 \<le> fd" and "registry_add fd cb r = Ok (n, r')"
  shows "\<exists>r''. registry_pop fd n r' = Ok (cb, r'') \<and> registry_inv r'' \<and> registry_lookup r'' fd n = None"
  using assms by (rule creg.pop_after_add)

theorem registry_add_pop_witness:
  "\<exists>n r' r''. registry_add 80 (Some 1) ex_registry = Ok (n, r') \<and> registry_pop 80 n r' = Ok (Some 1, r'')"
proof -
  obtain n r' where "registry_add 80 (Some 1) ex_registry = Ok (n, r')"
    using creg.add_ok [OF ex_registry_inv, of 80 "Some 1"] by auto
  with registry_add_pop [OF ex_registry_inv _ this] show ?thesis by auto
qed

text \<open>
  C18. A registered callback survives: any sequence of additions and pops that does not pop
  its own nonce runs without a panic and leaves it in place, as long as fewer than
  \<open>2 ^ 32\<close> callbacks are added for its descriptor before it completes.
\<close>

theorem registry_keeps:
  assumes "registry_inv r" and "0 \<le> fd" and "registry_lookup r fd n = Some cb"
    and "\<And>x. x \<in> set ops \<Longrightarrow> 0 \<le> op_key x" and "PopOp fd n \<notin> set ops"
    and "unat (registry_nonce r fd - n) + adds_to fd ops < 2 ^ 32"
  shows "\<exists>r'. store_exec registry_add registry_pop ops r = Ok r' \<and> registry_inv r' \<and>
     registry_lookup r' fd n = Some cb"
  using assms by (rule creg.exec_keeps)

theorem registry_keeps_witness:
  "\<exists>r r'. registry_add 0 (Some 7) ex_registry = Ok (0, r) \<and>
     store_exec registry_add registry_pop [AddOp 0 (Some 8), PopOp 0 1, AddOp 150 None] r = Ok r' \<and>
     registry_lookup r' 0 0 = Some (Some 7)"
proof -
  have n: "registry_nonce ex_registry 0 = - 1"
    by (simp add: registry_nonce_def fd_route_def ex_registry_def shard_nonce_def ex_shard_def)
  obtain r where r: "registry_add 0 (Some 7) ex_registry = Ok (0, r)" "registry_inv r"
    "registry_nonce r 0 = 0" "registry_lookup r 0 0 = Some (Some 7)"
    using creg.add_ok [OF ex_registry_inv, of 0 "Some 7"] n by auto
  have "\<exists>r'. store_exec registry_add registry_pop [AddOp 0 (Some 8), PopOp 0 1, AddOp 150 None] r = Ok r' \<and>
      registry_inv r' \<and> registry_lookup r' 0 0 = Some (Some 7)"
    using r by (intro registry_keeps) auto
  with r(1) show ?thesis by blast
qed

text \<open>
  The route of a descriptor can be inverted: \<^verbatim>\<open>shardNumAndFlattenIdx\<close> gives a shard that
  exists and an index from which, together, the descriptor is recovered, so no two
  descriptors share a slot.
\<close>

theorem route_inverse:
  assumes "registry_inv r" and "0 \<le> fd"
  shows "\<exists>sn idx. shardNumAndFlattenIdx r fd = Ok (sn, idx) \<and> 0 \<le> sn \<and> sn < shardCnt r \<and> 0 \<le> idx \<and>
     fd_unroute (granularity r) (shardCnt r) (nat sn, idx) = fd"
proof -
  have pos: "0 < granularity r" "0 < shardCnt r" using assms(1) by (simp_all add: registry_inv_def)
  let ?f = "fd_route (granularity r) (shardCnt r) fd"
  have "fst ?f < nat (shardCnt r)" and "0 \<le> snd ?f" using rte.route_range [of fd] assms(2) pos by blast+
  moreover have "fd_unroute (granularity r) (shardCnt r) (nat (int (fst ?f)), snd ?f) = fd"
    using fd_unroute_route [OF assms(2) pos] by simp
  ultimately show ?thesis using shardNum_route [OF assms] by auto
qed

theorem route_inverse_witness:
  "\<exists>sn idx. shardNumAndFlattenIdx ex_registry 1000 = Ok (sn, idx) \<and> 0 \<le> sn \<and> sn < 2 \<and>
     fd_unroute 75 2 (nat sn, idx) = 1000"
  using route_inverse [OF ex_registry_inv, of 1000] by (auto simp: ex_registry_def)

end
