(* ===== verification/Reactor_Dispatch.thy ===== *)
theory Reactor_Dispatch
  imports Reactor_Kernel Reactor_Registry
begin

unbundle bit_operations_syntax

text \<open>
  What the two event loops of \<^verbatim>\<open>src/reactor\<close> share: the reserved nonces, the request type,
  the loop body that hands completions to callbacks, the requirements check of
  \<^verbatim>\<open>requirements.go\<close> and the configuration. The store of callbacks is abstract here (locale
  \<open>callback_source\<close>); each loop interprets it with its own.
\<close>

section \<open>Constants and requests\<close>

definition timeoutNonce :: u64 where "timeoutNonce = 2 ^ 64 - 1"
definition cancelNonce :: u64 where "cancelNonce = 2 ^ 64 - 1 - 1"
definition cqeBuffSize :: nat where "cqeBuffSize = 2 ^ 7"

record subSqeRequest =
  rq_op :: Operation
  rq_flags :: u8
  rq_userData :: u64
  rq_timeout :: int

definition user_nonce :: "u64 \<Rightarrow> bool" where
  "user_nonce u \<longleftrightarrow> u \<noteq> timeoutNonce \<and> u \<noteq> cancelNonce"

lemma user_nonce_less: "u < cancelNonce \<Longrightarrow> user_nonce u"
  by (auto simp: user_nonce_def timeoutNonce_def cancelNonce_def)

lemma not_user_reserved [simp]: "\<not> user_nonce timeoutNonce" "\<not> user_nonce cancelNonce"
  by (simp_all add: user_nonce_def)

section \<open>Requirements and configuration\<close>

definition checkRingReq :: "'k Ring_scheme \<Rightarrow> bool \<Rightarrow> go_error option" where
  "checkRingReq r net =
     (if \<not> ExtArgFeature (Params r) then Some (Wrapped ErrRequirements ''ext arg feature must exists'')
      else if net \<and> \<not> FastPollFeature (Params r)
      then Some (Wrapped ErrRequirements ''fast poll feature must exists for NetReactor'')
      else None)"

fun checkRings :: "bool \<Rightarrow> 'k Ring_scheme list \<Rightarrow> go_error option" where
  "checkRings net [] = None"
| "checkRings net (r # rs) =
     (case checkRingReq r net of Some e \<Rightarrow> Some e | None \<Rightarrow> checkRings net rs)"

datatype 'l logger = nopLogger | Logger 'l

record 'l configuration =
  tickDuration :: int
  cfg_logger :: "'l logger"

type_synonym 'l cfg_option = "'l configuration \<Rightarrow> 'l configuration"

definition WithTickTimeout :: "int \<Rightarrow> 'l cfg_option" where
  "WithTickTimeout duration cfg = cfg\<lparr>tickDuration := duration\<rparr>"

definition WithLogger :: "'l logger \<Rightarrow> 'l cfg_option" where
  "WithLogger l cfg = cfg\<lparr>cfg_logger := l\<rparr>"

text \<open>The configuration before the options: one millisecond ticks and no logging.\<close>

definition default_config :: "'l configuration" where
  "default_config = \<lparr>tickDuration = 1000000, cfg_logger = nopLogger\<rparr>"

definition apply_opts :: "'l cfg_option list \<Rightarrow> 'l configuration" where
  "apply_opts opts = fold (\<lambda>opt cfg. opt cfg) opts default_config"

section \<open>Handing completions to callbacks\<close>

text \<open>
  The inner loop of both consumers: the events the buffer points to, in order; completions
  of the library's own timeouts and cancellations are skipped; calling a nil callback panics.
  The log records each call with the copy of the event it gets.
\<close>

fun dispatch ::
  "(u64 \<Rightarrow> 's \<Rightarrow> ('cb option \<times> 's) outcome) \<Rightarrow> 'k Ring_scheme \<Rightarrow> cqe_ptr option list \<Rightarrow> 's \<Rightarrow>
   ('s \<times> ('cb \<times> CQEvent) list) outcome" where
  "dispatch tk r [] s = Ok (s, [])"
| "dispatch tk r (p # ps) s =
     (case p of
        None \<Rightarrow> Panic NilDeref
      | Some q \<Rightarrow> obind (cqe_at r q) (\<lambda>cqe.
          let nonce = cqe_UserData cqe
          in if nonce = timeoutNonce \<or> nonce = cancelNonce then dispatch tk r ps s
             else obind (tk nonce s) (\<lambda>(cb, s1).
               (case cb of
                  None \<Rightarrow> Panic NilFuncCall
                | Some f \<Rightarrow> obind (dispatch tk r ps s1) (\<lambda>(s2, calls).
                    Ok (s2, (f, \<lparr>cqe_UserData = cqe_UserData cqe, cqe_Res = cqe_Res cqe,
                                 cqe_Flags = cqe_Flags cqe\<rparr>) # calls))))))"

text \<open>The nonces of a list of events that belong to clients, and those of a list of calls.\<close>

definition users :: "CQEvent list \<Rightarrow> u64 list" where
  "users evs = filter user_nonce (map cqe_UserData evs)"

lemma users_append: "users (xs @ ys) = users xs @ users ys"
  by (simp add: users_def)

definition called :: "('cb \<times> CQEvent) list \<Rightarrow> u64 list" where
  "called calls = map (\<lambda>c. cqe_UserData (snd c)) calls"

lemma called_simps [simp]:
  "called [] = []" "called (c # cs) = cqe_UserData (snd c) # called cs"
  "called (cs @ ds) = called cs @ called ds"
  by (simp_all add: called_def)

text \<open>
  What a consumer has done when it went from the ring \<open>r\<close> and the store \<open>s\<close> to \<open>r'\<close> and \<open>s'\<close> with these calls:
  every user request is still live or was called, once, with the callback the store had for it, which
  is gone from the store; the other callbacks are still there.
\<close>

definition settled :: "('s \<Rightarrow> u64 \<Rightarrow> 'cb option) \<Rightarrow> kring \<Rightarrow> 's \<Rightarrow> ('cb \<times> CQEvent) list \<Rightarrow> kring \<Rightarrow> 's \<Rightarrow> bool" where
  "settled get r s calls r' s' \<longleftrightarrow>
     mset (filter user_nonce (live r)) = mset (filter user_nonce (live r')) + mset (called calls) \<and>
     (\<forall>(cb, ev)\<in>set calls. get s (cqe_UserData ev) = Some cb) \<and>
     (\<forall>v. get s' v = (if v \<in> set (called calls) then None else get s v))"

lemma settled_none: "mset (live r') = mset (live r) \<Longrightarrow> settled get r s [] r' s"
  by (simp add: settled_def mset_filter)

lemma settled_trans:
  assumes a: "settled get r s c r1 s1" and b: "settled get r1 s1 d r2 s2"
  shows "settled get r s (c @ d) r2 s2"
proof -
  have "\<forall>(cb, ev)\<in>set (c @ d). get s (cqe_UserData ev) = Some cb"
    using a b unfolding settled_def by (force split: if_splits)
  moreover have "get s2 v = (if v \<in> set (called (c @ d)) then None else get s v)" for v
    using a b unfolding settled_def by auto
  ultimately show ?thesis using a b by (simp add: settled_def)
qed

text \<open>What is left is as distinct as before, and still has its callbacks.\<close>

lemma settled_rest:
  assumes a: "settled get r s c r1 s1" and d: "distinct (filter user_nonce (live r))"
    and cbs: "\<And>u. u \<in> set (live r) \<Longrightarrow> user_nonce u \<Longrightarrow> get s u \<noteq> None"
  shows "distinct (filter user_nonce (live r1))" and "u \<in> set (live r1) \<Longrightarrow> user_nonce u \<Longrightarrow> get s1 u \<noteq> None"
proof -
  have eq: "mset (filter user_nonce (live r)) = mset (filter user_nonce (live r1) @ called c)"
    using a by (simp add: settled_def)
  have dis: "distinct (filter user_nonce (live r1)) \<and> set (filter user_nonce (live r1)) \<inter> set (called c) = {}"
    using mset_eq_imp_distinct_iff [OF eq] d by auto
  then show "distinct (filter user_nonce (live r1))" by blast
  show "get s1 u \<noteq> None" if "u \<in> set (live r1)" "user_nonce u"
    using a dis that mset_eq_setD [OF eq] cbs [of u] by (auto simp: settled_def)
qed

locale callback_source =
  fixes cinvar :: "'s \<Rightarrow> bool"
    and cget :: "'s \<Rightarrow> u64 \<Rightarrow> 'cb option"
    and tk :: "u64 \<Rightarrow> 's \<Rightarrow> ('cb option \<times> 's) outcome"
  assumes tk_ok: "cinvar s \<Longrightarrow>
     \<exists>s'. tk u s = Ok (cget s u, s') \<and> cinvar s' \<and> (\<forall>v. cget s' v = (if v = u then None else cget s v))"
begin

text \<open>
  If every waiting user event has its own callback, the batch is dispatched without a
  panic: each callback is called once, with the event that carries its nonce, in order, and
  is removed; the others stay.
\<close>

lemma dispatch_ok:
  assumes "cinvar s" and "map (cqe_at r) qs = map Ok evs" and "distinct (users evs)"
    and "\<And>u. u \<in> set (users evs) \<Longrightarrow> cget s u \<noteq> None"
  shows "\<exists>s' calls. dispatch tk r (map Some qs) s = Ok (s', calls) \<and> cinvar s' \<and>
     called calls = users evs \<and>
     (\<forall>(cb, ev)\<in>set calls. cget s (cqe_UserData ev) = Some cb) \<and>
     (\<forall>v. cget s' v = (if v \<in> set (users evs) then None else cget s v))"
  using assms
proof (induction qs arbitrary: evs s)
  case Nil
  then show ?case by (simp add: users_def)
next
  case (Cons q qs)
  then obtain ev evs' where evs: "evs = ev # evs'" "cqe_at r q = Ok ev" "map (cqe_at r) qs = map Ok evs'"
    by (cases evs) auto
  show ?case
  proof (cases "user_nonce (cqe_UserData ev)")
    case False
    then have "users evs = users evs'" using evs(1) by (simp add: users_def)
    with Cons.IH [OF Cons.prems(1) evs(3)] Cons.prems(3,4) False evs(2) show ?thesis
      by (auto simp: user_nonce_def)
  next
    case True
    let ?u = "cqe_UserData ev"
    have us: "users evs = ?u # users evs'" using evs(1) True by (simp add: users_def)
    then obtain cb where cb: "cget s ?u = Some cb" using Cons.prems(4) by fastforce
    obtain s1 where s1: "tk ?u s = Ok (Some cb, s1)" "cinvar s1"
      "\<And>v. cget s1 v = (if v = ?u then None else cget s v)"
      using tk_ok [OF Cons.prems(1), of ?u] cb by auto
    have nin: "?u \<notin> set (users evs')" and dist: "distinct (users evs')"
      using Cons.prems(3) us by auto
    have "\<And>u. u \<in> set (users evs') \<Longrightarrow> cget s1 u \<noteq> None"
      using Cons.prems(4) us s1(3) nin by fastforce
    then obtain s' calls where IH: "dispatch tk r (map Some qs) s1 = Ok (s', calls)" "cinvar s'"
      "called calls = users evs'"
      "\<forall>(cb, ev)\<in>set calls. cget s1 (cqe_UserData ev) = Some cb"
      "\<And>v. cget s' v = (if v \<in> set (users evs') then None else cget s1 v)"
      using Cons.IH [OF s1(2) evs(3) dist] by auto
    have old: "\<forall>(cb, ev)\<in>set calls. cget s (cqe_UserData ev) = Some cb"
      using IH(4) s1(3) by (force split: if_splits)
    have "dispatch tk r (map Some (q # qs)) s
        = Ok (s', (cb, \<lparr>cqe_UserData = ?u, cqe_Res = cqe_Res ev, cqe_Flags = cqe_Flags ev\<rparr>) # calls)"
      using evs(2) True s1(1) IH(1) by (simp add: user_nonce_def Let_def)
    with IH(2,3,5) old cb s1(3) us show ?thesis by auto
  qed
qed

end

section \<open>Batches\<close>

text \<open>
  One round of \<^verbatim>\<open>for n := ring.PeekCQEventBatch(cqeBuff); n > 0; \<dots>\<close>: \<open>None\<close> when the loop
  ends, otherwise the state after the batch and the calls made.
\<close>

definition consume_batch ::
  "'k Ring_scheme kernel \<Rightarrow> (u64 \<Rightarrow> 's \<Rightarrow> ('cb option \<times> 's) outcome) \<Rightarrow> cqe_ptr option list \<Rightarrow>
   'k Ring_scheme \<Rightarrow> 's \<Rightarrow>
   ('k Ring_scheme \<times> ('s \<times> ('cb \<times> CQEvent) list \<times> cqe_ptr option list) option) outcome" where
  "consume_batch k tk buff r s =
     obind (PeekCQEventBatch k r buff) (\<lambda>(n, buff1, r1).
       if 0 < n then
         obind (dispatch tk r1 (take (nat n) buff1) s) (\<lambda>(s', calls).
           Ok (AdvanceCQ (of_int n) r1, Some (s', calls, buff1)))
       else Ok (r1, None))"

text \<open>The whole loop; it may go on for as long as the kernel keeps posting events.\<close>

partial_function (option) drain ::
  "'k Ring_scheme kernel \<Rightarrow> (u64 \<Rightarrow> 's \<Rightarrow> ('cb option \<times> 's) outcome) \<Rightarrow> cqe_ptr option list \<Rightarrow>
   'k Ring_scheme \<Rightarrow> 's \<Rightarrow> ('cb \<times> CQEvent) list \<Rightarrow>
   ('k Ring_scheme \<times> 's \<times> ('cb \<times> CQEvent) list) outcome option" where
  "drain k tk buff r s calls =
     (case consume_batch k tk buff r s of
        Panic p \<Rightarrow> Some (Panic p)
      | Ok (r', None) \<Rightarrow> Some (Ok (r', s, calls))
      | Ok (r', Some (s', new, buff')) \<Rightarrow> drain k tk buff' r' s' (calls @ new))"

context callback_source
begin

text \<open>The events of a batch: their requests are live, and have callbacks of their own.\<close>

lemma dispatch_batch:
  assumes wf: "kring_wf r" and n: "n \<le> length (cq_ready (cqRing r))"
    and rd: "map (cqe_at r) ptrs = map Ok (take n (cq_ready (cqRing r)))"
    and s: "cinvar s" and dist: "distinct (filter user_nonce (live r))"
    and cbs: "\<And>u. u \<in> set (live r) \<Longrightarrow> user_nonce u \<Longrightarrow> cget s u \<noteq> None"
  shows "\<exists>s' calls. dispatch tk r (map Some ptrs) s = Ok (s', calls) \<and> cinvar s' \<and>
     called calls = users (take n (cq_ready (cqRing r))) \<and> settled cget r s calls (AdvanceCQ (of_nat n) r) s'"
proof -
  let ?evs = "take n (cq_ready (cqRing r))" and ?r2 = "AdvanceCQ (of_nat n) r"
  have split: "mset (filter user_nonce (live r)) = mset (filter user_nonce (live ?r2)) + mset (users ?evs)"
    unfolding users_def by (simp only: mset_filter AdvanceCQ_live(2) [OF wf n] filter_union_mset)
  then have "mset (filter user_nonce (live r)) = mset (filter user_nonce (live ?r2) @ users ?evs)" by simp
  from mset_eq_imp_distinct_iff [OF this] mset_eq_setD [OF this]
  have "distinct (users ?evs)" and "set (users ?evs) \<subseteq> set (filter user_nonce (live r))"
    using dist by auto
  then have "distinct (users ?evs)" and "\<And>u. u \<in> set (users ?evs) \<Longrightarrow> cget s u \<noteq> None"
    using cbs by auto
  then obtain s' calls where d: "dispatch tk r (map Some ptrs) s = Ok (s', calls)" "cinvar s'" "called calls = users ?evs"
    "\<forall>(cb, ev)\<in>set calls. cget s (cqe_UserData ev) = Some cb"
    "\<forall>v. cget s' v = (if v \<in> set (users ?evs) then None else cget s v)" using dispatch_ok [OF s rd] by blast
  then have "settled cget r s calls ?r2 s'" using split by (simp add: settled_def)
  with d(1-3) show ?thesis by blast
qed

lemma consume_batch_settles:
  assumes wf: "kring_wf r" and k: "kernel_conforms k" and buff: "length buff < 2 ^ 32"
    and s: "cinvar s" and dist: "distinct (filter user_nonce (live r))"
    and cbs: "\<And>u. u \<in> set (live r) \<Longrightarrow> user_nonce u \<Longrightarrow> cget s u \<noteq> None"
  shows "\<exists>r' res. consume_batch k tk buff r s = Ok (r', res) \<and> kring_wf r' \<and>
     sq_pending (sqRing r') = sq_pending (sqRing r) \<and>
     (case res of
        None \<Rightarrow> mset (live r') = mset (live r) \<and> (\<exists>more. cq_ready (cqRing r') = cq_ready (cqRing r) @ more) \<and>
          (length buff \<noteq> 0 \<longrightarrow> cq_ready (cqRing r') = [])
      | Some (s', calls, buff') \<Rightarrow> cinvar s' \<and> length buff' = length buff \<and> length (live r') < length (live r) \<and>
          (\<exists>more. called calls @ users (cq_ready (cqRing r')) = users (cq_ready (cqRing r)) @ more) \<and>
          settled cget r s calls r' s')"
proof -
  obtain n ptrs rest r1 where p: "PeekCQEventBatch k r buff = Ok (int n, map Some ptrs @ rest, r1)"
    and fr: "kernel_frame r r1" and len: "length ptrs = n" "n \<le> length buff" "length rest = length buff - n"
    and nle: "n \<le> length (cq_ready (cqRing r1))"
    and rd: "map (cqe_at r1) ptrs = map Ok (take n (cq_ready (cqRing r1)))"
    and stop: "length buff \<noteq> 0 \<and> n = 0 \<longrightarrow> cq_ready (cqRing r1) = []"
    using PeekCQEventBatch_frame [OF wf k buff] by blast
  have wf1: "kring_wf r1" and live1: "mset (live r1) = mset (live r)"
    and pend: "sq_pending (sqRing r1) = sq_pending (sqRing r)"
    using fr by (simp_all add: kernel_frame_def)
  obtain more where more: "cq_ready (cqRing r1) = cq_ready (cqRing r) @ more"
    using fr by (auto simp: kernel_frame_def)
  show ?thesis
  proof (cases "n = 0")
    case True
    with p wf1 live1 pend stop more show ?thesis by (simp add: consume_batch_def)
  next
    case False
    let ?r2 = "AdvanceCQ (of_nat n) r1"
    have same: "settled cget r s [] r1 s" by (rule settled_none [OF live1])
    obtain s' calls where d: "dispatch tk r1 (map Some ptrs) s = Ok (s', calls)" "cinvar s'"
      "called calls = users (take n (cq_ready (cqRing r1)))" "settled cget r1 s calls ?r2 s'"
      using dispatch_batch [OF wf1 nle rd s settled_rest [OF same dist cbs]] by blast
    have "consume_batch k tk buff r s = Ok (?r2, Some (s', calls, map Some ptrs @ rest))"
      using p False d(1) len(1) by (simp add: consume_batch_def)
    moreover have "called calls @ users (cq_ready (cqRing ?r2)) = users (cq_ready (cqRing r)) @ users more"
      using d(3) AdvanceCQ_ok(2) [OF _ nle] wf1 by (simp add: kring_wf_def flip: users_append more)
    moreover have "length (live ?r2) < length (live r)"
      using arg_cong [OF AdvanceCQ_live(2) [OF wf1 nle], of size] arg_cong [OF live1, of size] nle False
      by (simp add: min_def split: if_splits)
    ultimately show ?thesis
      using AdvanceCQ_live(1) [OF wf1 nle] pend d(2) len settled_trans [OF same d(4)] by auto
  qed
qed

lemmas consume_batch_ok = consume_batch_settles [unfolded settled_def]

text \<open>
  The consumer's loop ends: a batch settles at least one of the finitely many requests
  that are live, and the kernel adds none. When it ends no event is waiting.
\<close>

lemma drain_returns:
  assumes "kring_wf r" and k: "kernel_conforms k" and buff: "length buff < 2 ^ 32" "length buff \<noteq> 0"
    and "cinvar s" and "distinct (filter user_nonce (live r))"
    and "\<And>u. u \<in> set (live r) \<Longrightarrow> user_nonce u \<Longrightarrow> cget s u \<noteq> None"
  shows "\<exists>r' s' new. drain k tk buff r s calls = Some (Ok (r', s', calls @ new)) \<and>
     kring_wf r' \<and> cinvar s' \<and> cq_ready (cqRing r') = [] \<and>
     (\<exists>more. called new = users (cq_ready (cqRing r)) @ more) \<and> settled cget r s new r' s'"
  using assms
proof (induction "length (live r)" arbitrary: r s buff calls rule: less_induct)
  case less
  obtain r1 res where b: "consume_batch k tk buff r s = Ok (r1, res)" and wf1: "kring_wf r1"
    and res: "case res of None \<Rightarrow> mset (live r1) = mset (live r) \<and>
          (\<exists>more. cq_ready (cqRing r1) = cq_ready (cqRing r) @ more) \<and>
          (length buff \<noteq> 0 \<longrightarrow> cq_ready (cqRing r1) = [])
      | Some (s1, c1, buff1) \<Rightarrow> cinvar s1 \<and> length buff1 = length buff \<and> length (live r1) < length (live r) \<and>
          (\<exists>more. called c1 @ users (cq_ready (cqRing r1)) = users (cq_ready (cqRing r)) @ more) \<and>
          settled cget r s c1 r1 s1"
    using consume_batch_settles [OF less.prems(1,2,3,5,6,7)] by blast
  show ?case
  proof (cases res)
    case None
    moreover have "cq_ready (cqRing r) = []" using None res less.prems(4) by auto
    moreover have "settled cget r s [] r1 s" using None res by (intro settled_none) simp
    ultimately show ?thesis using b res wf1 less.prems(4,5)
      by (subst drain.simps) (auto simp: users_def)
  next
    case (Some a)
    then obtain s1 c1 buff1 where a: "res = Some (s1, c1, buff1)" by (cases a) auto
    note r = res [unfolded a option.case prod.case]
    have st: "settled cget r s c1 r1 s1" using r by blast
    obtain r' s' new where IH: "drain k tk buff1 r1 s1 (calls @ c1) = Some (Ok (r', s', (calls @ c1) @ new))"
      "kring_wf r'" "cinvar s'" "cq_ready (cqRing r') = []"
      "\<exists>more. called new = users (cq_ready (cqRing r1)) @ more" "settled cget r1 s1 new r' s'"
      using less.hyps [of r1 buff1 s1 "calls @ c1"] r wf1 k less.prems(3,4) settled_rest [OF st less.prems(6,7)] by force
    have "\<exists>more. called (c1 @ new) = users (cq_ready (cqRing r)) @ more"
      using r IH(5) by (metis append.assoc called_simps(3))
    moreover have "drain k tk buff r s calls = Some (Ok (r', s', calls @ c1 @ new))"
      using IH(1) b a by (subst drain.simps) simp
    ultimately show ?thesis using IH(2,3,4) settled_trans [OF st IH(6)]
      by (intro exI [of _ r'] exI [of _ s'] exI [of _ "c1 @ new"]) simp
  qed
qed

end

section \<open>A round of a consumer\<close>

definition retry_error :: "go_error option \<Rightarrow> bool" where
  "retry_error err \<longleftrightarrow> err_is err (Errno 11) \<or> err_is err (Errno 4) \<or> err_is err (Errno 62)"

text \<open>
  What both consumers do between sending the submit signal and polling the stop channel:
  the error that is logged, the ring and the store after the round, the calls made.
\<close>

definition wait_and_drain ::
  "'k Ring_scheme kernel \<Rightarrow> (u64 \<Rightarrow> 's \<Rightarrow> ('cb option \<times> 's) outcome) \<Rightarrow> u64 \<Rightarrow> u64 \<Rightarrow> int \<Rightarrow>
   cqe_ptr option list \<Rightarrow> 'k Ring_scheme \<Rightarrow> 's \<Rightarrow>
   (go_error option \<times> 'k Ring_scheme \<times> 's \<times> ('cb \<times> CQEvent) list) outcome option" where
  "wait_and_drain k tk spec arg tick buff r s =
     (case WaitCQEventsWithTimeout k spec arg 1 tick r of
        None \<Rightarrow> None
      | Some (Panic p) \<Rightarrow> Some (Panic p)
      | Some (Ok (_, err, r1)) \<Rightarrow>
          if retry_error err then Some (Ok (None, r1, s, []))
          else if err \<noteq> None then Some (Ok (err, r1, s, []))
          else (case drain k tk buff r1 s [] of
                  None \<Rightarrow> None
                | Some (Panic p) \<Rightarrow> Some (Panic p)
                | Some (Ok (r2, s', calls)) \<Rightarrow> Some (Ok (None, r2, s', calls))))"

lemma WaitCQEventsWithTimeout_loop:
  assumes wf: "kring_wf r" and ext: "ExtArgFeature (Params r)"
    and k: "kernel_conforms k" "kernel_waits k"
  shows "\<exists>p err r'. WaitCQEventsWithTimeout k spec arg 1 tick r = Some (Ok (p, err, r')) \<and>
     kernel_frame r r' \<and> (cq_ready (cqRing r) \<noteq> [] \<longrightarrow> err = None \<and> r' = r)"
proof -
  let ?ps = "\<lparr>gp_submit = 0, gp_waitNr = 1, gp_flags = sysRingEnterExtArg, gp_arg = arg,
    gp_sz = sizeof_getEventsArg\<rparr>"
  have cq: "cq_wf (cqRing r)" using wf by (simp add: kring_wf_def)
  obtain p err r' where g: "getCQEvents k ?ps r = Some (Ok (p, err, r'))"
    using getCQEvents_returns [OF cq ext conforms_completes [OF k(1)] k(2), of ?ps] by auto
  have "err = None \<and> r' = r" if ne: "cq_ready (cqRing r) \<noteq> []"
  proof -
    have "unat (readyCount (cqRing r)) \<noteq> 0" using ne by (simp add: readyCount_def flip: length_0_conv)
    then have "\<not> readyCount (cqRing r) < 1" by (simp add: word_less_nat_alt)
    then have "get_iter k ?ps r
        = Ok (Break (Some (cqe_ptr_of (cq_kHead (cqRing r)) (cq_kRingMask (cqRing r)))) None r)"
      using ne by (simp add: get_iter_def peekCQEvent_ext [OF cq ext] Let_def)
    with g show ?thesis by (subst (asm) getCQEvents.simps) simp
  qed
  with g ext getCQEvents_frame [OF g k(1) wf ext] show ?thesis
    by (simp add: WaitCQEventsWithTimeout_def)
qed

context callback_source
begin

text \<open>
  A round returns and calls the right callbacks; if events are waiting it makes no error,
  handles all of them in the order they were posted and leaves none.
\<close>

lemma wait_and_drain_ok:
  assumes wf: "kring_wf r" and ext: "ExtArgFeature (Params r)"
    and k: "kernel_conforms k" "kernel_waits k" and buff: "length buff = cqeBuffSize"
    and s: "cinvar s" and dist: "distinct (filter user_nonce (live r))"
    and cbs: "\<forall>u\<in>set (live r). user_nonce u \<longrightarrow> cget s u \<noteq> None"
  shows "\<exists>err r' s' calls. wait_and_drain k tk spec arg tick buff r s = Some (Ok (err, r', s', calls)) \<and>
     kring_wf r' \<and> cinvar s' \<and>
     mset (filter user_nonce (live r)) = mset (filter user_nonce (live r')) + mset (called calls) \<and>
     (\<forall>(cb, ev)\<in>set calls. cget s (cqe_UserData ev) = Some cb) \<and>
     (\<forall>v. cget s' v = (if v \<in> set (called calls) then None else cget s v)) \<and>
     (cq_ready (cqRing r) \<noteq> [] \<longrightarrow> err = None \<and> cq_ready (cqRing r') = [] \<and>
        (\<exists>more. called calls = users (cq_ready (cqRing r)) @ more))"
proof -
  obtain p err r1 where w: "WaitCQEventsWithTimeout k spec arg 1 tick r = Some (Ok (p, err, r1))"
    "kernel_frame r r1" "cq_ready (cqRing r) \<noteq> [] \<longrightarrow> err = None \<and> r1 = r"
    using WaitCQEventsWithTimeout_loop [OF wf ext k] by blast
  have wf1: "kring_wf r1" and live1: "mset (live r1) = mset (live r)"
    using w(2) by (simp_all add: kernel_frame_def)
  have same: "settled cget r s [] r1 s" by (rule settled_none [OF live1])
  have len: "length buff < 2 ^ 32" "length buff \<noteq> 0" using buff by (simp_all add: cqeBuffSize_def)
  obtain r2 s' new where d: "drain k tk buff r1 s [] = Some (Ok (r2, s', new))"
    "kring_wf r2" "cinvar s'" "cq_ready (cqRing r2) = []" "\<exists>more. called new = users (cq_ready (cqRing r1)) @ more"
    "settled cget r1 s new r2 s'"
    using drain_returns [OF wf1 k(1) len s, of "[]"] settled_rest [OF same dist] cbs by auto
  show ?thesis
  proof (cases "err = None")
    case True
    then have "wait_and_drain k tk spec arg tick buff r s = Some (Ok (None, r2, s', new))"
      using w(1) d(1) by (simp add: wait_and_drain_def retry_error_def err_is_def)
    with d w(3) settled_trans [OF same d(6)] show ?thesis by (auto simp: settled_def)
  next
    case False
    then have "wait_and_drain k tk spec arg tick buff r s
        = Some (Ok (if retry_error err then None else err, r1, s, []))"
      using w(1) by (simp add: wait_and_drain_def)
    with False wf1 s same w(3) show ?thesis by (auto simp: settled_def)
  qed
qed

end

end
