(* ===== verification/Reactor_Loop.thy ===== *)
theory Reactor_Loop
  imports Reactor_Dispatch
begin

unbundle bit_operations_syntax

text \<open>
  The generic reactor of \<^verbatim>\<open>src/reactor/reactor.go\<close>: nonces, queueing and cancelling
  operations, the work of the publisher and the consumer of an event loop, and the step
  relation of a loop together with its clients and the kernel.

  The mutexes of a loop make \<^verbatim>\<open>Queue\<close>, the publisher's \<^verbatim>\<open>Submit\<close> and the handling of one
  batch single steps. The compare-and-swap of \<^verbatim>\<open>needSubmit\<close> is one step with the \<^verbatim>\<open>Submit\<close> it
  guards: a \<^verbatim>\<open>Queue\<close> between the two only arms one more submit. Callbacks are client code: the
  model records that they are called.
\<close>

section \<open>Event loops\<close>

record ('r, 'cb) ringEventLoop =
  el_ring :: 'r
  el_callbacks :: "u64 \<rightharpoonup> 'cb option"
  el_needSubmit :: u32

definition newRingEventLoop :: "'r \<Rightarrow> ('r, 'cb) ringEventLoop" where
  "newRingEventLoop ring = \<lparr>el_ring = ring, el_callbacks = Map.empty, el_needSubmit = 0\<rparr>"

text \<open>
  \<open>spec\<close> and \<open>spec2\<close> are the addresses of the timespecs the operation and its link timeout
  may allocate.
\<close>

definition loop_Queue ::
  "u64 \<Rightarrow> u64 \<Rightarrow> subSqeRequest \<Rightarrow> 'cb option \<Rightarrow> ('k Ring_scheme, 'cb) ringEventLoop \<Rightarrow>
   (go_error option \<times> ('k Ring_scheme, 'cb) ringEventLoop) outcome" where
  "loop_Queue spec spec2 req cb loop =
     (let loop1 = loop\<lparr>el_needSubmit := 1\<rparr>;
          queued =
            (if rq_timeout req = 0
             then QueueSQE spec (rq_op req) (rq_flags req) (rq_userData req) (el_ring loop1)
             else obind (QueueSQE spec (rq_op req) (rq_flags req OR SqeIOLinkFlag) (rq_userData req)
                           (el_ring loop1)) (\<lambda>(err, r1).
               if err = None
               then obind (QueueSQE spec2 (LinkTimeout (rq_timeout req)) 0 timeoutNonce r1)
                      (\<lambda>(_, r2). Ok (None, r2))
               else Ok (err, r1)))
      in obind queued (\<lambda>(err, r').
           let loop2 = loop1\<lparr>el_ring := r'\<rparr>
           in Ok (err, if err = None
                       then loop2\<lparr>el_callbacks := (el_callbacks loop2)(rq_userData req \<mapsto> cb)\<rparr>
                       else loop2)))"

definition loop_cancel ::
  "u64 \<Rightarrow> u64 \<Rightarrow> u64 \<Rightarrow> ('k Ring_scheme, 'cb) ringEventLoop \<Rightarrow>
   (go_error option \<times> ('k Ring_scheme, 'cb) ringEventLoop) outcome" where
  "loop_cancel spec spec2 nonce loop =
     loop_Queue spec spec2 \<lparr>rq_op = Cancel nonce 0, rq_flags = 0, rq_userData = cancelNonce,
                            rq_timeout = 0\<rparr> None loop"

text \<open>
  The publisher on a submit signal: the compare-and-swap of \<^verbatim>\<open>needSubmit\<close>, then \<^verbatim>\<open>Submit\<close>.
  The first component is the error that is logged.
\<close>

definition publisher_submit ::
  "'k Ring_scheme kernel \<Rightarrow> ('k Ring_scheme, 'cb) ringEventLoop \<Rightarrow>
   (go_error option \<times> ('k Ring_scheme, 'cb) ringEventLoop) outcome" where
  "publisher_submit k loop =
     (if el_needSubmit loop = 1
      then obind (Submit k (el_ring loop)) (\<lambda>(_, err, r').
             Ok (err, loop\<lparr>el_needSubmit := 0, el_ring := r'\<rparr>))
      else Ok (None, loop))"

text \<open>\<^verbatim>\<open>loop.callbacks[nonce](\<dots>)\<close> followed by \<^verbatim>\<open>delete(loop.callbacks, nonce)\<close>.\<close>

definition take_callback :: "u64 \<Rightarrow> (u64 \<rightharpoonup> 'cb option) \<Rightarrow> ('cb option \<times> (u64 \<rightharpoonup> 'cb option)) outcome" where
  "take_callback nonce cbs = Ok (map_read cbs None nonce, cbs(nonce := None))"

text \<open>
  One round of the consumer: the error that is logged, the loop after the round and the
  callbacks called.
\<close>

definition consumer_round ::
  "'k Ring_scheme kernel \<Rightarrow> u64 \<Rightarrow> u64 \<Rightarrow> int \<Rightarrow> cqe_ptr option list \<Rightarrow>
   ('k Ring_scheme, 'cb) ringEventLoop \<Rightarrow>
   (go_error option \<times> ('k Ring_scheme, 'cb) ringEventLoop \<times> ('cb \<times> CQEvent) list) outcome option" where
  "consumer_round k spec arg tick buff loop =
     map_option (\<lambda>res. obind res (\<lambda>(err, r', cbs, calls).
         Ok (err, loop\<lparr>el_ring := r', el_callbacks := cbs\<rparr>, calls)))
       (wait_and_drain k take_callback spec arg tick buff (el_ring loop) (el_callbacks loop))"

section \<open>The reactor\<close>

record ('r, 'cb, 'l) Reactor =
  re_loops :: "('r, 'cb) ringEventLoop list"
  re_currentNonce :: u64
  re_config :: "'l configuration"

definition Reactor_New ::
  "'k Ring_scheme list \<Rightarrow> 'l cfg_option list \<Rightarrow> go_error + ('k Ring_scheme, 'cb, 'l) Reactor" where
  "Reactor_New rings opts =
     (case checkRings False rings of
        Some e \<Rightarrow> Inl e
      | None \<Rightarrow> Inr \<lparr>re_loops = map newRingEventLoop rings, re_currentNonce = 0,
                     re_config = apply_opts opts\<rparr>)"

text \<open>The atomic increments of \<^verbatim>\<open>nextNonce\<close> from the current value of the counter.\<close>

function nextNonce :: "u64 \<Rightarrow> u64" where
  "nextNonce cur = (let loc = cur + 1 in if cancelNonce \<le> loc then nextNonce loc else loc)"
  by pat_completeness auto
termination
proof (relation "measure (\<lambda>cur. unat (- 1 - cur))", goal_cases)
  case 1
  then show ?case by simp
next
  case (2 cur loc)
  then have "cur \<noteq> - 1" by (auto simp: cancelNonce_def)
  then have "(- 1 - cur :: u64) \<noteq> 0" by (simp add: eq_commute [of "- 1"])
  then have "unat (- 1 - cur - 1 :: u64) < unat (- 1 - cur)"
    by (metis measure_unat)
  with 2 show ?case by (simp add: algebra_simps)
qed

declare nextNonce.simps [simp del]

definition loopForNonce :: "('r, 'cb, 'l) Reactor \<Rightarrow> u64 \<Rightarrow> nat outcome" where
  "loopForNonce r nonce =
     (if length (re_loops r) = 0 then Panic DivideByZero
      else Ok (unat (nonce mod of_nat (length (re_loops r)))))"

definition Reactor_queue ::
  "u64 \<Rightarrow> u64 \<Rightarrow> Operation \<Rightarrow> 'cb option \<Rightarrow> int \<Rightarrow> ('k Ring_scheme, 'cb, 'l) Reactor \<Rightarrow>
   (u64 \<times> go_error option \<times> ('k Ring_scheme, 'cb, 'l) Reactor) outcome" where
  "Reactor_queue spec spec2 op cb timeout r =
     (let nonce = nextNonce (re_currentNonce r);
          r1 = r\<lparr>re_currentNonce := nonce\<rparr>
      in obind (loopForNonce r1 nonce) (\<lambda>i.
           obind (loop_Queue spec spec2 \<lparr>rq_op = op, rq_flags = 0, rq_userData = nonce,
                                         rq_timeout = timeout\<rparr> cb (re_loops r1 ! i)) (\<lambda>(err, l').
             Ok (nonce, err, r1\<lparr>re_loops := (re_loops r1)[i := l']\<rparr>))))"

definition Reactor_Queue where
  "Reactor_Queue spec spec2 op cb r = Reactor_queue spec spec2 op cb 0 r"

text \<open>A deadline is \<open>None\<close> for the zero time; \<open>now\<close> is the clock \<^verbatim>\<open>time.Until\<close> reads.\<close>

definition QueueWithDeadline where
  "QueueWithDeadline spec spec2 now op cb deadline r =
     (case deadline of
        None \<Rightarrow> Reactor_Queue spec spec2 op cb r
      | Some t \<Rightarrow> Reactor_queue spec spec2 op cb (t - now) r)"

definition Reactor_Cancel ::
  "u64 \<Rightarrow> u64 \<Rightarrow> u64 \<Rightarrow> ('k Ring_scheme, 'cb, 'l) Reactor \<Rightarrow>
   (go_error option \<times> ('k Ring_scheme, 'cb, 'l) Reactor) outcome" where
  "Reactor_Cancel spec spec2 nonce r =
     obind (loopForNonce r nonce) (\<lambda>i.
       obind (loop_cancel spec spec2 nonce (re_loops r ! i)) (\<lambda>(err, l').
         Ok (err, r\<lparr>re_loops := (re_loops r)[i := l']\<rparr>)))"

section \<open>Nonces\<close>

lemma nextNonce_below: "nextNonce cur < cancelNonce"
proof (induction cur rule: nextNonce.induct)
  case (1 cur)
  then show ?case by (cases "cancelNonce \<le> cur + 1") (subst nextNonce.simps, simp add: Let_def)+
qed

lemma nextNonce_next: "cur + 1 < cancelNonce \<Longrightarrow> nextNonce cur = cur + 1"
  by (subst nextNonce.simps) (auto simp: Let_def)

text \<open>The callback map is a callback source: a batch is dispatched from it.\<close>

interpretation cbm: callback_source
  "\<lambda>_. True" "\<lambda>cbs. map_read cbs None" "take_callback :: u64 \<Rightarrow> (u64 \<rightharpoonup> 'cb option) \<Rightarrow> _"
  by unfold_locales (simp add: take_callback_def map_read_def)

section \<open>A loop with its clients and the kernel\<close>

text \<open>
  The state of a run: the loop and two histories, the requests accepted with their
  callbacks and the callbacks called with their events. Clients queue concurrently, so
  nonces reach a loop in any order; a nonce that \<^verbatim>\<open>nextNonce\<close> returns is not reserved (\<open>nextNonce_below\<close>), and
  it returns \<open>2 ^ 64 - 2\<close> others before it returns one again (\<open>nonces_of_distinct\<close>). \<open>ls_reused\<close> records that a
  request was accepted under a nonce used before, or with a nil callback: what happens
  to such a request is not accounted for. Each call of the kernel is answered by a kernel of its own.
\<close>

record 'cb lsys =
  ls_loop :: "(kring, 'cb) ringEventLoop"
  ls_queued :: "(u64 \<times> 'cb) list"
  ls_done :: "('cb \<times> CQEvent) list"
  ls_reused :: bool

inductive loop_step :: "'cb lsys \<Rightarrow> 'cb lsys \<Rightarrow> bool" where
  client_queue: "ud < cancelNonce \<Longrightarrow>
     loop_Queue spec spec2 \<lparr>rq_op = op, rq_flags = 0, rq_userData = ud, rq_timeout = timeout\<rparr>
       cb (ls_loop s) = Ok (err, l') \<Longrightarrow>
     loop_step s (s\<lparr>ls_loop := l',
       ls_queued := ls_queued s @ (case (err, cb) of (None, Some c) \<Rightarrow> [(ud, c)] | _ \<Rightarrow> []),
       ls_reused := ls_reused s \<or> err = None \<and> (ud \<in> fst ` set (ls_queued s) \<or> cb = None)\<rparr>)"
| client_cancel: "loop_cancel spec spec2 nonce (ls_loop s) = Ok (err, l') \<Longrightarrow>
     loop_step s (s\<lparr>ls_loop := l'\<rparr>)"
| publish: "kernel_conforms k \<Longrightarrow> publisher_submit k (ls_loop s) = Ok (err, l') \<Longrightarrow> loop_step s (s\<lparr>ls_loop := l'\<rparr>)"
| consume: "kernel_conforms k \<Longrightarrow> consume_batch k take_callback buff (el_ring (ls_loop s)) (el_callbacks (ls_loop s))
       = Ok (r', Some (cbs', calls, buff')) \<Longrightarrow> length buff = cqeBuffSize \<Longrightarrow>
     loop_step s (s\<lparr>ls_loop := (ls_loop s)\<lparr>el_ring := r', el_callbacks := cbs'\<rparr>,
       ls_done := ls_done s @ calls\<rparr>)"
| kernel: "kernel_step (el_ring (ls_loop s)) r' \<Longrightarrow>
     loop_step s (s\<lparr>ls_loop := (ls_loop s)\<lparr>el_ring := r'\<rparr>\<rparr>)"

definition lsys_init :: "kring \<Rightarrow> 'cb lsys" where
  "lsys_init r = \<lparr>ls_loop = newRingEventLoop r, ls_queued = [], ls_done = [], ls_reused = False\<rparr>"

text \<open>
  The invariant. The accepted requests are exactly those the ring still owes a completion
  and those whose callback was called; the former have their callback in the map; every
  call was made with the callback of its own nonce.
\<close>

definition loop_inv :: "'cb lsys \<Rightarrow> bool" where
  "loop_inv s \<longleftrightarrow> kring_wf (el_ring (ls_loop s)) \<and>
     mset (map fst (ls_queued s))
       = mset (filter user_nonce (live (el_ring (ls_loop s)))) + mset (called (ls_done s)) \<and>
     distinct (map fst (ls_queued s)) \<and>
     (\<forall>(u, cb)\<in>set (ls_queued s). u < cancelNonce \<and>
        (u \<in> set (live (el_ring (ls_loop s))) \<longrightarrow> el_callbacks (ls_loop s) u = Some (Some cb))) \<and>
     (\<forall>(cb, ev)\<in>set (ls_done s). (cqe_UserData ev, cb) \<in> set (ls_queued s))"

lemma loop_inv_init: "kring_wf r \<Longrightarrow> live r = [] \<Longrightarrow> loop_inv (lsys_init r)"
  by (simp add: loop_inv_def lsys_init_def newRingEventLoop_def)

lemma loop_inv_live:
  assumes "loop_inv s"
  shows "distinct (filter user_nonce (live (el_ring (ls_loop s))))"
    and "u \<in> set (live (el_ring (ls_loop s))) \<Longrightarrow> user_nonce u \<Longrightarrow>
       map_read (el_callbacks (ls_loop s)) None u \<noteq> None"
proof -
  let ?q = "ls_queued s" and ?l = "filter user_nonce (live (el_ring (ls_loop s)))"
  have eq: "mset (map fst ?q) = mset (?l @ called (ls_done s))"
    using assms by (simp add: loop_inv_def)
  from mset_eq_imp_distinct_iff [OF eq] show "distinct ?l"
    using assms by (simp add: loop_inv_def)
  assume u: "u \<in> set (live (el_ring (ls_loop s)))" "user_nonce u"
  then have "u \<in> set (map fst ?q)" using mset_eq_setD [OF eq] by simp
  then obtain cb where "(u, cb) \<in> set ?q" by auto
  with assms u show "map_read (el_callbacks (ls_loop s)) None u \<noteq> None"
    by (fastforce simp: loop_inv_def map_read_def)
qed

text \<open>What \<open>loop_Queue\<close> does: nothing on overflow, otherwise one entry and at most one timeout.\<close>

definition queue_post ::
  "u64 \<Rightarrow> 'cb option \<Rightarrow> (kring, 'cb) ringEventLoop \<Rightarrow> go_error option \<Rightarrow> (kring, 'cb) ringEventLoop \<Rightarrow> bool" where
  "queue_post ud cb l err l' \<longleftrightarrow> kring_wf (el_ring l') \<and>
     (if err = None
      then el_callbacks l' = (el_callbacks l)(ud \<mapsto> cb) \<and> (\<exists>ts. set ts \<subseteq> {timeoutNonce} \<and>
         mset (live (el_ring l')) = mset (live (el_ring l)) + {#ud#} + mset ts)
      else el_ring l' = el_ring l \<and> el_callbacks l' = el_callbacks l)"

lemma loop_Queue_post:
  assumes wf: "kring_wf (el_ring l)" and q: "loop_Queue spec spec2 req cb l = Ok (err, l')"
  shows "queue_post (rq_userData req) cb l err l'"
proof (cases "rq_timeout req = 0")
  case True
  with q obtain r' where r': "QueueSQE spec (rq_op req) (rq_flags req) (rq_userData req) (el_ring l) = Ok (err, r')"
    "l' = (if err = None then l\<lparr>el_needSubmit := 1, el_ring := r',
              el_callbacks := (el_callbacks l)(rq_userData req \<mapsto> cb)\<rparr>
           else l\<lparr>el_needSubmit := 1, el_ring := r'\<rparr>)"
    by (auto simp: loop_Queue_def Let_def go_outcome split: if_splits)
  with QueueSQE_live [OF wf r'(1)] show ?thesis
    by (auto simp: queue_post_def intro!: exI [of _ "[]"])
next
  case False
  with q obtain e1 r1 where r1: "QueueSQE spec (rq_op req) (rq_flags req OR SqeIOLinkFlag)
      (rq_userData req) (el_ring l) = Ok (e1, r1)"
    "err = e1" "e1 \<noteq> None \<Longrightarrow> l' = l\<lparr>el_needSubmit := 1, el_ring := r1\<rparr>"
    "e1 = None \<Longrightarrow> \<exists>e2 r2. QueueSQE spec2 (LinkTimeout (rq_timeout req)) 0 timeoutNonce r1 = Ok (e2, r2) \<and>
       l' = l\<lparr>el_needSubmit := 1, el_ring := r2, el_callbacks := (el_callbacks l)(rq_userData req \<mapsto> cb)\<rparr>"
    by (auto simp: loop_Queue_def Let_def go_outcome split: if_splits)
  note live1 = QueueSQE_live [OF wf r1(1)]
  show ?thesis
  proof (cases "e1 = None")
    case True
    with r1(4) obtain e2 r2 where r2: "QueueSQE spec2 (LinkTimeout (rq_timeout req)) 0 timeoutNonce r1 = Ok (e2, r2)"
      "l' = l\<lparr>el_needSubmit := 1, el_ring := r2, el_callbacks := (el_callbacks l)(rq_userData req \<mapsto> cb)\<rparr>"
      by blast
    have "kring_wf r1" using live1 by blast
    from QueueSQE_live [OF this r2(1)] True r1(2) r2(2) live1 show ?thesis
      by (cases "e2 = None")
        (auto simp: queue_post_def intro: exI [of _ "[timeoutNonce]"] exI [of _ "[]"])
  next
    case False
    with r1 live1 show ?thesis by (auto simp: queue_post_def)
  qed
qed

section \<open>Every step keeps the invariant\<close>

text \<open>Adding a request: \<open>acc\<close> is the history entry, if the request is a client's.\<close>

lemma queue_post_filter:
  assumes "queue_post ud cb l None l'"
  shows "mset (filter user_nonce (live (el_ring l')))
      = mset (filter user_nonce (live (el_ring l))) + mset (filter user_nonce [ud])"
    and "set (live (el_ring l')) \<subseteq> insert ud (insert timeoutNonce (set (live (el_ring l))))"
proof -
  obtain ts where ts: "set ts \<subseteq> {timeoutNonce}"
    "mset (live (el_ring l')) = mset (live (el_ring l)) + {#ud#} + mset ts"
    using assms by (auto simp: queue_post_def)
  have "filter user_nonce ts = []" using ts(1) by (auto simp: filter_empty_conv)
  then show "mset (filter user_nonce (live (el_ring l')))
      = mset (filter user_nonce (live (el_ring l))) + mset (filter user_nonce [ud])"
    using arg_cong [OF ts(2), of "filter_mset user_nonce"] by (simp flip: mset_filter)
  have "mset (live (el_ring l')) = mset (live (el_ring l) @ [ud] @ ts)" using ts(2) by simp
  from mset_eq_setD [OF this] ts(1)
  show "set (live (el_ring l')) \<subseteq> insert ud (insert timeoutNonce (set (live (el_ring l))))" by auto
qed

lemma loop_inv_queue:
  assumes inv: "loop_inv s" and ud: "ud < cancelNonce" "err = None \<Longrightarrow> ud \<notin> fst ` set (ls_queued s) \<and> c \<noteq> None"
    and q: "queue_post ud c (ls_loop s) err l'"
  shows "loop_inv (s\<lparr>ls_loop := l',
     ls_queued := ls_queued s @ (case (err, c) of (None, Some cb) \<Rightarrow> [(ud, cb)] | _ \<Rightarrow> []), ls_reused := b\<rparr>)"
proof (cases "err = None")
  case False
  with inv q show ?thesis by (auto simp: loop_inv_def queue_post_def)
next
  case True
  then obtain cb where c: "c = Some cb" using ud(2) by blast
  have old: "u < cancelNonce" if "(u, c) \<in> set (ls_queued s)" for u c
    using inv that by (auto simp: loop_inv_def)
  have fresh: "ud \<notin> set (map fst (ls_queued s))" using ud(2) True by simp
  have cbs: "el_callbacks l' = (el_callbacks (ls_loop s))(ud \<mapsto> Some cb)"
    and wf: "kring_wf (el_ring l')" using q True by (simp_all add: queue_post_def c)
  note f = queue_post_filter [OF q [unfolded True]]
  have "el_callbacks l' u = Some (Some c)" if "(u, c) \<in> set (ls_queued s)" "u \<in> set (live (el_ring l'))" for u c
  proof -
    have "u \<noteq> ud" using that(1) fresh by force
    moreover have "u \<noteq> timeoutNonce" using old [OF that(1)] user_nonce_less by fastforce
    ultimately have "u \<in> set (live (el_ring (ls_loop s)))" using that(2) f(2) by auto
    with \<open>u \<noteq> ud\<close> show ?thesis using inv that(1) cbs by (auto simp: loop_inv_def)
  qed
  then show ?thesis
    using inv True wf cbs f(1) fresh old ud user_nonce_less [OF ud(1)]
    by (auto simp: loop_inv_def c)
qed

lemma loop_inv_cancel:
  assumes inv: "loop_inv s" and q: "queue_post cancelNonce None (ls_loop s) err l'"
  shows "loop_inv (s\<lparr>ls_loop := l'\<rparr>)"
proof (cases "err = None")
  case False
  with inv q show ?thesis by (auto simp: loop_inv_def queue_post_def)
next
  case True
  note f = queue_post_filter [OF q [unfolded True]]
  have res: "u \<noteq> cancelNonce" "u \<noteq> timeoutNonce" if "(u, c) \<in> set (ls_queued s)" for u c
    using inv that user_nonce_less [of u] by (auto simp: loop_inv_def)
  have "el_callbacks l' u = Some (Some c)" if "(u, c) \<in> set (ls_queued s)" "u \<in> set (live (el_ring l'))" for u c
    using inv that f(2) res [OF that(1)] q True by (auto simp: loop_inv_def queue_post_def)
  with inv True f(1) q show ?thesis by (auto simp: loop_inv_def queue_post_def)
qed

text \<open>Steps that leave the callbacks alone and keep what the ring owes.\<close>

lemma loop_inv_ring:
  assumes inv: "loop_inv s" and "kring_wf (el_ring l')"
    and live: "mset (live (el_ring l')) = mset (live (el_ring (ls_loop s)))"
    and "el_callbacks l' = el_callbacks (ls_loop s)"
  shows "loop_inv (s\<lparr>ls_loop := l'\<rparr>)"
proof -
  have "set (live (el_ring l')) = set (live (el_ring (ls_loop s)))" using live by (rule mset_eq_setD)
  moreover have "mset (filter user_nonce (live (el_ring l')))
      = mset (filter user_nonce (live (el_ring (ls_loop s))))" using live by (simp add: mset_filter)
  ultimately show ?thesis using assms by (simp add: loop_inv_def)
qed

lemma loop_inv_calls:
  assumes inv: "loop_inv s" and r': "kring_wf r'"
    and m: "mset (filter user_nonce (live (el_ring (ls_loop s))))
        = mset (filter user_nonce (live r')) + mset (called calls)"
    and get: "\<forall>(cb, ev)\<in>set calls. map_read (el_callbacks (ls_loop s)) None (cqe_UserData ev) = Some cb"
    and cbs: "\<forall>v. map_read cbs' None v
        = (if v \<in> set (called calls) then None else map_read (el_callbacks (ls_loop s)) None v)"
  shows "loop_inv (s\<lparr>ls_loop := (ls_loop s)\<lparr>el_ring := r', el_callbacks := cbs'\<rparr>,
       ls_done := ls_done s @ calls\<rparr>)"
proof -
  let ?r = "el_ring (ls_loop s)" and ?cbs = "el_callbacks (ls_loop s)"
  have eq: "mset (filter user_nonce (live ?r)) = mset (filter user_nonce (live r') @ called calls)"
    using m by simp
  have disj: "set (filter user_nonce (live r')) \<inter> set (called calls) = {}"
    using mset_eq_imp_distinct_iff [OF eq] loop_inv_live(1) [OF inv] by auto
  have q: "(u, cb) \<in> set (ls_queued s) \<Longrightarrow> user_nonce u" for u cb
    using inv user_nonce_less by (fastforce simp: loop_inv_def)
  have keep: "cbs' u = Some (Some cb)" if "(u, cb) \<in> set (ls_queued s)" "u \<in> set (live r')" for u cb
  proof -
    have "u \<in> set (filter user_nonce (live ?r))" and "u \<notin> set (called calls)"
      using that q mset_eq_setD [OF eq] disj by auto
    then have "map_read cbs' None u = Some cb"
      using inv that(1) cbs by (auto simp: loop_inv_def map_read_def)
    then show ?thesis by (simp add: map_read_def split: option.splits)
  qed
  have "(cqe_UserData ev, cb) \<in> set (ls_queued s)" if "(cb, ev) \<in> set calls" for cb ev
  proof -
    have u: "cqe_UserData ev \<in> set (called calls)" using that by (force simp: called_def)
    then have live: "cqe_UserData ev \<in> set (filter user_nonce (live ?r))" using mset_eq_setD [OF eq] by auto
    then have "cqe_UserData ev \<in> set (map fst (ls_queued s))"
      using inv mset_eq_setD [of "map fst (ls_queued s)" "filter user_nonce (live ?r) @ called (ls_done s)"]
      by (simp add: loop_inv_def)
    then obtain cb' where "(cqe_UserData ev, cb') \<in> set (ls_queued s)" by auto
    moreover from this have "cb' = cb"
      using inv live get that by (fastforce simp: loop_inv_def map_read_def)
    ultimately show ?thesis by simp
  qed
  with inv r' m keep show ?thesis by (auto simp: loop_inv_def)
qed

lemma loop_inv_consume:
  assumes inv: "loop_inv s" and k: "kernel_conforms k" and buff: "length buff = cqeBuffSize"
    and c: "consume_batch k take_callback buff (el_ring (ls_loop s)) (el_callbacks (ls_loop s))
       = Ok (r', Some (cbs', calls, buff'))"
  shows "loop_inv (s\<lparr>ls_loop := (ls_loop s)\<lparr>el_ring := r', el_callbacks := cbs'\<rparr>,
       ls_done := ls_done s @ calls\<rparr>)"
proof -
  have "kring_wf (el_ring (ls_loop s))" and "length buff < 2 ^ 32"
    using inv buff by (simp_all add: loop_inv_def cqeBuffSize_def)
  from cbm.consume_batch_ok [OF this(1) k this(2) TrueI loop_inv_live [OF inv]] c
  show ?thesis by (intro loop_inv_calls [OF inv]) auto
qed

lemma loop_step_inv:
  assumes "loop_step s s'" and ok: "\<not> ls_reused s'" and inv: "loop_inv s"
  shows "loop_inv s'"
  using assms(1)
proof (cases rule: loop_step.cases)
  case (client_queue ud spec spec2 op timeout cb err l')
  have "kring_wf (el_ring (ls_loop s))" using inv by (simp add: loop_inv_def)
  note post = loop_Queue_post [OF this client_queue(3)]
  have "ud \<notin> fst ` set (ls_queued s) \<and> cb \<noteq> None" if "err = None" using ok client_queue(1) that by simp
  with post loop_inv_queue [OF inv client_queue(2), of err cb l'] client_queue(1)
  show ?thesis by simp
next
  case (client_cancel spec spec2 nonce err l')
  have "kring_wf (el_ring (ls_loop s))" using inv by (simp add: loop_inv_def)
  from loop_Queue_post [OF this client_cancel(2) [unfolded loop_cancel_def]] loop_inv_cancel [OF inv] client_cancel(1)
  show ?thesis by simp
next
  case (publish k err l')
  have wf: "kring_wf (el_ring (ls_loop s))" using inv by (simp add: loop_inv_def)
  show ?thesis
  proof (cases "el_needSubmit (ls_loop s) = 1")
    case True
    with publish(3) Submit_frame [OF wf publish(2)] obtain r' where
      "l' = (ls_loop s)\<lparr>el_needSubmit := 0, el_ring := r'\<rparr>" "kring_wf r'"
      "mset (live r') = mset (live (el_ring (ls_loop s)))"
      by (auto simp: publisher_submit_def)
    with publish(1) loop_inv_ring [OF inv, of l'] show ?thesis by simp
  next
    case False
    then have "l' = ls_loop s" using publish(3) by (simp add: publisher_submit_def)
    with publish(1) wf loop_inv_ring [OF inv, of l'] show ?thesis by simp
  qed
next
  case (consume k buff r' cbs' calls buff')
  with loop_inv_consume [OF inv consume(2,4,3)] show ?thesis by simp
next
  case (kernel r')
  have "kring_wf (el_ring (ls_loop s))" using inv by (simp add: loop_inv_def)
  from kernel_step_frame [OF kernel(2) this] kernel(1) show ?thesis
    using loop_inv_ring [OF inv, of "(ls_loop s)\<lparr>el_ring := r'\<rparr>"] by (simp add: kernel_frame_def)
qed

lemma loop_step_reused: "loop_step s s' \<Longrightarrow> ls_reused s \<Longrightarrow> ls_reused s'"
  by (cases rule: loop_step.cases) auto

interpretation loop_runs: invariant_system loop_step "\<lambda>s. \<not> ls_reused s" loop_inv
  by unfold_locales (use loop_step_inv loop_step_reused in blast)+

lemma loop_reachable_inv:
  assumes "loop_step\<^sup>*\<^sup>* (lsys_init r) s" and "\<not> ls_reused s" and "kring_wf r" and "live r = []"
  shows "loop_inv s"
  using loop_runs.run_keeps [OF assms(1,2)] loop_inv_init assms(3,4) by blast

section \<open>A round of the consumer\<close>

lemma consumer_round_ok:
  assumes inv: "loop_inv s" and ext: "ExtArgFeature (Params (el_ring (ls_loop s)))"
    and k: "kernel_conforms k" "kernel_waits k" and buff: "length buff = cqeBuffSize"
  shows "\<exists>err l' calls. consumer_round k spec arg tick buff (ls_loop s) = Some (Ok (err, l', calls)) \<and>
     loop_inv (s\<lparr>ls_loop := l', ls_done := ls_done s @ calls\<rparr>) \<and>
     (cq_ready (cqRing (el_ring (ls_loop s))) \<noteq> [] \<longrightarrow> err = None \<and> cq_ready (cqRing (el_ring l')) = [] \<and>
        (\<exists>more. called calls = users (cq_ready (cqRing (el_ring (ls_loop s)))) @ more))"
proof -
  let ?r = "el_ring (ls_loop s)" and ?cbs = "el_callbacks (ls_loop s)"
  have wf: "kring_wf ?r" using inv by (simp add: loop_inv_def)
  have cbs: "\<forall>u\<in>set (live ?r). user_nonce u \<longrightarrow> map_read ?cbs None u \<noteq> None"
    using loop_inv_live(2) [OF inv] by blast
  obtain err r' cbs calls where
    w: "wait_and_drain k take_callback spec arg tick buff ?r ?cbs = Some (Ok (err, r', cbs, calls))"
    and rest: "kring_wf r'"
      "mset (filter user_nonce (live ?r)) = mset (filter user_nonce (live r')) + mset (called calls)"
      "\<forall>(cb, ev)\<in>set calls. map_read ?cbs None (cqe_UserData ev) = Some cb"
      "\<forall>v. map_read cbs None v = (if v \<in> set (called calls) then None else map_read ?cbs None v)"
      "cq_ready (cqRing ?r) \<noteq> [] \<longrightarrow> err = None \<and> cq_ready (cqRing r') = [] \<and>
         (\<exists>more. called calls = users (cq_ready (cqRing ?r)) @ more)"
    using cbm.wait_and_drain_ok [OF wf ext k buff TrueI loop_inv_live(1) [OF inv] cbs,
        where spec = spec and arg = arg and tick = tick]
    by (elim exE conjE) (rule that)
  from w loop_inv_calls [OF inv rest(1-4)] rest(5) show ?thesis
    by (simp add: consumer_round_def)
qed

section \<open>Nonces are not reused\<close>

text \<open>The nonces of the first \<open>n\<close> calls, in order.\<close>

fun nonces_of :: "nat \<Rightarrow> u64 \<Rightarrow> u64 list" where
  "nonces_of 0 cur = []"
| "nonces_of (Suc n) cur = nextNonce cur # nonces_of n (nextNonce cur)"

text \<open>The nonces are the numbers below \<open>2 ^ 64 - 2\<close>, taken in a circle from wherever the counter stands.\<close>

lemma nextNonce_circle:
  "unat (nextNonce cur) = (if unat cur < 2 ^ 64 - 2 then (unat cur + 1) mod (2 ^ 64 - 2) else 0)"
proof -
  have z: "nextNonce (- 1) = 0" by (subst nextNonce.simps) (simp add: cancelNonce_def)
  then have y: "nextNonce (- 2) = 0" by (subst nextNonce.simps) (simp add: cancelNonce_def)
  then have x: "nextNonce (- 3) = 0" by (subst nextNonce.simps) (simp add: cancelNonce_def)
  have m1: "unat (- 1 :: u64) = 2 ^ 64 - 1" by (simp add: unsigned_minus_1_eq_mask mask_eq_exp_minus_1)
  consider "unat cur < 2 ^ 64 - 3" | "cur = - 3" | "cur = - 2" | "cur = - 1"
  proof -
    have "unat cur < 2 ^ 64" using unsigned_less [of cur, where ?'a = nat] by simp
    then consider "unat cur < 2 ^ 64 - 3" | "unat cur = unat (- 3 :: u64)" | "unat cur = unat (- 2 :: u64)" | "unat cur = unat (- 1 :: u64)"
      using m1 by fastforce
    then show thesis using that by (metis word_unat_eq_iff)
  qed
  then show ?thesis
  proof cases
    case 1
    have suc: "unat (cur + 1) = unat cur + 1" using 1 by (simp add: unat_word_ariths)
    then have "cur + 1 < cancelNonce" using 1 by (simp add: word_less_nat_alt cancelNonce_def)
    then show ?thesis using 1 suc by (simp add: nextNonce_next)
  qed (simp_all add: x y z m1)
qed

lemma nonces_of_circle:
  "map unat (nonces_of n cur) = map (\<lambda>i. (unat (nextNonce cur) + i) mod (2 ^ 64 - 2)) [0..<n]"
proof (induction n arbitrary: cur)
  case (Suc n)
  have lt: "unat (nextNonce cur) < 2 ^ 64 - 2"
    using nextNonce_below [of cur] by (simp add: word_less_nat_alt cancelNonce_def)
  then have "unat (nextNonce (nextNonce cur)) = (unat (nextNonce cur) + 1) mod (2 ^ 64 - 2)"
    by (simp add: nextNonce_circle [of "nextNonce cur"])
  then have "map unat (nonces_of n (nextNonce cur)) = map (\<lambda>i. (unat (nextNonce cur) + Suc i) mod (2 ^ 64 - 2)) [0..<n]"
    using Suc.IH [of "nextNonce cur"] by (simp add: mod_simps)
  with lt show ?case by (simp add: map_upt_Suc del: upt_Suc)
qed simp

lemma nonces_of_distinct:
  assumes "n \<le> 2 ^ 64 - 2"
  shows "distinct (nonces_of n cur)"
proof -
  have "inj_on (\<lambda>i. (s + i) mod m) {0..<n}" if "n \<le> m" for s m n :: nat
  proof (rule inj_onI)
    fix i j assume ij: "i \<in> {0..<n}" "j \<in> {0..<n}" "(s + i) mod m = (s + j) mod m"
    then have "i mod m = j mod m" by (simp add: nat_mod_eq_iff)
    with ij that show "i = j" by simp
  qed
  from this [OF assms] have "distinct (map unat (nonces_of n cur))"
    unfolding nonces_of_circle by (simp add: distinct_map)
  then show ?thesis by (simp add: distinct_map)
qed

lemma card_user_nonces: "card {u. user_nonce u} = 2 ^ 64 - 2"
proof -
  have "{u. user_nonce u} = UNIV - {- 1, - 2}" by (auto simp: user_nonce_def timeoutNonce_def cancelNonce_def)
  moreover have "card (UNIV - {- 1, - 2 :: u64}) = CARD(u64) - 2" by (subst card_Diff_subset) simp_all
  ultimately show ?thesis by (simp add: card_word)
qed

lemma nonces_of_below: "u \<in> set (nonces_of n cur) \<Longrightarrow> u < cancelNonce"
  by (induction n arbitrary: cur) (auto simp: nextNonce_below)

section \<open>Linked timeouts\<close>

text \<open>
  The kernel ties a link timeout to the entry before it: with room for two entries, an
  operation with a deadline and its timeout are queued next to each other.
\<close>

lemma loop_Queue_linked:
  assumes wf: "sq_wf (sqRing (el_ring l))" and t: "rq_timeout req \<noteq> 0"
    and room: "length (sq_published (sqRing (el_ring l))) + length (sq_pending (sqRing (el_ring l))) + 2
        \<le> sq_cap (sqRing (el_ring l))"
    and e: "ring_entry spec (rq_op req, rq_flags req OR SqeIOLinkFlag, rq_userData req) = Ok e"
  shows "\<exists>l' t. loop_Queue spec spec2 req cb l = Ok (None, l') \<and>
     ring_entry spec2 (LinkTimeout (rq_timeout req), 0, timeoutNonce) = Ok t \<and>
     sq_pending (sqRing (el_ring l')) = sq_pending (sqRing (el_ring l)) @ [e, t] \<and>
     el_callbacks l' = (el_callbacks l)(rq_userData req \<mapsto> cb)"
proof -
  let ?r = "el_ring l"
  obtain r1 where r1: "QueueSQE spec (rq_op req) (rq_flags req OR SqeIOLinkFlag) (rq_userData req) ?r = Ok (None, r1)"
    "sq_wf (sqRing r1)" "sq_cap (sqRing r1) = sq_cap (sqRing ?r)"
    "sq_published (sqRing r1) = sq_published (sqRing ?r)" "sq_pending (sqRing r1) = sq_pending (sqRing ?r) @ [e]"
    using rsq.queue_fits [OF wf _ e] room by (auto simp: ring_queue_def simp del: length_sq_published length_sq_pending)
  obtain t where tm: "ring_entry spec2 (LinkTimeout (rq_timeout req), 0, timeoutNonce) = Ok t"
    by (simp add: ring_entry_def LinkTimeout_def)
  obtain r2 where r2: "QueueSQE spec2 (LinkTimeout (rq_timeout req)) 0 timeoutNonce r1 = Ok (None, r2)"
    "sq_pending (sqRing r2) = sq_pending (sqRing r1) @ [t]"
    using rsq.queue_fits [OF r1(2) _ tm] room r1(3,4,5)
    by (auto simp: ring_queue_def simp del: length_sq_published length_sq_pending)
  show ?thesis using r1(1,5) r2 tm t by (simp add: loop_Queue_def Let_def)
qed

section \<open>Properties\<close>

text \<open>
  C3. The reactor accounts for every request. In every run of a loop with its clients, its
  publisher, its consumer and a conforming kernel, starting from an idle ring, as long as no nonce
  was used twice and no nil callback queued: the accepted
  requests are exactly those still owed a completion and those whose callback was called,
  once each; every call was made with the callback registered for the nonce of its event;
  and handling the next batch does not panic.
\<close>

theorem reactor_callbacks:
  assumes "loop_step\<^sup>*\<^sup>* (lsys_init r) s" and "\<not> ls_reused s" and "kring_wf r" and "live r = []"
    and "kernel_conforms k"
  shows "mset (map fst (ls_queued s))
       = mset (filter user_nonce (live (el_ring (ls_loop s)))) + mset (called (ls_done s)) \<and>
     distinct (map fst (ls_queued s)) \<and>
     (\<forall>(cb, ev)\<in>set (ls_done s). (cqe_UserData ev, cb) \<in> set (ls_queued s)) \<and>
     (\<forall>buff. length buff = cqeBuffSize \<longrightarrow> (\<exists>res. consume_batch k take_callback buff
        (el_ring (ls_loop s)) (el_callbacks (ls_loop s)) = Ok res))"
proof -
  have inv: "loop_inv s" using loop_reachable_inv [OF assms(1-4)] .
  have "\<exists>res. consume_batch k take_callback buff (el_ring (ls_loop s)) (el_callbacks (ls_loop s)) = Ok res"
    if "length buff = cqeBuffSize" for buff
  proof -
    have "kring_wf (el_ring (ls_loop s))" "length buff < 2 ^ 32"
      using inv that by (simp_all add: loop_inv_def cqeBuffSize_def)
    from cbm.consume_batch_ok [OF this(1) assms(5) this(2) TrueI loop_inv_live [OF inv]] show ?thesis by auto
  qed
  with inv show ?thesis by (auto simp: loop_inv_def)
qed

text \<open>A run: one client queues a no-op with the callback 5 under the first nonce.\<close>

lemma ex_queue_step:
  "\<exists>s. loop_step\<^sup>*\<^sup>* (lsys_init ex_kring) s \<and> ls_queued s = [(1, 5 :: nat)] \<and> \<not> ls_reused s \<and>
     ExtArgFeature (Params (el_ring (ls_loop s)))"
proof -
  have "length (sq_published (sqRing ex_kring)) + length (sq_pending (sqRing ex_kring)) < sq_cap (sqRing ex_kring)"
    unfolding ex_kring_room by simp
  then have "QueueSQE 0 NopOp 0 1 ex_kring = obind (uop.entry 0 NopOp 0 1)
      (\<lambda>e. Ok (None, ex_kring\<lparr>sqRing := sq_push e (sqRing ex_kring)\<rparr>))"
    using ex_kring_wf(1) by (intro QueueSQE_fits) (simp_all add: kring_wf_def)
  then obtain r' where r': "QueueSQE 0 NopOp 0 1 ex_kring = Ok (None, r')" "Params r' = Params ex_kring"
    by (auto simp: uop.entry_def)
  let ?l = "newRingEventLoop ex_kring :: (kring, nat) ringEventLoop"
  let ?l' = "?l\<lparr>el_needSubmit := 1, el_ring := r', el_callbacks := [1 \<mapsto> Some 5]\<rparr>"
  have q: "loop_Queue 0 0 \<lparr>rq_op = NopOp, rq_flags = 0, rq_userData = 1, rq_timeout = 0\<rparr> (Some 5) ?l = Ok (None, ?l')"
    using r'(1) by (simp add: loop_Queue_def newRingEventLoop_def)
  have "loop_step (lsys_init ex_kring) (lsys_init ex_kring\<lparr>ls_loop := ?l', ls_queued := [(1, 5)], ls_reused := False\<rparr>)"
    using loop_step.client_queue [of 1 0 0 NopOp 0 "Some 5" "lsys_init ex_kring" None ?l'] q
    by (simp add: lsys_init_def cancelNonce_def)
  then show ?thesis
    using r'(2) ex_kring_wf(3)
    by (intro exI [of _ "lsys_init ex_kring\<lparr>ls_loop := ?l', ls_queued := [(1, 5)], ls_reused := False\<rparr>"])
      (simp add: lsys_init_def r_into_rtranclp)
qed

theorem reactor_callbacks_witness:
  "\<exists>s :: nat lsys. loop_step\<^sup>*\<^sup>* (lsys_init ex_kring) s \<and> ls_queued s = [(1, 5)] \<and>
     mset (map fst (ls_queued s))
       = mset (filter user_nonce (live (el_ring (ls_loop s)))) + mset (called (ls_done s))"
proof -
  obtain s :: "nat lsys" where s: "loop_step\<^sup>*\<^sup>* (lsys_init ex_kring) s" "ls_queued s = [(1, 5)]" "\<not> ls_reused s"
    using ex_queue_step by blast
  from reactor_callbacks [OF s(1,3) ex_kring_wf(1,2) ex_intr_ok(1)] s show ?thesis by blast
qed

text \<open>
  C4. The consumer makes progress: in every reachable state, as long as no nonce was used twice and no
  nil callback queued, and on a ring with the extended-argument feature, a round of the consumer returns
  without a panic, and calls only callbacks registered for the nonce of their event; if
  events are waiting it makes no error, leaves none, and has called the callbacks of all of
  them in the order they were posted.
\<close>

theorem reactor_round:
  assumes "loop_step\<^sup>*\<^sup>* (lsys_init r) s" and "\<not> ls_reused s" and "kring_wf r" and "live r = []"
    and "kernel_conforms k" and "kernel_waits k" and "ExtArgFeature (Params (el_ring (ls_loop s)))" and "length buff = cqeBuffSize"
  shows "\<exists>err l' calls. consumer_round k spec arg tick buff (ls_loop s) = Some (Ok (err, l', calls)) \<and>
     (\<forall>(cb, ev)\<in>set calls. (cqe_UserData ev, cb) \<in> set (ls_queued s)) \<and>
     (cq_ready (cqRing (el_ring (ls_loop s))) \<noteq> [] \<longrightarrow> err = None \<and> cq_ready (cqRing (el_ring l')) = [] \<and>
        (\<exists>more. called calls = users (cq_ready (cqRing (el_ring (ls_loop s)))) @ more))"
proof -
  have inv: "loop_inv s" using loop_reachable_inv [OF assms(1-4)] .
  obtain err l' calls where
    "consumer_round k spec arg tick buff (ls_loop s) = Some (Ok (err, l', calls))"
    "loop_inv (s\<lparr>ls_loop := l', ls_done := ls_done s @ calls\<rparr>)"
    "cq_ready (cqRing (el_ring (ls_loop s))) \<noteq> [] \<longrightarrow> err = None \<and> cq_ready (cqRing (el_ring l')) = [] \<and>
        (\<exists>more. called calls = users (cq_ready (cqRing (el_ring (ls_loop s)))) @ more)"
    using consumer_round_ok [OF inv assms(7,5,6,8), of spec arg tick] by (elim exE conjE) (rule that)
  then show ?thesis by (auto simp: loop_inv_def)
qed

theorem reactor_round_witness:
  "\<exists>(s :: nat lsys) err l' calls. loop_step\<^sup>*\<^sup>* (lsys_init ex_kring) s \<and>
     consumer_round ex_intr 0 0 1000000 (replicate cqeBuffSize None) (ls_loop s) = Some (Ok (err, l', calls))"
proof -
  obtain s :: "nat lsys" where s: "loop_step\<^sup>*\<^sup>* (lsys_init ex_kring) s"
    "ExtArgFeature (Params (el_ring (ls_loop s)))" "\<not> ls_reused s"
    using ex_queue_step by blast
  from reactor_round [OF s(1,3) ex_kring_wf(1,2) ex_intr_ok s(2)] s(1) show ?thesis
    by (metis length_replicate)
qed

text \<open>
  C20. Nonces are fresh: wherever the counter stands, also at its end, the next \<open>2 ^ 64 - 2\<close> calls of
  \<^verbatim>\<open>nextNonce\<close> return distinct numbers, none of them a reserved nonce; so every number that is not
  reserved is returned once in a round.
\<close>

theorem nonces_fresh:
  assumes "n \<le> 2 ^ 64 - 2"
  shows "distinct (nonces_of n cur) \<and> (\<forall>u\<in>set (nonces_of n cur). user_nonce u) \<and>
     (\<forall>u. n = 2 ^ 64 - 2 \<and> user_nonce u \<longrightarrow> u \<in> set (nonces_of n cur))"
proof -
  have sub: "set (nonces_of n cur) \<subseteq> {u. user_nonce u}" using nonces_of_below user_nonce_less by blast
  have "card {u. user_nonce u} = 2 ^ 64 - 2" by (rule card_user_nonces)
  moreover have "card (set (nonces_of n cur)) = n"
    using distinct_card [OF nonces_of_distinct [OF assms]] arg_cong [OF nonces_of_circle, of length n cur] by simp
  ultimately have "n = 2 ^ 64 - 2 \<Longrightarrow> set (nonces_of n cur) = {u. user_nonce u}"
    using card_subset_eq [OF _ sub] by simp
  with sub nonces_of_distinct [OF assms] show ?thesis by blast
qed

theorem nonces_fresh_witness:
  "nonces_of 2 (- 4) = [- 3, 0] \<and> distinct (nonces_of 2 (- 4)) \<and> user_nonce (- 3) \<and> user_nonce 0"
proof -
  have "nextNonce (- 4) = - 3" by (subst nextNonce.simps) (simp add: cancelNonce_def)
  moreover have "nextNonce (- 3) = 0" using nextNonce_circle [of "- 3"] by (simp add: unat_eq_0)
  ultimately have "nonces_of 2 (- 4) = [- 3, 0]" by (simp add: numeral_2_eq_2)
  with nonces_fresh [of 2 "- 4"] show ?thesis by (auto simp del: nonces_of.simps)
qed

text \<open>
  C31. A deadline travels with its operation: with room for two entries, \<^verbatim>\<open>Queue\<close> of an operation that can be
  prepared, with a timeout, queues the operation with the link flag and directly behind it the link timeout with the
  timeout nonce, and registers the callback.
\<close>

theorem linked_timeout_adjacent:
  assumes "sq_wf (sqRing (el_ring l))" and "rq_timeout req \<noteq> 0"
    and "length (sq_published (sqRing (el_ring l))) + length (sq_pending (sqRing (el_ring l))) + 2
        \<le> sq_cap (sqRing (el_ring l))"
    and "ring_entry spec (rq_op req, rq_flags req OR SqeIOLinkFlag, rq_userData req) = Ok e"
  shows "\<exists>l' t. loop_Queue spec spec2 req cb l = Ok (None, l') \<and>
     sq_pending (sqRing (el_ring l')) = sq_pending (sqRing (el_ring l)) @ [e, t] \<and>
     sqe_Flags e = rq_flags req OR SqeIOLinkFlag \<and> sqe_UserData e = rq_userData req \<and>
     sqe_OpCode t = 15 \<and> sqe_UserData t = timeoutNonce \<and> sqe_Addr t = spec2 \<and> sqe_Len t = 1 \<and>
     el_callbacks l' = (el_callbacks l)(rq_userData req \<mapsto> cb)"
proof -
  obtain l' t where l': "loop_Queue spec spec2 req cb l = Ok (None, l')"
    "ring_entry spec2 (LinkTimeout (rq_timeout req), 0, timeoutNonce) = Ok t"
    "sq_pending (sqRing (el_ring l')) = sq_pending (sqRing (el_ring l)) @ [e, t]"
    "el_callbacks l' = (el_callbacks l)(rq_userData req \<mapsto> cb)"
    using loop_Queue_linked [OF assms] by blast
  have "sqe_OpCode t = 15 \<and> sqe_UserData t = timeoutNonce \<and> sqe_Addr t = spec2 \<and> sqe_Len t = 1"
    using l'(2) by (auto simp: ring_entry_def LinkTimeout_def setUserData_def)
  moreover have "sqe_Flags e = rq_flags req OR SqeIOLinkFlag \<and> sqe_UserData e = rq_userData req"
    using uop.entry_sel assms(4) by (simp add: ring_entry_uop)
  ultimately show ?thesis using l' by blast
qed

theorem linked_timeout_adjacent_witness:
  "\<exists>l' e t. loop_Queue 16 32 \<lparr>rq_op = NopOp, rq_flags = 0, rq_userData = 1, rq_timeout = 5\<rparr> (Some (5 :: nat))
       (newRingEventLoop ex_kring) = Ok (None, l') \<and> sq_pending (sqRing (el_ring l')) = [e, t] \<and>
     sqe_Flags e = SqeIOLinkFlag \<and> sqe_Addr t = 32"
proof -
  obtain e where e: "ring_entry 16 (NopOp, SqeIOLinkFlag, 1) = Ok e" by (simp add: ring_entry_def)
  have wf: "sq_wf (sqRing (el_ring (newRingEventLoop ex_kring)))"
    using ex_kring_wf(1) by (simp add: kring_wf_def newRingEventLoop_def)
  have nil: "sq_pending (sqRing ex_kring) = []" using ex_ring_sq(3) by (simp add: ex_kring_def)
  show ?thesis
    using linked_timeout_adjacent [OF wf, of "\<lparr>rq_op = NopOp, rq_flags = 0, rq_userData = 1, rq_timeout = 5\<rparr>" 16 e 32 "Some 5"]
      e ex_kring_room nil
    by (auto simp: newRingEventLoop_def simp del: length_sq_published length_sq_pending)
qed

text \<open>
  A refused request leaves no trace: when \<^verbatim>\<open>Queue\<close> returns an error it is
  \<^verbatim>\<open>ErrSQOverflow\<close>, and the ring and the callbacks are as before.
\<close>

theorem queue_refused:
  assumes "kring_wf (el_ring l)" and "loop_Queue spec spec2 req cb l = Ok (Some err, l')"
  shows "err = ErrSQOverflow \<and> el_ring l' = el_ring l \<and> el_callbacks l' = el_callbacks l"
proof -
  have "err = ErrSQOverflow"
    using assms QueueSQE_live [OF assms(1)]
    by (fastforce simp: loop_Queue_def Let_def go_outcome split: if_splits)
  with loop_Queue_post [OF assms] show ?thesis by (simp add: queue_post_def)
qed

theorem queue_refused_witness:
  "\<exists>l'. loop_Queue 0 0 \<lparr>rq_op = NopOp, rq_flags = 0, rq_userData = 1, rq_timeout = 0\<rparr> (Some (5 :: nat))
       (newRingEventLoop ex_full) = Ok (Some ErrSQOverflow, l') \<and> el_callbacks l' = Map.empty"
proof -
  have sq: "sq_wf (sqRing ex_full)" using ex_full_wf(1) by (simp add: kring_wf_def)
  let ?l = "newRingEventLoop ex_full :: (kring, nat) ringEventLoop"
  obtain l' where l': "loop_Queue 0 0 \<lparr>rq_op = NopOp, rq_flags = 0, rq_userData = 1, rq_timeout = 0\<rparr>
      (Some 5) ?l = Ok (Some ErrSQOverflow, l')"
    using QueueSQE_full [OF sq ex_full_wf(2)] by (simp add: loop_Queue_def newRingEventLoop_def)
  have "kring_wf (el_ring ?l)" using ex_full_wf(1) by (simp add: newRingEventLoop_def)
  from queue_refused [OF this l'] l' show ?thesis by (simp add: newRingEventLoop_def)
qed

text \<open>
  C34. A failed submit is not retried: when the kernel refuses a submission, whatever the
  error, the publisher of the plain loop logs it and has already cleared \<^verbatim>\<open>needSubmit\<close>; the
  entries stay published and the next submit signals do nothing until a client queues again.
\<close>

theorem submit_not_retried:
  assumes "kring_wf (el_ring l)" and "kernel_conforms k" and "el_needSubmit l = 1"
    and "Submit k (el_ring l) = Ok (c, Some err, r')"
  shows "\<exists>l'. publisher_submit k l = Ok (Some err, l') \<and> mset (live (el_ring l')) = mset (live (el_ring l)) \<and>
     sq_pending (sqRing (el_ring l')) = [] \<and> (\<forall>k'. publisher_submit k' l' = Ok (None, l'))"
  using Submit_frame [OF assms(1,2)] assms(3,4) by (auto simp: publisher_submit_def)

theorem submit_not_retried_witness:
  "\<exists>l' :: (kring, nat) ringEventLoop. publisher_submit ex_busy ((newRingEventLoop ex_three)\<lparr>el_needSubmit := 1\<rparr>)
       = Ok (Some (SyscallError ''io_uring_enter'' (Errno 16)), l') \<and>
     (\<forall>k'. publisher_submit k' l' = Ok (None, l'))"
proof -
  let ?l = "(newRingEventLoop ex_three)\<lparr>el_needSubmit := 1\<rparr> :: (kring, nat) ringEventLoop"
  obtain c r' where s: "Submit ex_busy (el_ring ?l) = Ok (c, Some (SyscallError ''io_uring_enter'' (Errno 16)), r')"
    using ex_busy_submit by (auto simp: newRingEventLoop_def)
  have "kring_wf (el_ring ?l)" using ex_three_wf(1) by (simp add: newRingEventLoop_def)
  from submit_not_retried [OF this ex_busy_ok _ s] show ?thesis by auto
qed

end
