(* ===== verification/Reactor_Stop.thy ===== *)
theory Reactor_Stop
  imports Uring_Prelude
begin

text \<open>
  The control flow of an event loop: the consumer and the publisher goroutines of
  \<^verbatim>\<open>src/reactor/net.go\<close> and \<^verbatim>\<open>src/reactor/reactor.go\<close>, and the goroutine of \<^verbatim>\<open>Run\<close> that
  stops them, communicating over unbuffered channels. A send on an unbuffered channel and
  the receive it meets are one step; a receive from a closed channel returns at once; a send
  on a closed channel and a second close panic. The work between two channel operations is
  one step of the goroutine that does it; that this work ends is shown in the theories of
  the loops.

  The parameter \<open>two\<close> tells the network loop, whose consumer signals a second time before it
  reads events, from the plain loop.
\<close>

section \<open>Program points\<close>

datatype consumer_pc = CSignal | CWait | CSignal2 | CDrain | CPoll | CClose | CDone

datatype publisher_pc = PSelect | PSubmit | PRequest | PClose | PDefer1 | PDefer2 | PDone

datatype run_pc = KRun | KStopConsumer | KAwaitConsumer | KStopPublisher | KAwaitPublisher | KDone

record stop_state =
  cons :: consumer_pc
  publ :: publisher_pc
  ctl :: run_pc
  closedStopConsumer :: bool
  closedStopPublisher :: bool
  closedSubmit :: bool
  closedReqBuss :: bool
  paniced :: bool

definition stop_init :: stop_state where
  "stop_init = \<lparr>cons = CSignal, publ = PSelect, ctl = KRun, closedStopConsumer = False,
     closedStopPublisher = False, closedSubmit = False, closedReqBuss = False, paniced = False\<rparr>"

definition after_wait :: "bool \<Rightarrow> consumer_pc" where
  "after_wait two = (if two then CSignal2 else CDrain)"

text \<open>\<^verbatim>\<open>close(ch)\<close>: a second close panics.\<close>

definition panic_if :: "bool \<Rightarrow> stop_state \<Rightarrow> stop_state" where
  "panic_if b s = s\<lparr>paniced := (paniced s \<or> b)\<rparr>"

section \<open>Steps\<close>

inductive stop_step :: "bool \<Rightarrow> stop_state \<Rightarrow> stop_state \<Rightarrow> bool" for two where
  signal: "cons s = CSignal \<Longrightarrow> publ s = PSelect \<Longrightarrow> \<not> closedSubmit s \<Longrightarrow>
     stop_step two s (s\<lparr>cons := CWait, publ := PSubmit\<rparr>)"
| signal_closed: "cons s = CSignal \<or> cons s = CSignal2 \<Longrightarrow> closedSubmit s \<Longrightarrow>
     stop_step two s (panic_if True s)"
| wait_retry: "cons s = CWait \<Longrightarrow> stop_step two s (s\<lparr>cons := CPoll\<rparr>)"
| wait_event: "cons s = CWait \<Longrightarrow> stop_step two s (s\<lparr>cons := after_wait two\<rparr>)"
| signal2: "cons s = CSignal2 \<Longrightarrow> publ s = PSelect \<Longrightarrow> \<not> closedSubmit s \<Longrightarrow>
     stop_step two s (s\<lparr>cons := CDrain, publ := PSubmit\<rparr>)"
| drained: "cons s = CDrain \<Longrightarrow> stop_step two s (s\<lparr>cons := CPoll\<rparr>)"
| poll_stop: "cons s = CPoll \<Longrightarrow> ctl s = KStopConsumer \<Longrightarrow>
     stop_step two s (s\<lparr>cons := CClose, ctl := KAwaitConsumer\<rparr>)"
| poll_go: "cons s = CPoll \<Longrightarrow> ctl s \<noteq> KStopConsumer \<Longrightarrow> stop_step two s (s\<lparr>cons := CSignal\<rparr>)"
| close_consumer: "cons s = CClose \<Longrightarrow>
     stop_step two s (panic_if (closedStopConsumer s) s\<lparr>cons := CDone, closedStopConsumer := True\<rparr>)"
| submitted: "publ s = PSubmit \<Longrightarrow> stop_step two s (s\<lparr>publ := PSelect\<rparr>)"
| request: "two \<Longrightarrow> publ s = PSelect \<Longrightarrow> stop_step two s (s\<lparr>publ := PRequest\<rparr>)"
| requested: "publ s = PRequest \<Longrightarrow> stop_step two s (s\<lparr>publ := PSelect\<rparr>)"
| close_publisher: "publ s = PClose \<Longrightarrow>
     stop_step two s (panic_if (closedStopPublisher s) s\<lparr>publ := PDefer1, closedStopPublisher := True\<rparr>)"
| defer_submit: "publ s = PDefer1 \<Longrightarrow>
     stop_step two s (panic_if (closedSubmit s) s\<lparr>publ := if two then PDefer2 else PDone, closedSubmit := True\<rparr>)"
| defer_reqBuss: "publ s = PDefer2 \<Longrightarrow>
     stop_step two s (panic_if (closedReqBuss s) s\<lparr>publ := PDone, closedReqBuss := True\<rparr>)"
| ctx_done: "ctl s = KRun \<Longrightarrow> stop_step two s (s\<lparr>ctl := KStopConsumer\<rparr>)"
| await_consumer: "ctl s = KAwaitConsumer \<Longrightarrow> closedStopConsumer s \<Longrightarrow>
     stop_step two s (s\<lparr>ctl := KStopPublisher\<rparr>)"
| stop_publisher: "ctl s = KStopPublisher \<Longrightarrow> publ s = PSelect \<Longrightarrow>
     stop_step two s (s\<lparr>ctl := KAwaitPublisher, publ := PClose\<rparr>)"
| await_publisher: "ctl s = KAwaitPublisher \<Longrightarrow> closedStopPublisher s \<Longrightarrow>
     stop_step two s (s\<lparr>ctl := KDone\<rparr>)"

inductive_cases stop_stepE: "stop_step two s s'"

definition stopped :: "stop_state \<Rightarrow> bool" where
  "stopped s \<longleftrightarrow> cons s = CDone \<and> publ s = PDone \<and> ctl s = KDone"

section \<open>Invariant\<close>

definition publisher_open :: "publisher_pc set" where
  "publisher_open = {PSelect, PSubmit, PRequest}"

definition stop_inv :: "bool \<Rightarrow> stop_state \<Rightarrow> bool" where
  "stop_inv two s \<longleftrightarrow> \<not> paniced s \<and> (cons s = CSignal2 \<longrightarrow> two) \<and> (publ s = PDefer2 \<longrightarrow> two) \<and>
     (case ctl s of
        KRun \<Rightarrow> cons s \<notin> {CClose, CDone} \<and> publ s \<in> publisher_open
      | KStopConsumer \<Rightarrow> cons s \<notin> {CClose, CDone} \<and> publ s \<in> publisher_open
      | KAwaitConsumer \<Rightarrow> cons s \<in> {CClose, CDone} \<and> publ s \<in> publisher_open
      | KStopPublisher \<Rightarrow> cons s = CDone \<and> publ s \<in> publisher_open
      | KAwaitPublisher \<Rightarrow> cons s = CDone \<and> publ s \<notin> publisher_open
      | KDone \<Rightarrow> cons s = CDone \<and> publ s \<in> {PDefer1, PDefer2, PDone}) \<and>
     (closedStopConsumer s \<longleftrightarrow> cons s = CDone) \<and>
     (closedStopPublisher s \<longleftrightarrow> publ s \<in> {PDefer1, PDefer2, PDone}) \<and>
     (closedSubmit s \<longleftrightarrow> publ s \<in> {PDefer2, PDone}) \<and>
     (closedReqBuss s \<longleftrightarrow> two \<and> publ s = PDone)"

lemma stop_inv_init: "stop_inv two stop_init"
  by (simp add: stop_inv_def stop_init_def publisher_open_def)

lemma stop_step_inv: "stop_step two s s' \<Longrightarrow> stop_inv two s \<Longrightarrow> stop_inv two s'"
  by (erule stop_step.cases; hypsubst; unfold stop_inv_def; cases "ctl s";
      simp add: publisher_open_def panic_if_def after_wait_def; (elim conjE disjE; simp)?)

interpretation stop_runs: invariant_system "stop_step two" "\<lambda>_. True" "stop_inv two" for two
  by unfold_locales (use stop_step_inv in blast)+

section \<open>The way to the end\<close>

text \<open>How far the three goroutines are from their ends once \<^verbatim>\<open>Run\<close> has begun to stop them.\<close>

fun cons_dist :: "consumer_pc \<Rightarrow> nat" where
  "cons_dist CSignal = 7" | "cons_dist CWait = 6" | "cons_dist CSignal2 = 5" | "cons_dist CDrain = 4"
| "cons_dist CPoll = 3" | "cons_dist CClose = 1" | "cons_dist CDone = 0"

fun publ_dist :: "publisher_pc \<Rightarrow> nat" where
  "publ_dist PSubmit = 5" | "publ_dist PRequest = 5" | "publ_dist PSelect = 4" | "publ_dist PClose = 3"
| "publ_dist PDefer1 = 2" | "publ_dist PDefer2 = 1" | "publ_dist PDone = 0"

fun ctl_dist :: "run_pc \<Rightarrow> nat" where
  "ctl_dist KRun = 5" | "ctl_dist KStopConsumer = 4" | "ctl_dist KAwaitConsumer = 3"
| "ctl_dist KStopPublisher = 2" | "ctl_dist KAwaitPublisher = 1" | "ctl_dist KDone = 0"

definition stop_dist :: "stop_state \<Rightarrow> nat" where
  "stop_dist s = 2 * cons_dist (cons s) + publ_dist (publ s) + ctl_dist (ctl s)"

text \<open>Only requests keep the publisher busy: every other step brings the end closer.\<close>

lemma stop_step_decreases:
  assumes "stop_step two s s'" and "stop_inv two s" and "ctl s \<noteq> KRun"
    and "\<not> (publ s = PSelect \<and> publ s' = PRequest)"
  shows "stop_dist s' < stop_dist s \<and> ctl s' \<noteq> KRun"
  using assms
  by (elim stop_step.cases; hypsubst; unfold stop_inv_def; cases "ctl s";
      simp add: stop_dist_def publisher_open_def panic_if_def after_wait_def; (elim conjE disjE; simp)?)

lemma stop_step_exists:
  assumes "stop_inv two s" and "ctl s \<noteq> KRun" and "\<not> stopped s"
  shows "\<exists>s'. stop_step two s s' \<and> \<not> (publ s = PSelect \<and> publ s' = PRequest)"
proof -
  consider "publ s = PSubmit" | "publ s = PRequest" | "publ s = PClose" | "publ s = PDefer1" | "publ s = PDefer2"
    | (sel) "publ s = PSelect" | (fin) "publ s = PDone" by (cases "publ s") auto
  then show ?thesis
  proof cases
    case sel
    have close: "\<exists>s'. stop_step two s s' \<and> publ s' = publ s" if "cons s = CClose"
      by (intro exI conjI, rule stop_step.close_consumer [OF that]) (simp add: panic_if_def)
    with sel assms show ?thesis
      by (cases "cons s"; cases "ctl s")
        (auto simp: stop_inv_def publisher_open_def intro: stop_step.intros dest!: close)
  next
    case fin
    with assms show ?thesis
      by (cases "ctl s") (auto simp: stop_inv_def stopped_def publisher_open_def intro: stop_step.intros)
  qed (auto intro: stop_step.intros)
qed

lemma stop_terminates:
  assumes "stop_inv two s" and "ctl s \<noteq> KRun"
  shows "\<exists>t. (stop_step two)\<^sup>*\<^sup>* s t \<and> stopped t"
  using assms
proof (induction "stop_dist s" arbitrary: s rule: less_induct)
  case less
  show ?case
  proof (cases "stopped s")
    case False
    then obtain s' where s': "stop_step two s s'" "\<not> (publ s = PSelect \<and> publ s' = PRequest)"
      using stop_step_exists less.prems by blast
    with stop_step_decreases [OF s'(1) less.prems s'(2)] stop_step_inv [OF s'(1) less.prems(1)]
      less.hyps [of s'] show ?thesis by (meson converse_rtranclp_into_rtranclp)
  qed blast
qed

end
