(* ===== verification/Reactor_Net.thy ===== *)
theory Reactor_Net
  imports Reactor_Dispatch
begin

unbundle bit_operations_syntax

text \<open>
  The network reactor of \<^verbatim>\<open>src/reactor/net.go\<close>. A client packs the descriptor and the nonce
  the registry gives its callback into a request identifier and sends the request to the
  loop of the descriptor over a channel of 256 places; the publisher of the loop moves
  requests from the channel into the ring, the consumer hands completions to the callbacks.
  All loops share one registry.

  The channel is the list of the requests in it; a send on a full channel does not return
  before the publisher receives, which the model expresses by having no step.
\<close>

section \<open>Request identifiers\<close>

definition packRequestID :: "int \<Rightarrow> u32 \<Rightarrow> u64" where
  "packRequestID fd nonce = (of_int fd :: u64) OR push_bit 32 (ucast nonce)"

definition RequestID_fd :: "u64 \<Rightarrow> int" where
  "RequestID_fd ud = (let mask = (2 ^ 32 - 1 :: u64) in sint (ud AND mask))"

definition RequestID_nonce :: "u64 \<Rightarrow> u32" where
  "RequestID_nonce ud = ucast (drop_bit 32 ud)"

section \<open>Loops and the reactor\<close>

definition fdPerGranule :: int where "fdPerGranule = 75"
definition reqBussSize :: nat where "reqBussSize = 2 ^ 8"

record 'r ringNetEventLoop =
  nl_ring :: 'r
  nl_reqBuss :: "subSqeRequest list"
  nl_submitAllowed :: u32

definition newRingNetEventLoop :: "'r \<Rightarrow> 'r ringNetEventLoop" where
  "newRingNetEventLoop ring = \<lparr>nl_ring = ring, nl_reqBuss = [], nl_submitAllowed = 0\<rparr>"

text \<open>The loops point to the registry of their reactor; the model keeps it there.\<close>

record ('r, 'cb, 'l) NetworkReactor =
  nr_loops :: "'r ringNetEventLoop list"
  nr_registry :: "'cb cbRegistry"
  nr_config :: "'l configuration"

definition NewNet ::
  "'k Ring_scheme list \<Rightarrow> 'l cfg_option list \<Rightarrow>
   (go_error + ('k Ring_scheme, 'cb, 'l) NetworkReactor) outcome" where
  "NewNet rings opts =
     (case checkRings True rings of
        Some e \<Rightarrow> Ok (Inl e)
      | None \<Rightarrow> obind (newCbRegistry (int (length rings)) fdPerGranule) (\<lambda>reg.
          Ok (Inr \<lparr>nr_loops = map newRingNetEventLoop rings, nr_registry = reg,
                   nr_config = apply_opts opts\<rparr>)))"

definition loopForFd :: "('r, 'cb, 'l) NetworkReactor \<Rightarrow> int \<Rightarrow> nat outcome" where
  "loopForFd r fd =
     (let n = int (length (nr_loops r))
      in if n = 0 then Panic DivideByZero
         else let h = go_quot fd fdPerGranule; i = go_rem h n
              in if 0 \<le> i \<and> i < n then Ok (nat i) else Panic IndexOutOfRange)"

section \<open>Client operations\<close>

text \<open>
  \<^verbatim>\<open>queue\<close> up to the send: the callback enters the registry, the identifier is packed, the
  loop chosen and the request built. \<open>fd\<close> is \<^verbatim>\<open>op.Fd()\<close>.
\<close>

definition net_register ::
  "Operation \<Rightarrow> int \<Rightarrow> 'cb option \<Rightarrow> int \<Rightarrow> ('r, 'cb, 'l) NetworkReactor \<Rightarrow>
   (u64 \<times> nat \<times> subSqeRequest \<times> ('r, 'cb, 'l) NetworkReactor) outcome" where
  "net_register op fd cb timeout r =
     obind (registry_add fd cb (nr_registry r)) (\<lambda>(nonce, reg).
       let ud = packRequestID fd nonce; r1 = r\<lparr>nr_registry := reg\<rparr>
       in obind (loopForFd r1 fd) (\<lambda>i.
            Ok (ud, i, \<lparr>rq_op = op, rq_flags = 0, rq_userData = ud, rq_timeout = timeout\<rparr>, r1)))"

text \<open>A send on the channel of loop \<open>i\<close>; \<open>None\<close> while it is full.\<close>

definition chan_send ::
  "nat \<Rightarrow> subSqeRequest \<Rightarrow> ('r, 'cb, 'l) NetworkReactor \<Rightarrow> ('r, 'cb, 'l) NetworkReactor option" where
  "chan_send i req r =
     (let l = nr_loops r ! i
      in if length (nl_reqBuss l) < reqBussSize
         then Some (r\<lparr>nr_loops := (nr_loops r)[i := l\<lparr>nl_reqBuss := nl_reqBuss l @ [req]\<rparr>]\<rparr>)
         else None)"

definition net_queue ::
  "Operation \<Rightarrow> int \<Rightarrow> 'cb option \<Rightarrow> int \<Rightarrow> ('r, 'cb, 'l) NetworkReactor \<Rightarrow>
   (u64 \<times> ('r, 'cb, 'l) NetworkReactor option) outcome" where
  "net_queue op fd cb timeout r =
     obind (net_register op fd cb timeout r) (\<lambda>(ud, i, req, r1). Ok (ud, chan_send i req r1))"

definition Net_Queue where
  "Net_Queue op fd cb r = net_queue op fd cb 0 r"

definition Net_QueueWithDeadline where
  "Net_QueueWithDeadline now op fd cb deadline r =
     (case deadline of
        None \<Rightarrow> Net_Queue op fd cb r
      | Some t \<Rightarrow> net_queue op fd cb (t - now) r)"

definition Net_Cancel ::
  "u64 \<Rightarrow> ('r, 'cb, 'l) NetworkReactor \<Rightarrow> ('r, 'cb, 'l) NetworkReactor option outcome" where
  "Net_Cancel ud r =
     obind (loopForFd r (RequestID_fd ud)) (\<lambda>i.
       Ok (chan_send i \<lparr>rq_op = Cancel ud 0, rq_flags = 0, rq_userData = cancelNonce, rq_timeout = 0\<rparr> r))"

section \<open>The publisher\<close>

text \<open>
  A request received from the channel. The first component of the result is the error that
  is logged, after the callback of the request is taken out of the registry and forgotten.
\<close>

definition publish_request ::
  "u64 \<Rightarrow> u64 \<Rightarrow> subSqeRequest \<Rightarrow> 'k Ring_scheme ringNetEventLoop \<Rightarrow> 'cb cbRegistry \<Rightarrow>
   (go_error option \<times> 'k Ring_scheme ringNetEventLoop \<times> 'cb cbRegistry) outcome" where
  "publish_request spec spec2 req loop reg =
     (let loop1 = loop\<lparr>nl_submitAllowed := 1\<rparr>;
          queued =
            (if rq_timeout req = 0
             then QueueSQE spec (rq_op req) (rq_flags req) (rq_userData req) (nl_ring loop1)
             else obind (QueueSQE spec (rq_op req) (rq_flags req OR SqeIOLinkFlag) (rq_userData req)
                           (nl_ring loop1)) (\<lambda>(err, r1).
               if err = None then QueueSQE spec2 (LinkTimeout (rq_timeout req)) 0 timeoutNonce r1
               else Ok (err, r1)))
      in obind queued (\<lambda>(err, r').
           let loop2 = loop1\<lparr>nl_ring := r'\<rparr>
           in if err \<noteq> None
              then obind (registry_pop (RequestID_fd (rq_userData req)) (RequestID_nonce (rq_userData req)) reg)
                     (\<lambda>(_, reg'). Ok (err, loop2, reg'))
              else Ok (None, loop2, reg)))"

text \<open>A submit signal: \<^verbatim>\<open>EBUSY\<close> (16) and \<^verbatim>\<open>EAGAIN\<close> (11) arm the next attempt.\<close>

definition net_submit ::
  "'k Ring_scheme kernel \<Rightarrow> 'k Ring_scheme ringNetEventLoop \<Rightarrow>
   (go_error option \<times> 'k Ring_scheme ringNetEventLoop) outcome" where
  "net_submit k loop =
     (if nl_submitAllowed loop = 1
      then obind (Submit k (nl_ring loop)) (\<lambda>(_, err, r').
             let loop1 = loop\<lparr>nl_submitAllowed := 0, nl_ring := r'\<rparr>
             in if err \<noteq> None then
                  (if err_is err (Errno 16) \<or> err_is err (Errno 11)
                   then Ok (None, loop1\<lparr>nl_submitAllowed := 1\<rparr>)
                   else Ok (err, loop1))
                else Ok (None, loop1))
      else Ok (None, loop))"

section \<open>The consumer\<close>

definition take_registered :: "u64 \<Rightarrow> 'cb cbRegistry \<Rightarrow> ('cb option \<times> 'cb cbRegistry) outcome" where
  "take_registered ud reg = registry_pop (RequestID_fd ud) (RequestID_nonce ud) reg"

definition net_consumer_round ::
  "'k Ring_scheme kernel \<Rightarrow> u64 \<Rightarrow> u64 \<Rightarrow> int \<Rightarrow> cqe_ptr option list \<Rightarrow> 'k Ring_scheme ringNetEventLoop \<Rightarrow>
   'cb cbRegistry \<Rightarrow>
   (go_error option \<times> 'k Ring_scheme ringNetEventLoop \<times> 'cb cbRegistry \<times> ('cb \<times> CQEvent) list) outcome option" where
  "net_consumer_round k spec arg tick buff loop reg =
     map_option (\<lambda>res. obind res (\<lambda>(err, r', reg', calls). Ok (err, loop\<lparr>nl_ring := r'\<rparr>, reg', calls)))
       (wait_and_drain k take_registered spec arg tick buff (nl_ring loop) reg)"

section \<open>Identifiers are faithful\<close>

lemma RequestID_fd_uint: "RequestID_fd ud = take_bit 32 (uint ud)"
proof -
  have "ud AND (2 ^ 32 - 1) = take_bit 32 ud" by (simp add: take_bit_eq_mask mask_eq_exp_minus_1)
  moreover have "sint (take_bit 32 ud) = take_bit 32 (uint ud)"
    by (rule bit_eqI) (auto simp: bit_simps min_def)
  ultimately show ?thesis by (simp add: RequestID_fd_def Let_def)
qed

lemma RequestID_fd_range: "0 \<le> RequestID_fd ud" "RequestID_fd ud < 2 ^ 32"
  by (simp_all add: RequestID_fd_uint take_bit_int_less_exp del: power_numeral)

lemma bit_small_int: "0 \<le> (fd :: int) \<Longrightarrow> fd < 2 ^ 32 \<Longrightarrow> bit fd i \<longleftrightarrow> i < 32 \<and> bit fd i"
  by (metis bit_take_bit_iff take_bit_int_eq_self)

lemma RequestID_nonce_pack:
  assumes "0 \<le> fd" and "fd < 2 ^ 32"
  shows "RequestID_nonce (packRequestID fd n) = n"
proof (rule bit_eqI)
  fix i assume "possible_bit TYPE(u32) i"
  moreover have "\<not> bit fd (32 + i)" using bit_small_int [OF assms, of "32 + i"] by simp
  ultimately show "bit (RequestID_nonce (packRequestID fd n)) i = bit n i"
    by (simp add: RequestID_nonce_def packRequestID_def bit_simps)
qed

lemma RequestID_fd_pack:
  assumes "0 \<le> fd" and "fd < 2 ^ 32"
  shows "RequestID_fd (packRequestID fd n) = fd"
  unfolding RequestID_fd_uint packRequestID_def
  by (rule bit_eqI) (subst bit_small_int [OF assms], auto simp: bit_simps)

lemma packRequestID_unpack: "packRequestID (RequestID_fd ud) (RequestID_nonce ud) = ud"
  unfolding RequestID_fd_uint packRequestID_def RequestID_nonce_def
  by (rule bit_eqI) (auto simp: bit_simps)

lemma RequestID_inject:
  "RequestID_fd u = RequestID_fd v \<Longrightarrow> RequestID_nonce u = RequestID_nonce v \<Longrightarrow> u = v"
  by (metis packRequestID_unpack)

text \<open>No descriptor the kernel hands out makes an identifier collide with a reserved nonce.\<close>

lemma packRequestID_user:
  assumes "0 \<le> fd" and "fd < 2 ^ 31"
  shows "user_nonce (packRequestID fd n)"
proof -
  have "RequestID_fd (packRequestID fd n) = fd" using assms by (intro RequestID_fd_pack) auto
  moreover have "RequestID_fd timeoutNonce = 2 ^ 32 - 1" "RequestID_fd cancelNonce = 2 ^ 32 - 2"
    by (simp_all add: RequestID_fd_def timeoutNonce_def cancelNonce_def)
  ultimately show ?thesis using assms(2) unfolding user_nonce_def by fastforce
qed

section \<open>The registry as the consumer's source of callbacks\<close>

definition registered :: "'cb cbRegistry \<Rightarrow> u64 \<Rightarrow> 'cb option" where
  "registered reg u = map_read (registry_lookup reg (RequestID_fd u)) None (RequestID_nonce u)"

lemma pop_registered:
  assumes "registry_inv reg"
  shows "\<exists>reg'. registry_pop (RequestID_fd u) (RequestID_nonce u) reg = Ok (registered reg u, reg') \<and>
     registry_inv reg' \<and> (\<forall>v. registered reg' v = (if v = u then None else registered reg v))"
proof -
  obtain reg' where r: "registry_pop (RequestID_fd u) (RequestID_nonce u) reg = Ok (registered reg u, reg')"
    "registry_inv reg'"
    "\<And>fd. 0 \<le> fd \<Longrightarrow> registry_lookup reg' fd = (if fd = RequestID_fd u
       then (registry_lookup reg (RequestID_fd u))(RequestID_nonce u := None) else registry_lookup reg fd)"
    using creg.pop_ok [OF assms RequestID_fd_range(1), of u "RequestID_nonce u"]
    unfolding registered_def by blast
  have "registered reg' v = (if v = u then None else registered reg v)" for v
    using r(3) [OF RequestID_fd_range(1), of v] RequestID_inject [of v u]
    by (auto simp: registered_def map_read_def)
  with r show ?thesis by blast
qed

lemma add_registered:
  assumes "registry_inv reg" and fd: "0 \<le> fd" "fd < 2 ^ 32"
  shows "\<exists>reg' n. registry_add fd cb reg = Ok (n, reg') \<and> registry_inv reg' \<and>
     (\<forall>v. registered reg' v = (if v = packRequestID fd n then cb else registered reg v))"
proof -
  obtain reg' n where r: "registry_add fd cb reg = Ok (n, reg')" "registry_inv reg'"
    "\<And>j. 0 \<le> j \<Longrightarrow> registry_lookup reg' j
       = (if j = fd then (registry_lookup reg fd)(n \<mapsto> cb) else registry_lookup reg j)"
    using creg.add_ok [OF assms(1) fd(1), of cb] by blast
  have "v = packRequestID fd n \<longleftrightarrow> RequestID_fd v = fd \<and> RequestID_nonce v = n" for v
    using RequestID_fd_pack [OF fd] RequestID_nonce_pack [OF fd] packRequestID_unpack by metis
  then have "registered reg' v = (if v = packRequestID fd n then cb else registered reg v)" for v
    using r(3) [OF RequestID_fd_range(1), of v] by (auto simp: registered_def map_read_def)
  with r show ?thesis by blast
qed

lemma registry_ops_fixed:
  "registry_add fd cb reg = Ok (n, reg') \<Longrightarrow> granularity reg' = granularity reg \<and> shardCnt reg' = shardCnt reg"
  "registry_pop fd m reg = Ok (v, reg') \<Longrightarrow> granularity reg' = granularity reg \<and> shardCnt reg' = shardCnt reg"
  by (auto simp: registry_add_def registry_pop_def go_outcome split: if_splits)

definition registry_of :: "int \<Rightarrow> int \<Rightarrow> 'cb cbRegistry \<Rightarrow> bool" where
  "registry_of g c reg \<longleftrightarrow> registry_inv reg \<and> granularity reg = g \<and> shardCnt reg = c"

interpretation rgc: callback_source "registry_of g c" registered take_registered for g c
proof (unfold_locales, goal_cases)
  case (1 s u)
  then have "registry_inv s" by (simp add: registry_of_def)
  from pop_registered [OF this, of u] registry_ops_fixed(2) 1 show ?case
    unfolding take_registered_def registry_of_def by metis
qed

section \<open>The reactor with its clients and the kernel\<close>

text \<open>
  The state of a run: the reactor, the requests of clients between \<^verbatim>\<open>registry.add\<close> and the
  send on the channel, and three histories: the callbacks registered, those called, and
  those the publisher dropped because the submission queue was full. \<open>ns_torn\<close> records that a
  request under way has lost its callback: the publisher dropped it after it had queued the entry, a
  client got an identifier that was still in use and replaced it, or the client passed nil.
\<close>

record ('cb, 'l) nsys =
  ns_net :: "(kring, 'cb, 'l) NetworkReactor"
  ns_sending :: "(nat \<times> subSqeRequest) list"
  ns_accepted :: "(u64 \<times> 'cb) list"
  ns_done :: "('cb \<times> CQEvent) list"
  ns_dropped :: "(u64 \<times> 'cb) list"
  ns_torn :: bool

definition net_init :: "(kring, 'cb, 'l) NetworkReactor \<Rightarrow> ('cb, 'l) nsys" where
  "net_init r = \<lparr>ns_net = r, ns_sending = [], ns_accepted = [], ns_done = [], ns_dropped = [], ns_torn = False\<rparr>"

text \<open>
  Descriptors are those of Linux, 31-bit numbers. A nonce comes round after \<open>2 ^ 32\<close>
  operations on one descriptor; an identifier in use is given out again only if an
  operation is still outstanding then.
\<close>

definition with_loop :: "nat \<Rightarrow> 'r ringNetEventLoop \<Rightarrow> ('r, 'cb, 'l) NetworkReactor \<Rightarrow> ('r, 'cb, 'l) NetworkReactor" where
  "with_loop i l r = r\<lparr>nr_loops := (nr_loops r)[i := l]\<rparr>"

text \<open>
  What goes on without the clients and the consumers: publishers and the kernel. Each call into the
  kernel may be answered by any kernel that conforms.
\<close>

inductive background_step :: "('cb, 'l) nsys \<Rightarrow> ('cb, 'l) nsys \<Rightarrow> bool" where
  receive: "i < length (nr_loops (ns_net s)) \<Longrightarrow> l = nr_loops (ns_net s) ! i \<Longrightarrow>
     nl_reqBuss l = req # rest \<Longrightarrow> reg = nr_registry (ns_net s) \<Longrightarrow>
     publish_request spec spec2 req (l\<lparr>nl_reqBuss := rest\<rparr>) reg = Ok (err, l', reg') \<Longrightarrow>
     background_step s (s\<lparr>ns_net := (with_loop i l' (ns_net s))\<lparr>nr_registry := reg'\<rparr>,
       ns_dropped := ns_dropped s @ (case registered reg (rq_userData req) of
          Some cb \<Rightarrow> if err = None then [] else [(rq_userData req, cb)] | None \<Rightarrow> []),
       ns_torn := (ns_torn s \<or> err \<noteq> None \<and> nl_ring l' \<noteq> nl_ring l)\<rparr>)"
| submit: "kernel_conforms k \<Longrightarrow> i < length (nr_loops (ns_net s)) \<Longrightarrow> net_submit k (nr_loops (ns_net s) ! i) = Ok (err, l') \<Longrightarrow>
     background_step s (s\<lparr>ns_net := with_loop i l' (ns_net s)\<rparr>)"
| kernel: "i < length (nr_loops (ns_net s)) \<Longrightarrow> l = nr_loops (ns_net s) ! i \<Longrightarrow>
     kernel_step (nl_ring l) r' \<Longrightarrow>
     background_step s (s\<lparr>ns_net := with_loop i (l\<lparr>nl_ring := r'\<rparr>) (ns_net s)\<rparr>)"

text \<open>
  A batch of completions at the consumer of loop \<open>i\<close>, with the calls of callbacks it makes. The buffer of
  the code has \<^verbatim>\<open>cqeBuffSize\<close> places; shorter ones are allowed here, so that what the code does with one
  batch may also be several steps, down to one for each event.
\<close>

inductive consumer_step ::
  "nat \<Rightarrow> ('cb \<times> CQEvent) list \<Rightarrow> ('cb, 'l) nsys \<Rightarrow> ('cb, 'l) nsys \<Rightarrow> bool" for i calls where
  batch: "kernel_conforms k \<Longrightarrow> i < length (nr_loops (ns_net s)) \<Longrightarrow> l = nr_loops (ns_net s) ! i \<Longrightarrow>
     length buff \<le> cqeBuffSize \<Longrightarrow>
     consume_batch k take_registered buff (nl_ring l) (nr_registry (ns_net s))
       = Ok (r', Some (reg', calls, buff')) \<Longrightarrow>
     consumer_step i calls s (s\<lparr>ns_net := (with_loop i (l\<lparr>nl_ring := r'\<rparr>) (ns_net s))\<lparr>nr_registry := reg'\<rparr>,
       ns_done := ns_done s @ calls\<rparr>)"

inductive net_step :: "('cb, 'l) nsys \<Rightarrow> ('cb, 'l) nsys \<Rightarrow> bool" where
  client_register: "op_Fd op = Some fd \<Longrightarrow> 0 \<le> fd \<Longrightarrow> fd < 2 ^ 31 \<Longrightarrow>
     net_register op fd cb timeout (ns_net s) = Ok (ud, i, req, r') \<Longrightarrow>
     net_step s (s\<lparr>ns_net := r', ns_sending := ns_sending s @ [(i, req)],
       ns_accepted := ns_accepted s @ (case cb of None \<Rightarrow> [] | Some c \<Rightarrow> [(ud, c)]),
       ns_torn := (ns_torn s \<or> registered (nr_registry (ns_net s)) ud \<noteq> None \<or> cb = None)\<rparr>)"
| client_send: "ns_sending s = xs @ (i, req) # ys \<Longrightarrow> chan_send i req (ns_net s) = Some r' \<Longrightarrow>
     net_step s (s\<lparr>ns_net := r', ns_sending := xs @ ys\<rparr>)"
| client_cancel: "Net_Cancel ud (ns_net s) = Ok (Some r') \<Longrightarrow> net_step s (s\<lparr>ns_net := r'\<rparr>)"
| background: "background_step s s' \<Longrightarrow> net_step s s'"
| consume: "consumer_step i calls s s' \<Longrightarrow> net_step s s'"

inductive_cases background_stepE: "background_step s s'"
inductive_cases consumer_stepE: "consumer_step i calls s s'"
inductive_cases net_stepE: "net_step s s'"

lemma background_history:
  assumes "background_step s s'"
  shows "ns_sending s' = ns_sending s" and "ns_accepted s' = ns_accepted s" and "ns_done s' = ns_done s"
  using assms by (auto elim!: background_stepE)

lemma consumer_history:
  assumes "consumer_step i calls s s'"
  shows "ns_sending s' = ns_sending s" and "ns_accepted s' = ns_accepted s" and "ns_done s' = ns_done s @ calls"
    and "ns_torn s' = ns_torn s"
  using assms by (auto elim!: consumer_stepE)

section \<open>The books of the registry\<close>

text \<open>
  \<open>books reg Q acc fin\<close>: the registry holds exactly the callbacks of the outstanding
  requests \<open>Q\<close>, no two of them share an identifier, and every registered callback is
  outstanding or finished, exactly once.
\<close>

definition books :: "'cb cbRegistry \<Rightarrow> u64 multiset \<Rightarrow> (u64 \<times> 'cb) multiset \<Rightarrow> (u64 \<times> 'cb) multiset \<Rightarrow> bool" where
  "books reg Q acc fin \<longleftrightarrow> registry_inv reg \<and> (\<forall>u. count Q u \<le> 1) \<and>
     (\<forall>u. registered reg u \<noteq> None \<longleftrightarrow> u \<in># Q) \<and>
     acc = image_mset (\<lambda>u. (u, the (registered reg u))) Q + fin"

lemma books_add:
  assumes b: "books reg Q acc fin" and new: "registered reg ud = None" and inv: "registry_inv reg'"
    and reg': "\<And>v. registered reg' v = (if v = ud then Some cb else registered reg v)"
  shows "books reg' (add_mset ud Q) (add_mset (ud, cb) acc) fin"
proof -
  have notin: "ud \<notin># Q" using b new unfolding books_def by blast
  have "image_mset (\<lambda>u. (u, the (registered reg' u))) Q = image_mset (\<lambda>u. (u, the (registered reg u))) Q"
    using notin by (intro image_mset_cong) (auto simp: reg')
  moreover have "count (add_mset ud Q) u \<le> 1" for u
    using b notin by (auto simp: books_def not_in_iff)
  moreover have "registered reg' u \<noteq> None \<longleftrightarrow> u \<in># add_mset ud Q" for u
    using b reg' by (simp add: books_def)
  ultimately show ?thesis using b inv reg' by (simp add: books_def)
qed

lemma books_take:
  assumes b: "books reg (Q' + U) acc fin" and inv: "registry_inv reg'"
    and reg': "\<And>v. registered reg' v = (if v \<in># U then None else registered reg v)"
  shows "books reg' Q' acc (fin + image_mset (\<lambda>u. (u, the (registered reg u))) U)"
proof -
  have disj: "u \<notin># U" if "u \<in># Q'" for u
  proof
    assume "u \<in># U"
    with that have "0 < count Q' u" "0 < count U u" by simp_all
    moreover have "count (Q' + U) u \<le> 1" using b unfolding books_def by blast
    ultimately show False unfolding count_union by linarith
  qed
  have "image_mset (\<lambda>u. (u, the (registered reg' u))) Q' = image_mset (\<lambda>u. (u, the (registered reg u))) Q'"
    using disj by (intro image_mset_cong) (auto simp: reg')
  moreover have "count Q' u \<le> 1" for u using b by (auto simp: books_def intro: order_trans [OF le_add1])
  moreover have "registered reg' u \<noteq> None \<longleftrightarrow> u \<in># Q'" for u
    using b disj by (auto simp: books_def reg')
  ultimately show ?thesis using b inv by (simp add: books_def)
qed

lemma books_drop:
  assumes b: "books reg (Q' + filter_mset user_nonce {#ud#}) acc fin" and inv: "registry_inv reg'"
    and reg': "\<And>v. registered reg' v = (if v = ud then None else registered reg v)"
    and owed: "\<And>u. u \<in># Q' \<Longrightarrow> user_nonce u"
  shows "books reg' Q' acc
     (fin + mset (case registered reg ud of Some cb \<Rightarrow> [(ud, cb)] | None \<Rightarrow> []))"
proof -
  let ?U = "filter_mset user_nonce {#ud#}"
  have "ud \<in># Q' + ?U \<longleftrightarrow> user_nonce ud" using owed by auto
  then have user: "registered reg ud = None \<longleftrightarrow> \<not> user_nonce ud" using b unfolding books_def by metis
  have "books reg' Q' acc (fin + image_mset (\<lambda>u. (u, the (registered reg u))) ?U)"
    using user reg' by (intro books_take [OF b inv]) auto
  then show ?thesis using user by (cases "registered reg ud") auto
qed

lemma books_live:
  assumes "books reg Q acc fin" and "mset us \<subseteq># Q"
  shows "distinct us" and "u \<in> set us \<Longrightarrow> registered reg u \<noteq> None"
proof -
  have "count (mset us) a \<le> 1" for a
    using assms by (meson books_def mset_subset_eq_count order_trans)
  then show "distinct us"
    by (auto simp: distinct_count_atmost_1 le_Suc_eq)
  show "u \<in> set us \<Longrightarrow> registered reg u \<noteq> None"
    using assms by (metis books_def mset_subset_eqD set_mset_mset)
qed

section \<open>The invariant\<close>

definition loop_owed :: "kring ringNetEventLoop \<Rightarrow> u64 multiset" where
  "loop_owed l = filter_mset user_nonce (mset (map rq_userData (nl_reqBuss l)) + mset (live (nl_ring l)))"

definition sending_owed :: "(nat \<times> subSqeRequest) list \<Rightarrow> u64 multiset" where
  "sending_owed xs = filter_mset user_nonce (mset (map (\<lambda>x. rq_userData (snd x)) xs))"

text \<open>The outstanding requests: on their way to a channel, in a channel, or in a ring.\<close>

definition owed :: "('cb, 'l) nsys \<Rightarrow> u64 multiset" where
  "owed s = sending_owed (ns_sending s) + sum_list (map loop_owed (nr_loops (ns_net s)))"

definition finished :: "('cb, 'l) nsys \<Rightarrow> (u64 \<times> 'cb) multiset" where
  "finished s = mset (map (\<lambda>(cb, ev). (cqe_UserData ev, cb)) (ns_done s)) + mset (ns_dropped s)"

definition net_wf :: "(kring, 'cb, 'l) NetworkReactor \<Rightarrow> bool" where
  "net_wf r \<longleftrightarrow> granularity (nr_registry r) = fdPerGranule \<and>
     shardCnt (nr_registry r) = int (length (nr_loops r)) \<and>
     (\<forall>l\<in>set (nr_loops r). kring_wf (nl_ring l))"

definition net_inv :: "('cb, 'l) nsys \<Rightarrow> bool" where
  "net_inv s \<longleftrightarrow> net_wf (ns_net s) \<and>
     (\<forall>x\<in>set (ns_sending s). fst x < length (nr_loops (ns_net s))) \<and>
     books (nr_registry (ns_net s)) (owed s) (mset (ns_accepted s)) (finished s)"

lemma sum_list_update_mset:
  "i < length xs \<Longrightarrow> sum_list (map f (xs[i := y])) + f (xs ! i) = sum_list (map f xs) + (f y :: 'm multiset)"
  by (induction xs arbitrary: i) (auto simp: nth_Cons ac_simps split: nat.split)

lemma owed_with_loop:
  assumes "i < length (nr_loops (ns_net s))"
  shows "sending_owed xs + sum_list (map loop_owed (nr_loops (with_loop i l (ns_net s)))) + loop_owed (nr_loops (ns_net s) ! i)
     = sending_owed xs + sum_list (map loop_owed (nr_loops (ns_net s))) + loop_owed l"
  using sum_list_update_mset [OF assms, of loop_owed l] by (simp add: with_loop_def ac_simps)

lemma net_wf_with_loop:
  "net_wf r \<Longrightarrow> kring_wf (nl_ring l) \<Longrightarrow> net_wf (with_loop i l r)"
  by (auto simp: net_wf_def with_loop_def dest: set_update_subset_insert [THEN subsetD])

lemma in_sum_owed: "u \<in># sum_list (map loop_owed ls) \<longleftrightarrow> (\<exists>l\<in>set ls. u \<in># loop_owed l)"
  by (induction ls) auto

lemma owed_user: "u \<in># owed s \<Longrightarrow> user_nonce u"
  by (auto simp: owed_def sending_owed_def in_sum_owed loop_owed_def)

lemma loop_owed_le: "l \<in> set (nr_loops (ns_net s)) \<Longrightarrow> loop_owed l \<subseteq># owed s"
proof -
  have "l \<in> set ls \<Longrightarrow> loop_owed l \<subseteq># sum_list (map loop_owed ls)" for ls
    by (induction ls) (auto intro: subset_mset.add_increasing)
  then show "l \<in> set (nr_loops (ns_net s)) \<Longrightarrow> loop_owed l \<subseteq># owed s"
    by (simp add: owed_def subset_mset.add_increasing)
qed

lemma net_inv_wf:
  "net_inv s \<Longrightarrow> net_wf (ns_net s)"
  "net_inv s \<Longrightarrow> i < length (nr_loops (ns_net s)) \<Longrightarrow> kring_wf (nl_ring (nr_loops (ns_net s) ! i))"
  by (simp_all add: net_inv_def net_wf_def)

lemma loopForFd_bound: "loopForFd r fd = Ok i \<Longrightarrow> i < length (nr_loops r)"
  by (auto simp: loopForFd_def Let_def nat_less_iff split: if_splits)

text \<open>Steps of one loop that leave the registry alone and keep what the loop owes.\<close>

lemma net_inv_loop:
  assumes inv: "net_inv s" and i: "i < length (nr_loops (ns_net s))"
    and "kring_wf (nl_ring l')" and eq: "loop_owed l' = loop_owed (nr_loops (ns_net s) ! i)"
  shows "net_inv (s\<lparr>ns_net := with_loop i l' (ns_net s)\<rparr>)"
proof -
  have "owed (s\<lparr>ns_net := with_loop i l' (ns_net s)\<rparr>) = owed s"
    using owed_with_loop [OF i, of "ns_sending s" l'] eq by (simp add: owed_def)
  then show ?thesis using assms net_wf_with_loop
    by (auto simp: net_inv_def finished_def with_loop_def)
qed

lemma net_inv_torn [simp]: "net_inv (s\<lparr>ns_torn := b\<rparr>) = net_inv s"
  by (simp add: net_inv_def owed_def finished_def)

lemma net_inv_register:
  assumes inv: "net_inv s" and fd: "0 \<le> fd" "fd < 2 ^ 31"
    and reg: "net_register op fd (Some cb) timeout (ns_net s) = Ok (ud, i, req, r')"
    and new: "registered (nr_registry (ns_net s)) ud = None"
  shows "net_inv (s\<lparr>ns_net := r', ns_sending := ns_sending s @ [(i, req)],
       ns_accepted := ns_accepted s @ [(ud, cb)]\<rparr>)"
proof -
  let ?reg = "nr_registry (ns_net s)"
  have b: "books ?reg (owed s) (mset (ns_accepted s)) (finished s)" using inv by (simp add: net_inv_def)
  obtain n reg' where a: "registry_add fd (Some cb) ?reg = Ok (n, reg')" "registry_inv reg'"
    "\<And>v. registered reg' v = (if v = packRequestID fd n then Some cb else registered ?reg v)"
    using add_registered [of ?reg fd "Some cb"] b fd by (auto simp: books_def)
  have r: "ud = packRequestID fd n" "r' = (ns_net s)\<lparr>nr_registry := reg'\<rparr>" "rq_userData req = ud"
    "i < length (nr_loops (ns_net s))"
    using reg a(1) by (auto simp: net_register_def Let_def go_outcome dest: loopForFd_bound)
  have "user_nonce ud" using packRequestID_user [OF fd] r(1) by simp
  then have "owed (s\<lparr>ns_net := r', ns_sending := ns_sending s @ [(i, req)],
       ns_accepted := ns_accepted s @ [(ud, cb)]\<rparr>) = add_mset ud (owed s)"
    using r(2,3) by (simp add: owed_def sending_owed_def)
  moreover have "books reg' (add_mset ud (owed s)) (add_mset (ud, cb) (mset (ns_accepted s))) (finished s)"
    using books_add [OF b new a(2)] a(3) r(1) by simp
  ultimately show ?thesis using inv r registry_ops_fixed(1) [OF a(1)]
    by (auto simp: net_inv_def net_wf_def finished_def)
qed

lemma loop_owed_send:
  "loop_owed (l\<lparr>nl_reqBuss := nl_reqBuss l @ [req]\<rparr>) = loop_owed l + filter_mset user_nonce {#rq_userData req#}"
  by (simp add: loop_owed_def)

lemma net_inv_send:
  assumes inv: "net_inv s" and sd: "ns_sending s = xs @ (i, req) # ys"
    and c: "chan_send i req (ns_net s) = Some r'"
  shows "net_inv (s\<lparr>ns_net := r', ns_sending := xs @ ys\<rparr>)"
proof -
  let ?l = "nr_loops (ns_net s) ! i"
  let ?l' = "?l\<lparr>nl_reqBuss := nl_reqBuss ?l @ [req]\<rparr>"
  have i: "i < length (nr_loops (ns_net s))" using inv sd by (auto simp: net_inv_def)
  have r': "r' = with_loop i ?l' (ns_net s)"
    using c by (simp add: chan_send_def with_loop_def Let_def split: if_splits)
  have "owed (s\<lparr>ns_net := r', ns_sending := xs @ ys\<rparr>) = owed s"
    using owed_with_loop [OF i, of "xs @ ys" ?l'] sd r'
    by (simp add: owed_def sending_owed_def loop_owed_send ac_simps)
  moreover have "net_wf r'" using net_wf_with_loop [OF net_inv_wf(1) [OF inv]] net_inv_wf(2) [OF inv i] r' by simp
  ultimately show ?thesis using inv sd r' by (auto simp: net_inv_def finished_def with_loop_def)
qed

lemma net_inv_cancel:
  assumes inv: "net_inv s" and c: "Net_Cancel ud (ns_net s) = Ok (Some r')"
  shows "net_inv (s\<lparr>ns_net := r'\<rparr>)"
proof -
  define req where "req = \<lparr>rq_op = Cancel ud 0, rq_flags = 0, rq_userData = cancelNonce, rq_timeout = 0\<rparr>"
  obtain i where "loopForFd (ns_net s) (RequestID_fd ud) = Ok i" and send: "chan_send i req (ns_net s) = Some r'"
    using c by (auto simp: Net_Cancel_def req_def go_outcome)
  then have i: "i < length (nr_loops (ns_net s))" "rq_userData req = cancelNonce"
    using loopForFd_bound by (simp_all add: req_def)
  let ?l = "nr_loops (ns_net s) ! i"
  let ?l' = "?l\<lparr>nl_reqBuss := nl_reqBuss ?l @ [req]\<rparr>"
  have "r' = with_loop i ?l' (ns_net s)"
    using send by (simp add: chan_send_def with_loop_def Let_def split: if_splits)
  moreover have "kring_wf (nl_ring ?l')" using net_inv_wf(2) [OF inv i(1)] by simp
  moreover have "loop_owed ?l' = loop_owed ?l" using i(2) by (simp add: loop_owed_send)
  ultimately show ?thesis using net_inv_loop [OF inv i(1)] by simp
qed

text \<open>
  The publisher on a request: the ring owes it one more completion, or the queue was full
  and nothing is queued, or the request is torn.
\<close>

lemma publish_request_post:
  assumes wf: "kring_wf (nl_ring l)" and reg: "registry_inv reg"
    and p: "publish_request spec spec2 req l reg = Ok (err, l', reg')"
  shows "kring_wf (nl_ring l') \<and> nl_reqBuss l' = nl_reqBuss l \<and>
     (if err = None then reg' = reg \<and> (\<exists>ts. set_mset ts \<subseteq> {timeoutNonce} \<and>
         mset (live (nl_ring l')) = add_mset (rq_userData req) (mset (live (nl_ring l))) + ts)
      else registry_inv reg' \<and> granularity reg' = granularity reg \<and> shardCnt reg' = shardCnt reg \<and>
         (\<forall>v. registered reg' v = (if v = rq_userData req then None else registered reg v)))"
proof -
  obtain r' where ring: "nl_ring l' = r'" "nl_reqBuss l' = nl_reqBuss l"
    and q: "(if rq_timeout req = 0
        then QueueSQE spec (rq_op req) (rq_flags req) (rq_userData req) (nl_ring l)
        else obind (QueueSQE spec (rq_op req) (rq_flags req OR SqeIOLinkFlag) (rq_userData req) (nl_ring l))
          (\<lambda>(err, r1). if err = None then QueueSQE spec2 (LinkTimeout (rq_timeout req)) 0 timeoutNonce r1
             else Ok (err, r1))) = Ok (err, r')"
    and rg: "err = None \<Longrightarrow> reg' = reg"
      "err \<noteq> None \<Longrightarrow> \<exists>v. registry_pop (RequestID_fd (rq_userData req)) (RequestID_nonce (rq_userData req)) reg = Ok (v, reg')"
    using p by (auto simp: publish_request_def Let_def go_outcome split: if_splits)
  have "kring_wf r' \<and> (err = None \<longrightarrow> (\<exists>ts. set_mset ts \<subseteq> {timeoutNonce} \<and>
     mset (live r') = add_mset (rq_userData req) (mset (live (nl_ring l))) + ts))"
  proof (cases "rq_timeout req = 0")
    case True
    with q have "QueueSQE spec (rq_op req) (rq_flags req) (rq_userData req) (nl_ring l) = Ok (err, r')"
      by simp
    from QueueSQE_live [OF wf this] show ?thesis by (auto intro!: exI [of _ "{#}"])
  next
    case False
    with q obtain e1 r1 where r1: "QueueSQE spec (rq_op req) (rq_flags req OR SqeIOLinkFlag)
        (rq_userData req) (nl_ring l) = Ok (e1, r1)"
      "e1 \<noteq> None \<Longrightarrow> err = e1 \<and> r' = r1"
      "e1 = None \<Longrightarrow> QueueSQE spec2 (LinkTimeout (rq_timeout req)) 0 timeoutNonce r1 = Ok (err, r')"
      by (auto simp: go_outcome split: if_splits)
    note live1 = QueueSQE_live [OF wf r1(1)]
    show ?thesis
    proof (cases "e1 = None")
      case True
      with QueueSQE_live [OF _ r1(3)] live1 show ?thesis
        by (auto intro!: exI [of _ "{#timeoutNonce#}"])
    next
      case False
      with r1(2) live1 show ?thesis by auto
    qed
  qed
  moreover have "registry_inv reg' \<and> granularity reg' = granularity reg \<and> shardCnt reg' = shardCnt reg \<and>
      (\<forall>v. registered reg' v = (if v = rq_userData req then None else registered reg v))" if "err \<noteq> None"
    using rg(2) [OF that] pop_registered [OF reg, of "rq_userData req"] registry_ops_fixed(2) by fastforce
  ultimately show ?thesis using ring rg(1) by simp
qed

lemma net_inv_receive:
  assumes inv: "net_inv s" and i: "i < length (nr_loops (ns_net s))" and l: "l = nr_loops (ns_net s) ! i"
    and bus: "nl_reqBuss l = req # rest"
    and p: "publish_request spec spec2 req (l\<lparr>nl_reqBuss := rest\<rparr>) (nr_registry (ns_net s)) = Ok (err, l', reg')"
    and whole: "err = None \<or> nl_ring l' = nl_ring l"
  shows "net_inv (s\<lparr>ns_net := (with_loop i l' (ns_net s))\<lparr>nr_registry := reg'\<rparr>,
       ns_dropped := ns_dropped s @ (case registered (nr_registry (ns_net s)) (rq_userData req) of
          Some cb \<Rightarrow> if err = None then [] else [(rq_userData req, cb)] | None \<Rightarrow> []), ns_torn := t\<rparr>)"
    (is "net_inv ?s'")
proof -
  let ?reg = "nr_registry (ns_net s)" and ?ud = "rq_userData req"
  have b: "books ?reg (owed s) (mset (ns_accepted s)) (finished s)" using inv by (simp add: net_inv_def)
  then have rinv: "registry_inv ?reg" by (simp add: books_def)
  have wf: "kring_wf (nl_ring (l\<lparr>nl_reqBuss := rest\<rparr>))" using net_inv_wf(2) [OF inv i] l by simp
  note post = publish_request_post [OF wf rinv p]
  have sums: "owed ?s' + loop_owed l = owed s + loop_owed l'"
    using owed_with_loop [OF i, of "ns_sending s" l'] l by (simp add: owed_def)
  have wf': "net_wf (ns_net ?s')"
    using net_wf_with_loop [OF net_inv_wf(1) [OF inv], of l' i] post
    by (auto simp: net_wf_def with_loop_def split: if_splits)
  show ?thesis
  proof (cases "err = None")
    case True
    then obtain ts where ts: "set_mset ts \<subseteq> {timeoutNonce}"
      "mset (live (nl_ring l')) = add_mset ?ud (mset (live (nl_ring l))) + ts" using post by auto
    have "filter_mset user_nonce ts = {#}" using ts(1) by (auto simp: filter_mset_eq_mempty_iff)
    then have "loop_owed l' = loop_owed l"
      using ts(2) bus post by (simp add: loop_owed_def)
    with sums have "owed ?s' = owed s" by simp
    with True inv wf' post b show ?thesis
      by (auto simp: net_inv_def finished_def with_loop_def split: option.split)
  next
    case False
    let ?U = "filter_mset user_nonce {#?ud#}"
    have "nl_ring l' = nl_ring l" and "nl_reqBuss l' = rest" using False whole post by auto
    then have "loop_owed l = ?U + loop_owed l'" using bus by (simp add: loop_owed_def)
    with sums have "owed s + loop_owed l' = (owed ?s' + ?U) + loop_owed l'" by (simp only: add.assoc)
    then have q: "owed s = owed ?s' + ?U" by (rule add_right_imp_eq)
    have reg': "registry_inv reg'" "\<And>v. registered reg' v = (if v = ?ud then None else registered ?reg v)"
      using post False by auto
    have "books reg' (owed ?s') (mset (ns_accepted s))
        (finished s + mset (case registered ?reg ?ud of Some cb \<Rightarrow> [(?ud, cb)] | None \<Rightarrow> []))"
      using owed_user by (intro books_drop [OF b [unfolded q] reg']) auto
    moreover have "finished ?s' = finished s + mset (case registered ?reg ?ud of Some cb \<Rightarrow> [(?ud, cb)] | None \<Rightarrow> [])"
      using False by (auto simp: finished_def split: option.split)
    ultimately show ?thesis using inv wf' by (simp add: net_inv_def with_loop_def)
  qed
qed

lemma net_live:
  assumes inv: "net_inv s" and i: "i < length (nr_loops (ns_net s))"
  shows "distinct (filter user_nonce (live (nl_ring (nr_loops (ns_net s) ! i))))"
    and "\<forall>u\<in>set (live (nl_ring (nr_loops (ns_net s) ! i))). user_nonce u \<longrightarrow>
       registered (nr_registry (ns_net s)) u \<noteq> None"
proof -
  let ?l = "nr_loops (ns_net s) ! i"
  have b: "books (nr_registry (ns_net s)) (owed s) (mset (ns_accepted s)) (finished s)"
    using inv by (simp add: net_inv_def)
  have "mset (filter user_nonce (live (nl_ring ?l))) \<subseteq># loop_owed ?l"
    by (simp add: loop_owed_def mset_filter)
  also have "\<dots> \<subseteq># owed s" using i by (intro loop_owed_le) simp
  finally have sub: "mset (filter user_nonce (live (nl_ring ?l))) \<subseteq># owed s" .
  from books_live [OF b sub] show "distinct (filter user_nonce (live (nl_ring ?l)))"
    and "\<forall>u\<in>set (live (nl_ring ?l)). user_nonce u \<longrightarrow> registered (nr_registry (ns_net s)) u \<noteq> None"
    by auto
qed

lemma net_registry_of:
  "net_inv s \<Longrightarrow> registry_of fdPerGranule (int (length (nr_loops (ns_net s)))) (nr_registry (ns_net s))"
  by (simp add: net_inv_def net_wf_def registry_of_def books_def)

text \<open>Completions handed to callbacks, however many: the books move them to the finished side.\<close>

lemma net_inv_calls:
  assumes inv: "net_inv s" and i: "i < length (nr_loops (ns_net s))" and l: "l = nr_loops (ns_net s) ! i"
    and r': "kring_wf r'" and reg': "registry_of fdPerGranule (int (length (nr_loops (ns_net s)))) reg'"
    and m: "mset (filter user_nonce (live (nl_ring l))) = mset (filter user_nonce (live r')) + mset (called calls)"
    and get: "\<forall>(cb, ev)\<in>set calls. registered (nr_registry (ns_net s)) (cqe_UserData ev) = Some cb"
    and rest: "\<forall>v. registered reg' v
        = (if v \<in> set (called calls) then None else registered (nr_registry (ns_net s)) v)"
  shows "net_inv (s\<lparr>ns_net := (with_loop i (l\<lparr>nl_ring := r'\<rparr>) (ns_net s))\<lparr>nr_registry := reg'\<rparr>,
       ns_done := ns_done s @ calls\<rparr>)" (is "net_inv ?s'")
proof -
  let ?reg = "nr_registry (ns_net s)"
  have b: "books ?reg (owed s) (mset (ns_accepted s)) (finished s)" using inv by (simp add: net_inv_def)
  let ?l' = "l\<lparr>nl_ring := r'\<rparr>"
  have lo: "loop_owed l = mset (called calls) + loop_owed ?l'"
    using m by (simp add: loop_owed_def mset_filter)
  have "owed ?s' + loop_owed l = owed s + loop_owed ?l'"
    using owed_with_loop [OF i, of "ns_sending s" ?l', folded l] by (simp add: owed_def)
  with lo have "owed s + loop_owed ?l' = (owed ?s' + mset (called calls)) + loop_owed ?l'"
    by (simp only: add.assoc)
  then have q: "owed s = owed ?s' + mset (called calls)" by (rule add_right_imp_eq)
  have "map (\<lambda>u. (u, the (registered ?reg u))) (called calls) = map (\<lambda>(cb, ev). (cqe_UserData ev, cb)) calls"
    using get by (auto simp: called_def)
  then have f: "image_mset (\<lambda>u. (u, the (registered ?reg u))) (mset (called calls))
      = mset (map (\<lambda>(cb, ev). (cqe_UserData ev, cb)) calls)" by (simp flip: mset_map)
  have "books reg' (owed ?s') (mset (ns_accepted s))
      (finished s + image_mset (\<lambda>u. (u, the (registered ?reg u))) (mset (called calls)))"
    using rest reg' by (intro books_take [OF b [unfolded q]]) (auto simp: registry_of_def)
  moreover have "net_wf (ns_net ?s')"
    using net_wf_with_loop [OF net_inv_wf(1) [OF inv], of "l\<lparr>nl_ring := r'\<rparr>" i] r' reg'
    by (simp add: net_wf_def with_loop_def registry_of_def)
  ultimately show ?thesis using inv
    by (simp add: net_inv_def with_loop_def finished_def f ac_simps)
qed

lemma net_inv_consume:
  assumes inv: "net_inv s" and i: "i < length (nr_loops (ns_net s))" and l: "l = nr_loops (ns_net s) ! i"
    and k: "kernel_conforms k" and buff: "length buff \<le> cqeBuffSize"
    and c: "consume_batch k take_registered buff (nl_ring l) (nr_registry (ns_net s))
       = Ok (r', Some (reg', calls, buff'))"
  shows "net_inv (s\<lparr>ns_net := (with_loop i (l\<lparr>nl_ring := r'\<rparr>) (ns_net s))\<lparr>nr_registry := reg'\<rparr>,
       ns_done := ns_done s @ calls\<rparr>)"
proof -
  have wf: "kring_wf (nl_ring l)" using net_inv_wf(2) [OF inv i] l by simp
  have len: "length buff < 2 ^ 32" using buff by (simp add: cqeBuffSize_def)
  have cbs: "\<And>u. u \<in> set (live (nl_ring l)) \<Longrightarrow> user_nonce u \<Longrightarrow> registered (nr_registry (ns_net s)) u \<noteq> None"
    using net_live(2) [OF inv i] l by blast
  from rgc.consume_batch_ok [OF wf k len net_registry_of [OF inv] net_live(1) [OF inv i, folded l] cbs] c
  show ?thesis by (intro net_inv_calls [OF inv i l]) auto
qed

lemma net_inv_ring:
  assumes inv: "net_inv s" and i: "i < length (nr_loops (ns_net s))" and l: "l = nr_loops (ns_net s) ! i"
    and "kring_wf r'" and live: "mset (live r') = mset (live (nl_ring l))"
    and l': "nl_ring l' = r'" "nl_reqBuss l' = nl_reqBuss l"
  shows "net_inv (s\<lparr>ns_net := with_loop i l' (ns_net s)\<rparr>)"
proof -
  have "loop_owed l' = loop_owed l" using live l' by (simp add: loop_owed_def)
  with assms show ?thesis by (intro net_inv_loop) simp_all
qed

lemma net_submit_post:
  assumes wf: "kring_wf (nl_ring l)" and k: "kernel_conforms k" and "net_submit k l = Ok (err, l')"
  shows "kring_wf (nl_ring l') \<and> mset (live (nl_ring l')) = mset (live (nl_ring l)) \<and>
     nl_reqBuss l' = nl_reqBuss l"
  using assms Submit_frame [OF wf k]
  by (auto simp: net_submit_def Let_def split: if_splits)

lemma background_step_inv:
  assumes "background_step s s'" and inv: "net_inv s" and whole: "\<not> ns_torn s'"
  shows "net_inv s'"
  using assms(1)
proof (cases rule: background_step.cases)
  case (receive i l req rest reg spec spec2 err l' reg')
  then have "err = None \<or> nl_ring l' = nl_ring l" using whole by simp
  with net_inv_receive [OF inv receive(2,3,4)] receive(1,5,6) show ?thesis by blast
next
  case (submit k i err l')
  with net_submit_post [OF net_inv_wf(2) [OF inv submit(3)] submit(2,4)] show ?thesis
    using net_inv_ring [OF inv submit(3) refl] by blast
next
  case (kernel i l r')
  from kernel_step_frame [OF kernel(4)] net_inv_wf(2) [OF inv kernel(2)] kernel(3)
  have "kring_wf r'" "mset (live r') = mset (live (nl_ring l))" by (simp_all add: kernel_frame_def)
  then have "net_inv (s\<lparr>ns_net := with_loop i (l\<lparr>nl_ring := r'\<rparr>) (ns_net s)\<rparr>)"
    by (intro net_inv_ring [OF inv kernel(2,3)]) simp_all
  with kernel(1) show ?thesis by simp
qed

lemma consumer_step_inv:
  "consumer_step i calls s s' \<Longrightarrow> net_inv s \<Longrightarrow> net_inv s'"
  by (cases rule: consumer_step.cases) (use net_inv_consume in blast)+

lemma net_step_inv:
  assumes "net_step s s'" and inv: "net_inv s" and whole: "\<not> ns_torn s'"
  shows "net_inv s'"
  using assms(1)
proof (cases rule: net_step.cases)
  case (client_register op fd cb timeout ud i req r')
  with whole obtain c where c: "cb = Some c" "registered (nr_registry (ns_net s)) ud = None" by auto
  from net_inv_register [OF inv client_register(3,4) client_register(5) [unfolded c(1)] c(2)]
  have "net_inv (s\<lparr>ns_net := r', ns_sending := ns_sending s @ [(i, req)], ns_accepted := ns_accepted s @ [(ud, c)], ns_torn := b\<rparr>)" for b
    by (simp add: net_inv_def owed_def finished_def)
  with client_register(1) c show ?thesis by simp
next
  case (client_send xs i req ys r')
  then show ?thesis using net_inv_send [OF inv] by blast
next
  case (client_cancel ud r')
  then show ?thesis using net_inv_cancel [OF inv] by blast
next
  case background
  then show ?thesis using background_step_inv inv whole by blast
next
  case (consume i calls)
  then show ?thesis using consumer_step_inv inv by blast
qed

lemma background_step_torn: "background_step s s' \<Longrightarrow> ns_torn s \<Longrightarrow> ns_torn s'"
  by (auto elim!: background_stepE)

lemma net_step_torn: "net_step s s' \<Longrightarrow> ns_torn s \<Longrightarrow> ns_torn s'"
  by (auto elim!: net_stepE dest: background_step_torn consumer_history(4))

interpretation net_runs: invariant_system net_step "\<lambda>s. \<not> ns_torn s" net_inv
  by unfold_locales (use net_step_torn net_step_inv in blast)+

section \<open>A fresh reactor\<close>

lemma checkRings_net: "checkRings True rings = None \<Longrightarrow> r \<in> set rings \<Longrightarrow> ExtArgFeature (Params r) \<and> FastPollFeature (Params r)"
  by (induction rings) (auto simp: checkRingReq_def split: if_splits option.splits)

lemma NewNet_inv:
  assumes new: "NewNet rings opts = Ok (Inr (r :: (kring, 'cb, 'l) NetworkReactor))"
    and rings: "\<forall>x\<in>set rings. kring_wf x \<and> live x = []" "rings \<noteq> []"
  shows "net_inv (net_init r)" and "length (nr_loops r) = length rings"
    and "\<forall>l\<in>set (nr_loops r). ExtArgFeature (Params (nl_ring l)) \<and> FastPollFeature (Params (nl_ring l))"
proof -
  obtain reg :: "'cb cbRegistry" where reg: "newCbRegistry (int (length rings)) fdPerGranule = Ok reg"
    "registry_inv reg" "granularity reg = fdPerGranule" "shardCnt reg = int (length rings)"
    "\<forall>fd. 0 \<le> fd \<longrightarrow> registry_nonce reg fd = 0 \<and> registry_lookup reg fd = Map.empty"
    using newCbRegistry_ok [of "int (length rings)" fdPerGranule] rings(2) by (auto simp: fdPerGranule_def)
  have chk: "checkRings True rings = None" and r: "nr_loops r = map newRingNetEventLoop rings" "nr_registry r = reg"
    using new reg(1) by (auto simp: NewNet_def split: option.splits)
  have "registered reg u = None" for u
    using reg(5) RequestID_fd_range(1) by (simp add: registered_def map_read_def)
  moreover have "owed (net_init r) = {#}"
  proof (rule multiset_eqI)
    fix u
    have "u \<notin># owed (net_init r)"
      using rings(1) r by (auto simp: owed_def net_init_def sending_owed_def in_sum_owed loop_owed_def newRingNetEventLoop_def)
    then show "count (owed (net_init r)) u = count {#} u" by (simp add: not_in_iff)
  qed
  moreover have "net_wf r" using rings(1) r reg by (auto simp: net_wf_def newRingNetEventLoop_def)
  ultimately show "net_inv (net_init r)"
    using reg(2) r by (simp add: net_inv_def books_def finished_def) (simp add: net_init_def)
  show "length (nr_loops r) = length rings" using r by simp
  show "\<forall>l\<in>set (nr_loops r). ExtArgFeature (Params (nl_ring l)) \<and> FastPollFeature (Params (nl_ring l))"
    using r checkRings_net [OF chk] by (auto simp: newRingNetEventLoop_def)
qed

section \<open>A round of the consumer\<close>

lemma net_consumer_round_ok:
  assumes inv: "net_inv s" and i: "i < length (nr_loops (ns_net s))" and l: "l = nr_loops (ns_net s) ! i"
    and ext: "ExtArgFeature (Params (nl_ring l))"
    and k: "kernel_conforms k" "kernel_waits k" and buff: "length buff = cqeBuffSize"
  shows "\<exists>err l' reg' calls.
     net_consumer_round k spec arg tick buff l (nr_registry (ns_net s)) = Some (Ok (err, l', reg', calls)) \<and>
     net_inv (s\<lparr>ns_net := (with_loop i l' (ns_net s))\<lparr>nr_registry := reg'\<rparr>, ns_done := ns_done s @ calls\<rparr>) \<and>
     (cq_ready (cqRing (nl_ring l)) \<noteq> [] \<longrightarrow> err = None \<and> cq_ready (cqRing (nl_ring l')) = [] \<and>
        (\<exists>more. called calls = users (cq_ready (cqRing (nl_ring l))) @ more))"
proof -
  let ?reg = "nr_registry (ns_net s)"
  have wf: "kring_wf (nl_ring l)" using net_inv_wf(2) [OF inv i] l by simp
  obtain err r' reg' calls where
    w: "wait_and_drain k take_registered spec arg tick buff (nl_ring l) ?reg = Some (Ok (err, r', reg', calls))"
    and rest: "kring_wf r'" "registry_of fdPerGranule (int (length (nr_loops (ns_net s)))) reg'"
      "mset (filter user_nonce (live (nl_ring l))) = mset (filter user_nonce (live r')) + mset (called calls)"
      "\<forall>(cb, ev)\<in>set calls. registered ?reg (cqe_UserData ev) = Some cb"
      "\<forall>v. registered reg' v = (if v \<in> set (called calls) then None else registered ?reg v)"
      "cq_ready (cqRing (nl_ring l)) \<noteq> [] \<longrightarrow> err = None \<and> cq_ready (cqRing r') = [] \<and>
         (\<exists>more. called calls = users (cq_ready (cqRing (nl_ring l))) @ more)"
    using rgc.wait_and_drain_ok [OF wf ext k buff net_registry_of [OF inv] net_live [OF inv i, folded l],
        where spec = spec and arg = arg and tick = tick]
    by (elim exE conjE) (rule that)
  from w net_inv_calls [OF inv i l rest(1-5)] rest(6) show ?thesis
    by (simp add: net_consumer_round_def)
qed

section \<open>Routing\<close>

lemma net_routing:
  assumes "net_inv s" and "0 \<le> fd" and "nr_loops (ns_net s) \<noteq> []"
  shows "\<exists>i idx. loopForFd (ns_net s) fd = Ok i \<and> i < length (nr_loops (ns_net s)) \<and>
     shardNumAndFlattenIdx (nr_registry (ns_net s)) fd = Ok (int i, idx)"
proof -
  let ?n = "int (length (nr_loops (ns_net s)))"
  have reg: "granularity (nr_registry (ns_net s)) = 75" "shardCnt (nr_registry (ns_net s)) = ?n"
    using assms(1) by (simp_all add: net_inv_def net_wf_def fdPerGranule_def)
  have n: "0 < ?n" using assms(3) by simp
  have "go_rem (go_quot fd 75) ?n = fd div 75 mod ?n"
    using assms(2) n by (simp add: pos_imp_zdiv_nonneg_iff)
  moreover have "0 \<le> fd div 75 mod ?n" "fd div 75 mod ?n < ?n" using n by simp_all
  ultimately show ?thesis
    using n by (auto simp: loopForFd_def shardNumAndFlattenIdx_def reg fdPerGranule_def Let_def nat_less_iff)
qed

section \<open>Torn requests\<close>

text \<open>
  A request with a timeout on a queue with one free slot: its entry is queued, the entry of
  the timeout is not, and the publisher forgets the callback although the kernel will
  complete the request.
\<close>

lemma publish_torn:
  assumes wf: "kring_wf (nl_ring l)" and reg: "registry_inv reg"
    and one: "length (sq_published (sqRing (nl_ring l))) + length (sq_pending (sqRing (nl_ring l))) + 1
        = sq_cap (sqRing (nl_ring l))"
    and t: "rq_timeout req \<noteq> 0"
    and e: "uop.entry spec (rq_op req) (rq_flags req OR SqeIOLinkFlag) (rq_userData req) = Ok e"
  shows "\<exists>l' reg'. publish_request spec spec2 req l reg = Ok (Some ErrSQOverflow, l', reg') \<and>
     rq_userData req \<in> set (live (nl_ring l')) \<and> registered reg' (rq_userData req) = None"
proof -
  let ?r = "nl_ring l" and ?ud = "rq_userData req"
  have sq: "sq_wf (sqRing ?r)" using wf by (simp add: kring_wf_def)
  have room: "length (sq_published (sqRing ?r)) + length (sq_pending (sqRing ?r)) < sq_cap (sqRing ?r)"
    using one by simp
  define r1 where "r1 = ?r\<lparr>sqRing := sq_push e (sqRing ?r)\<rparr>"
  have q1: "QueueSQE spec (rq_op req) (rq_flags req OR SqeIOLinkFlag) ?ud ?r = Ok (None, r1)"
    using QueueSQE_fits [OF sq room] e by (simp add: r1_def)
  have sq1: "sq_wf (sqRing r1)" using sq_push_wf [OF sq room] by (simp add: r1_def)
  have "length (sq_published (sqRing r1)) + length (sq_pending (sqRing r1)) = sq_cap (sqRing r1)"
    using sq_push_contents [OF sq room, of e] one unfolding r1_def
    by (simp del: length_sq_pending length_sq_published add: sq_push_def sq_cap_def)
  then have q2: "QueueSQE spec2 (LinkTimeout (rq_timeout req)) 0 timeoutNonce r1 = Ok (Some ErrSQOverflow, r1)"
    by (rule QueueSQE_full [OF sq1])
  obtain reg' where pop: "registry_pop (RequestID_fd ?ud) (RequestID_nonce ?ud) reg = Ok (registered reg ?ud, reg')"
    "registered reg' ?ud = None"
    using pop_registered [OF reg, of ?ud] by auto
  have "mset (live r1) = add_mset ?ud (mset (live ?r))" using QueueSQE_live [OF wf q1] by simp
  then have "?ud \<in> set (live r1)" by (metis set_mset_mset union_single_eq_member)
  with q1 q2 pop t show ?thesis by (simp add: publish_request_def)
qed

lemma dispatch_nil:
  assumes "registry_inv reg" and "registered reg (cqe_UserData ev) = None"
    and "user_nonce (cqe_UserData ev)" and "cqe_at r q = Ok ev"
  shows "dispatch take_registered r (Some q # ps) reg = Panic NilFuncCall"
  using assms pop_registered [OF assms(1), of "cqe_UserData ev"]
  by (auto simp: take_registered_def user_nonce_def Let_def)

section \<open>A small reactor\<close>

lemma ex_net:
  "\<exists>r :: (kring, nat, unit) NetworkReactor. NewNet [ex_kring] [] = Ok (Inr r) \<and>
     nr_loops r = [newRingNetEventLoop ex_kring]"
proof -
  obtain reg :: "nat cbRegistry" where "newCbRegistry 1 fdPerGranule = Ok reg"
    using newCbRegistry_ok [of 1 fdPerGranule] by (auto simp: fdPerGranule_def)
  then show ?thesis using ex_kring_wf(3,4) by (simp add: NewNet_def checkRingReq_def)
qed

text \<open>A run: a client registers the callback 5 for a receive on descriptor 3.\<close>

lemma ex_net_step:
  "\<exists>(r :: (kring, nat, unit) NetworkReactor) s u. NewNet [ex_kring] [] = Ok (Inr r) \<and>
     net_step\<^sup>*\<^sup>* (net_init r) s \<and> ns_accepted s = [(u, 5)] \<and> \<not> ns_torn s \<and>
     length (nr_loops (ns_net s)) = 1 \<and> nl_ring (nr_loops (ns_net s) ! 0) = ex_kring"
proof -
  obtain r :: "(kring, nat, unit) NetworkReactor" where
    r: "NewNet [ex_kring] [] = Ok (Inr r)" "nr_loops r = [newRingNetEventLoop ex_kring]"
    using ex_net by blast
  have inv: "net_inv (net_init r)" using NewNet_inv(1) [OF r(1)] ex_kring_wf by simp
  have b: "books (nr_registry r) {#} {#} {#}"
    using inv r(2) ex_kring_wf(2)
    by (simp add: net_inv_def net_init_def owed_def finished_def sending_owed_def loop_owed_def newRingNetEventLoop_def)
  obtain n reg' where a: "registry_add 3 (Some 5) (nr_registry r) = Ok (n, reg')"
    using add_registered [of "nr_registry r" 3 "Some 5"] b by (auto simp: books_def)
  define op where "op = RecvOp 3 \<lparr>sl_base = 64, sl_len = 8\<rparr> 0"
  let ?ud = "packRequestID 3 n"
  have g: "net_register op 3 (Some 5) 0 (ns_net (net_init r)) = Ok (?ud, 0,
      \<lparr>rq_op = op, rq_flags = 0, rq_userData = ?ud, rq_timeout = 0\<rparr>, r\<lparr>nr_registry := reg'\<rparr>)"
    using a r(2) by (simp add: net_register_def net_init_def loopForFd_def fdPerGranule_def Let_def)
  let ?s = "(net_init r)\<lparr>ns_net := r\<lparr>nr_registry := reg'\<rparr>,
      ns_sending := ns_sending (net_init r) @ [(0, \<lparr>rq_op = op, rq_flags = 0, rq_userData = ?ud, rq_timeout = 0\<rparr>)],
      ns_accepted := ns_accepted (net_init r) @ [(?ud, 5)]\<rparr>"
  have "net_step (net_init r) ?s"
    using net_step.client_register [OF _ _ _ g] b by (auto simp: op_def net_init_def books_def)
  then have "net_step\<^sup>*\<^sup>* (net_init r) ?s" by (rule r_into_rtranclp)
  moreover have "ns_accepted ?s = [(?ud, 5)]" "\<not> ns_torn ?s" "length (nr_loops (ns_net ?s)) = 1"
    "nl_ring (nr_loops (ns_net ?s) ! 0) = ex_kring"
    using r(2) by (simp_all add: net_init_def newRingNetEventLoop_def)
  ultimately show ?thesis using r(1) by blast
qed

section \<open>From the channel to the completion queue\<close>

text \<open>
  What happens to a request that is alone in an idle loop: the publisher queues it and submits, the
  kernel takes it and answers with any result.
\<close>

lemma ring_answers:
  assumes wf: "kring_wf r" and idle: "live r = []" and e: "uop.entry spec op fl ud = Ok e"
  shows "\<exists>r1 c err r2 r3. QueueSQE spec op fl ud r = Ok (None, r1) \<and> Submit ex_intr r1 = Ok (c, err, r2) \<and>
     kernel_step\<^sup>*\<^sup>* r2 r3 \<and> kring_wf r3 \<and> cq_ready (cqRing r3) = [\<lparr>cqe_UserData = ud, cqe_Res = res, cqe_Flags = 0\<rparr>] \<and>
     live r3 = [ud]"
proof -
  have sq: "sq_wf (sqRing r)" and cq: "cq_wf (cqRing r)" using wf by (simp_all add: kring_wf_def)
  have none: "sq_published (sqRing r) = []" "sq_pending (sqRing r) = []" "inflight r = []" "cq_ready (cqRing r) = []"
    using idle by (simp_all add: live_def)
  have room: "length (sq_published (sqRing r)) + length (sq_pending (sqRing r)) < sq_cap (sqRing r)"
    using sq pow2_ring_pos unfolding none by (auto simp: sq_cap_def elim!: sq_wfE)
  let ?r1 = "r\<lparr>sqRing := sq_push e (sqRing r)\<rparr>" let ?ev = "\<lparr>cqe_UserData = ud, cqe_Res = res, cqe_Flags = 0\<rparr>"
  have q: "QueueSQE spec op fl ud r = Ok (None, ?r1)" using QueueSQE_fits [OF sq room] e by simp
  note push = sq_push_wf [OF sq room, of e] sq_push_contents [OF sq room, of e]
  obtain s' cnt where fl: "flushSQ ?r1 = Ok (cnt, ?r1\<lparr>sqRing := s'\<rparr>)" "sq_wf s'" "sq_published s' = [e]" "sq_pending s' = []"
    using flushSQ_ok [of ?r1] push none by auto
  let ?r2 = "?r1\<lparr>sqRing := s'\<rparr>"
  have "\<exists>c err. Submit ex_intr ?r1 = Ok (c, err, ?r2)"
    using fl(1) by (auto simp: Submit_def Let_def sysEnter_def sysEnter2_def RawSyscall6_def Syscall6_def ex_intr_def split: prod.split)
  then obtain c err where sub: "Submit ex_intr ?r1 = Ok (c, err, ?r2)" by blast
  have one: "1 \<le> length (sq_published (sqRing ?r2))" using fl(3) by (simp del: length_sq_published)
  let ?t = "(kernel_consume 1 ?r2)\<lparr>inflight := [ud]\<rparr>"
  have "kernel_step ?r2 ?t"
    using kernel_step.take_sqes [OF one] fl(3) none(3) uop.entry_sel(3) [OF e] by simp
  moreover have "length (cq_ready (cqRing ?t)) < cq_cap (cqRing ?t)"
    using cq pow2_ring_pos none(4) by (auto simp: cq_cap_def elim!: cq_wfE simp del: length_cq_ready)
  then have post: "kernel_step ?t ((kernel_post ?ev ?t)\<lparr>inflight := []\<rparr>)" and ready: "cq_wf (cqRing (kernel_post ?ev ?t))"
    "cq_ready (cqRing (kernel_post ?ev ?t)) = [?ev]"
    using kernel_step.complete [of ?ev ?t] kernel_post_ok [of ?t ?ev] cq none(4) by (simp_all del: length_cq_ready)
  note con = kernel_consume_ok [of ?r2 1]
  have "kernel_step\<^sup>*\<^sup>* ?r2 ((kernel_post ?ev ?t)\<lparr>inflight := []\<rparr>)" using calculation post by simp
  with q sub ready con one fl(2-4) show ?thesis
    by (intro exI [of _ ?r1] exI [of _ c] exI [of _ err] exI [of _ ?r2] exI [of _ "(kernel_post ?ev ?t)\<lparr>inflight := []\<rparr>"])
      (simp add: kring_wf_def live_def del: length_sq_published length_cq_ready)
qed

lemma background_kernel_run:
  assumes "kernel_step\<^sup>*\<^sup>* r r'" and j: "j < length (nr_loops (ns_net s))" and l: "l = nr_loops (ns_net s) ! j" and r: "nl_ring l = r"
  shows "background_step\<^sup>*\<^sup>* s (s\<lparr>ns_net := with_loop j (l\<lparr>nl_ring := r'\<rparr>) (ns_net s)\<rparr>)"
  using assms(1)
proof (induction rule: rtranclp_induct)
  case base
  have "s\<lparr>ns_net := with_loop j (l\<lparr>nl_ring := r\<rparr>) (ns_net s)\<rparr> = s"
    using j l by (simp add: with_loop_def flip: r)
  then show ?case by simp
next
  case (step t u)
  let ?s = "\<lambda>x. s\<lparr>ns_net := with_loop j (l\<lparr>nl_ring := x\<rparr>) (ns_net s)\<rparr>"
  have "background_step (?s t) (?s u)"
    using background_step.kernel [of j "?s t" "l\<lparr>nl_ring := t\<rparr>" u] j step.hyps(2) by (simp add: with_loop_def)
  with step.IH show ?case by (rule rtranclp.rtrancl_into_rtrancl)
qed

lemma request_answered:
  assumes j: "j < length (nr_loops (ns_net s))" and l: "l = nr_loops (ns_net s) ! j" and bus: "nl_reqBuss l = [req]"
    and t: "rq_timeout req = 0" and e: "uop.entry spec (rq_op req) (rq_flags req) (rq_userData req) = Ok e"
    and wf: "kring_wf (nl_ring l)" and idle: "live (nl_ring l) = []"
  shows "\<exists>l'. background_step\<^sup>*\<^sup>* s (s\<lparr>ns_net := with_loop j l' (ns_net s)\<rparr>) \<and> nl_reqBuss l' = [] \<and> kring_wf (nl_ring l') \<and>
     cq_ready (cqRing (nl_ring l')) = [\<lparr>cqe_UserData = rq_userData req, cqe_Res = res, cqe_Flags = 0\<rparr>] \<and>
     live (nl_ring l') = [rq_userData req]"
proof -
  obtain r1 c err r2 r3 where r: "QueueSQE spec (rq_op req) (rq_flags req) (rq_userData req) (nl_ring l) = Ok (None, r1)"
    "Submit ex_intr r1 = Ok (c, err, r2)" "kernel_step\<^sup>*\<^sup>* r2 r3" "kring_wf r3"
    "cq_ready (cqRing r3) = [\<lparr>cqe_UserData = rq_userData req, cqe_Res = res, cqe_Flags = 0\<rparr>]" "live r3 = [rq_userData req]"
    using ring_answers [OF wf idle e, of res] by blast
  let ?s = "\<lambda>l. s\<lparr>ns_net := with_loop j l (ns_net s)\<rparr>"
  let ?l1 = "l\<lparr>nl_reqBuss := [], nl_submitAllowed := 1, nl_ring := r1\<rparr>"
  have "publish_request spec spec2 req (l\<lparr>nl_reqBuss := []\<rparr>) (nr_registry (ns_net s)) = Ok (None, ?l1, nr_registry (ns_net s))" for spec2
    using t r(1) by (simp add: publish_request_def)
  from background_step.receive [OF j l bus refl this]
  have rc: "background_step s (?s ?l1)" by (simp add: with_loop_def split: option.splits)
  have "\<exists>e l2. net_submit ex_intr ?l1 = Ok (e, l2) \<and> nl_ring l2 = r2 \<and> nl_reqBuss l2 = []"
    using r(2) by (cases "err_is err (Errno 16) \<or> err_is err (Errno 11)"; cases err) (simp_all add: net_submit_def Let_def)
  then obtain l2 where l2: "net_submit ex_intr ?l1 = Ok l2" "nl_ring (snd l2) = r2" "nl_reqBuss (snd l2) = []" by auto
  have sb: "background_step (?s ?l1) (?s (snd l2))"
    using background_step.submit [OF ex_intr_ok(1), of j "?s ?l1" "fst l2" "snd l2"] l2(1) j by (simp add: with_loop_def)
  have "background_step\<^sup>*\<^sup>* (?s (snd l2)) (?s ((snd l2)\<lparr>nl_ring := r3\<rparr>))"
    using background_kernel_run [OF r(3), of j "?s (snd l2)" "snd l2"] l2(2) j by (simp add: with_loop_def)
  with rc sb have "background_step\<^sup>*\<^sup>* s (?s ((snd l2)\<lparr>nl_ring := r3\<rparr>))" by (meson converse_rtranclp_into_rtranclp)
  with r(4-6) l2(3) show ?thesis by (intro exI [of _ "(snd l2)\<lparr>nl_ring := r3\<rparr>"]) simp
qed

section \<open>Properties\<close>

text \<open>
  C5. The network reactor accounts for every request. In every run of a reactor with any
  number of loops sharing the registry, as long as no request was torn: every registered
  callback is outstanding, called or dropped, exactly once and under its own identifier; the
  registry holds the callbacks of the outstanding requests and no other; and no loop's
  consumer panics on the next batch.
\<close>

theorem net_callbacks:
  assumes "NewNet rings opts = Ok (Inr r)" and "\<forall>x\<in>set rings. kring_wf x \<and> live x = []" and "rings \<noteq> []"
    and "kernel_conforms k" and "net_step\<^sup>*\<^sup>* (net_init r) s" and "\<not> ns_torn s"
  shows "mset (ns_accepted s)
       = image_mset (\<lambda>u. (u, the (registered (nr_registry (ns_net s)) u))) (owed s) + finished s \<and>
     (\<forall>u. registered (nr_registry (ns_net s)) u \<noteq> None \<longleftrightarrow> u \<in># owed s) \<and>
     (\<forall>i buff. i < length (nr_loops (ns_net s)) \<longrightarrow> length buff = cqeBuffSize \<longrightarrow>
        (\<exists>res. consume_batch k take_registered buff (nl_ring (nr_loops (ns_net s) ! i))
           (nr_registry (ns_net s)) = Ok res))"
proof -
  have inv: "net_inv s" using net_runs.run_keeps [OF assms(5) _ NewNet_inv(1) [OF assms(1-3)]] assms(4,6) by blast
  have "\<exists>res. consume_batch k take_registered buff (nl_ring (nr_loops (ns_net s) ! i)) (nr_registry (ns_net s)) = Ok res"
    if i: "i < length (nr_loops (ns_net s))" and "length buff = cqeBuffSize" for i buff
  proof -
    have len: "length buff < 2 ^ 32" using that(2) by (simp add: cqeBuffSize_def)
    have cbs: "\<And>u. u \<in> set (live (nl_ring (nr_loops (ns_net s) ! i))) \<Longrightarrow> user_nonce u \<Longrightarrow>
        registered (nr_registry (ns_net s)) u \<noteq> None" using net_live(2) [OF inv i] by blast
    from rgc.consume_batch_ok [OF net_inv_wf(2) [OF inv i] assms(4) len net_registry_of [OF inv]
        net_live(1) [OF inv i] cbs] show ?thesis by auto
  qed
  with inv show ?thesis unfolding net_inv_def books_def by blast
qed

theorem net_callbacks_witness:
  "\<exists>(s :: (nat, unit) nsys) u. ns_accepted s = [(u, 5)] \<and>
     mset (ns_accepted s)
       = image_mset (\<lambda>u. (u, the (registered (nr_registry (ns_net s)) u))) (owed s) + finished s"
proof -
  obtain r :: "(kring, nat, unit) NetworkReactor" and s u where s: "NewNet [ex_kring] [] = Ok (Inr r)"
    "net_step\<^sup>*\<^sup>* (net_init r) s" "ns_accepted s = [(u, 5)]" "\<not> ns_torn s"
    using ex_net_step by blast
  from net_callbacks [OF s(1) _ _ ex_intr_ok(1) s(2,4)] s(3) show ?thesis
    using ex_kring_wf by auto
qed

text \<open>
  C6. The consumers of the network reactor make progress: in every reachable state without
  torn requests a round of any loop's consumer returns; if events are waiting it makes no
  error, leaves none, and has called the callbacks of all of them in posting order.
\<close>

theorem net_round:
  assumes "NewNet rings opts = Ok (Inr r)" and "\<forall>x\<in>set rings. kring_wf x \<and> live x = []" and "rings \<noteq> []"
    and "kernel_conforms k" and "kernel_waits k" and "net_step\<^sup>*\<^sup>* (net_init r) s" and "\<not> ns_torn s"
    and "i < length (nr_loops (ns_net s))" and "l = nr_loops (ns_net s) ! i"
    and "ExtArgFeature (Params (nl_ring l))" and "length buff = cqeBuffSize"
  shows "\<exists>err l' reg' calls.
     net_consumer_round k spec arg tick buff l (nr_registry (ns_net s)) = Some (Ok (err, l', reg', calls)) \<and>
     (\<forall>(cb, ev)\<in>set calls. (cqe_UserData ev, cb) \<in> set (ns_accepted s)) \<and>
     (cq_ready (cqRing (nl_ring l)) \<noteq> [] \<longrightarrow> err = None \<and> cq_ready (cqRing (nl_ring l')) = [] \<and>
        (\<exists>more. called calls = users (cq_ready (cqRing (nl_ring l))) @ more))"
proof -
  have inv: "net_inv s" using net_runs.run_keeps [OF assms(6) _ NewNet_inv(1) [OF assms(1-3)]] assms(4,7) by blast
  obtain err l' reg' calls where
    w: "net_consumer_round k spec arg tick buff l (nr_registry (ns_net s)) = Some (Ok (err, l', reg', calls))"
    and inv': "net_inv (s\<lparr>ns_net := (with_loop i l' (ns_net s))\<lparr>nr_registry := reg'\<rparr>, ns_done := ns_done s @ calls\<rparr>)"
    and rest: "cq_ready (cqRing (nl_ring l)) \<noteq> [] \<longrightarrow> err = None \<and> cq_ready (cqRing (nl_ring l')) = [] \<and>
        (\<exists>more. called calls = users (cq_ready (cqRing (nl_ring l))) @ more)"
    using net_consumer_round_ok [OF inv assms(8,9,10,4,5,11), of spec arg tick] by (elim exE conjE) (rule that)
  have "(cqe_UserData ev, cb) \<in># mset (ns_accepted s)" if "(cb, ev) \<in> set calls" for cb ev
  proof -
    let ?s' = "s\<lparr>ns_net := (with_loop i l' (ns_net s))\<lparr>nr_registry := reg'\<rparr>, ns_done := ns_done s @ calls\<rparr>"
    have "mset (ns_accepted s) = image_mset (\<lambda>u. (u, the (registered reg' u))) (owed ?s') + finished ?s'"
      using inv' by (simp add: net_inv_def books_def)
    moreover have "(cqe_UserData ev, cb) \<in># finished ?s'" using that by (force simp: finished_def)
    ultimately show ?thesis by simp
  qed
  with w rest show ?thesis by auto
qed

theorem net_round_witness:
  "\<exists>(s :: (nat, unit) nsys) err l' reg' calls.
     net_consumer_round ex_intr 0 0 1000000 (replicate cqeBuffSize None) (nr_loops (ns_net s) ! 0)
       (nr_registry (ns_net s)) = Some (Ok (err, l', reg', calls))"
proof -
  obtain r :: "(kring, nat, unit) NetworkReactor" and s u where s: "NewNet [ex_kring] [] = Ok (Inr r)"
    "net_step\<^sup>*\<^sup>* (net_init r) s" "ns_accepted s = [(u, 5)]" "\<not> ns_torn s"
    "length (nr_loops (ns_net s)) = 1" "nl_ring (nr_loops (ns_net s) ! 0) = ex_kring"
    using ex_net_step by blast
  have "\<exists>err l' reg' calls.
     net_consumer_round ex_intr 0 0 1000000 (replicate cqeBuffSize None) (nr_loops (ns_net s) ! 0)
       (nr_registry (ns_net s)) = Some (Ok (err, l', reg', calls)) \<and>
     (\<forall>(cb, ev)\<in>set calls. (cqe_UserData ev, cb) \<in> set (ns_accepted s)) \<and>
     (cq_ready (cqRing (nl_ring (nr_loops (ns_net s) ! 0))) \<noteq> [] \<longrightarrow> err = None \<and> cq_ready (cqRing (nl_ring l')) = [] \<and>
        (\<exists>more. called calls = users (cq_ready (cqRing (nl_ring (nr_loops (ns_net s) ! 0)))) @ more))"
    by (rule net_round [OF s(1) _ _ ex_intr_ok s(2,4)]) (use s(5,6) ex_kring_wf in simp_all)
  then show ?thesis by blast
qed

text \<open>
  C12. A torn request brings the consumer down. On a queue with one free slot the publisher
  queues a request with a timeout, fails to queue the timeout, and takes the callback out of
  the registry although the entry stays queued; when the completion of that entry arrives,
  with that registry, the consumer calls a nil function.
\<close>

theorem torn_request_panics:
  assumes "kring_wf (nl_ring l)" and "registry_inv reg"
    and "length (sq_published (sqRing (nl_ring l))) + length (sq_pending (sqRing (nl_ring l))) + 1
        = sq_cap (sqRing (nl_ring l))"
    and "rq_timeout req \<noteq> 0" and "user_nonce (rq_userData req)"
    and "ring_entry spec (rq_op req, rq_flags req OR SqeIOLinkFlag, rq_userData req) = Ok e"
  shows "\<exists>l' reg'. publish_request spec spec2 req l reg = Ok (Some ErrSQOverflow, l', reg') \<and>
     rq_userData req \<in> set (live (nl_ring l')) \<and>
     (\<forall>ev r q ps. cqe_UserData ev = rq_userData req \<longrightarrow> cqe_at (r :: kring) q = Ok ev \<longrightarrow>
        dispatch take_registered r (Some q # ps) reg' = Panic NilFuncCall)"
proof -
  have e: "uop.entry spec (rq_op req) (rq_flags req OR SqeIOLinkFlag) (rq_userData req) = Ok e"
    using assms(6) by (simp add: ring_entry_uop)
  obtain l' reg' where p: "publish_request spec spec2 req l reg = Ok (Some ErrSQOverflow, l', reg')"
    "rq_userData req \<in> set (live (nl_ring l'))" "registered reg' (rq_userData req) = None"
    using publish_torn [OF assms(1,2,3,4) e] by blast
  have "registry_inv reg'" using publish_request_post [OF assms(1,2) p(1)] by simp
  with p dispatch_nil assms(5) show ?thesis by metis
qed

theorem torn_request_panics_witness:
  "\<exists>l' reg'. publish_request 0 0 \<lparr>rq_op = NopOp, rq_flags = 0, rq_userData = packRequestID 3 1, rq_timeout = 9\<rparr>
       (newRingNetEventLoop ex_three) ex_registry = Ok (Some ErrSQOverflow, l', reg') \<and>
     packRequestID 3 1 \<in> set (live (nl_ring l'))"
proof -
  obtain e where e: "ring_entry 0 (NopOp, 0 OR SqeIOLinkFlag, packRequestID 3 1) = Ok e"
    by (simp add: ring_entry_def)
  let ?req = "\<lparr>rq_op = NopOp, rq_flags = 0, rq_userData = packRequestID 3 1, rq_timeout = 9\<rparr>"
  have "user_nonce (packRequestID 3 1)" by (rule packRequestID_user) simp_all
  with torn_request_panics [of "newRingNetEventLoop ex_three" ex_registry ?req 0 e 0] e
    ex_three_wf ex_registry_inv
  show ?thesis by (auto simp: newRingNetEventLoop_def simp del: length_sq_published length_sq_pending)
qed

text \<open>
  C19. The loop of a descriptor is the loop of its shard: \<^verbatim>\<open>loopForFd\<close> chooses, for every
  descriptor and in every reachable state, the loop whose number is the shard the registry
  keeps the callbacks of that descriptor in.
\<close>

theorem loop_is_shard:
  assumes "NewNet rings opts = Ok (Inr r)" and "\<forall>x\<in>set rings. kring_wf x \<and> live x = []" and "rings \<noteq> []"
    and "0 \<le> fd"
  shows "\<exists>i idx. loopForFd r fd = Ok i \<and> i < length (nr_loops r) \<and>
     shardNumAndFlattenIdx (nr_registry r) fd = Ok (int i, idx)"
proof -
  have "nr_loops (ns_net (net_init r)) \<noteq> []" using NewNet_inv(2) [OF assms(1-3)] assms(3) by (auto simp: net_init_def)
  from net_routing [OF NewNet_inv(1) [OF assms(1-3)] assms(4) this] show ?thesis by (simp add: net_init_def)
qed

theorem loop_is_shard_witness:
  "\<exists>(r :: (kring, nat, unit) NetworkReactor) idx. NewNet [ex_kring] [] = Ok (Inr r) \<and>
     loopForFd r 100 = Ok 0 \<and> shardNumAndFlattenIdx (nr_registry r) 100 = Ok (0, idx)"
proof -
  obtain r :: "(kring, nat, unit) NetworkReactor" where
    r: "NewNet [ex_kring] [] = Ok (Inr r)" "nr_loops r = [newRingNetEventLoop ex_kring]"
    using ex_net by blast
  from loop_is_shard [OF r(1), of 100] r ex_kring_wf show ?thesis by auto
qed

text \<open>
  Request identifiers lose nothing: for every descriptor below \<open>2 ^ 32\<close> and every nonce,
  \<^verbatim>\<open>fd()\<close> and \<^verbatim>\<open>nonce()\<close> of the packed identifier give them back.
\<close>

theorem requestID_roundtrip:
  assumes "0 \<le> fd" and "fd < 2 ^ 32"
  shows "RequestID_fd (packRequestID fd n) = fd \<and> RequestID_nonce (packRequestID fd n) = n"
  using RequestID_fd_pack [OF assms] RequestID_nonce_pack [OF assms] by blast

theorem requestID_roundtrip_witness:
  "RequestID_fd (packRequestID 4000000000 (- 1)) = 4000000000 \<and> RequestID_nonce (packRequestID 4000000000 (- 1)) = - 1"
  by (rule requestID_roundtrip) simp_all

text \<open>
  No request is mistaken for the library's own: the identifier of a 31-bit descriptor is
  neither the timeout nonce nor the cancel nonce, which the consumer skips.
\<close>

theorem requestID_not_reserved:
  assumes "0 \<le> fd" and "fd < 2 ^ 31"
  shows "packRequestID fd n \<noteq> timeoutNonce \<and> packRequestID fd n \<noteq> cancelNonce"
  using packRequestID_user [OF assms] by (simp add: user_nonce_def)

theorem requestID_not_reserved_witness: "packRequestID 2147483647 (- 1) \<noteq> timeoutNonce"
  using requestID_not_reserved [of 2147483647 "- 1"] by simp

text \<open>
  C32. A request the full queue refuses is forgotten: the ring is unchanged, the error is
  logged only, and the callback leaves the registry without having been called; every other
  callback stays.
\<close>

theorem publish_overflow_forgets:
  assumes "kring_wf (nl_ring l)" and "registry_inv reg"
    and "length (sq_published (sqRing (nl_ring l))) + length (sq_pending (sqRing (nl_ring l)))
        = sq_cap (sqRing (nl_ring l))"
  shows "\<exists>reg'. publish_request spec spec2 req l reg
       = Ok (Some ErrSQOverflow, l\<lparr>nl_submitAllowed := 1\<rparr>, reg') \<and> registry_inv reg' \<and>
     (\<forall>v. registered reg' v = (if v = rq_userData req then None else registered reg v))"
proof -
  have sq: "sq_wf (sqRing (nl_ring l))" using assms(1) by (simp add: kring_wf_def)
  note full = QueueSQE_full [OF sq assms(3)]
  obtain reg' where "registry_pop (RequestID_fd (rq_userData req)) (RequestID_nonce (rq_userData req)) reg
      = Ok (registered reg (rq_userData req), reg')" "registry_inv reg'"
    "\<forall>v. registered reg' v = (if v = rq_userData req then None else registered reg v)"
    using pop_registered [OF assms(2)] by blast
  moreover have "l\<lparr>nl_submitAllowed := 1, nl_ring := nl_ring l\<rparr> = l\<lparr>nl_submitAllowed := 1\<rparr>" by (cases l) simp
  ultimately show ?thesis using full by (simp add: publish_request_def Let_def)
qed

theorem publish_overflow_forgets_witness:
  "\<exists>reg'. publish_request 0 0 \<lparr>rq_op = NopOp, rq_flags = 0, rq_userData = 3, rq_timeout = 0\<rparr>
       (newRingNetEventLoop ex_full) ex_registry
     = Ok (Some ErrSQOverflow, newRingNetEventLoop ex_full\<lparr>nl_submitAllowed := 1\<rparr>, reg') \<and>
     registered reg' 3 = None"
  using publish_overflow_forgets [of "newRingNetEventLoop ex_full" ex_registry 0 0
      "\<lparr>rq_op = NopOp, rq_flags = 0, rq_userData = 3, rq_timeout = 0\<rparr>"] ex_full_wf ex_registry_inv
  by (auto simp: newRingNetEventLoop_def simp del: length_sq_published length_sq_pending)

lemma checkRings_cases:
  "checkRings True rings = None \<and> (\<forall>x\<in>set rings. ExtArgFeature (Params x) \<and> FastPollFeature (Params x)) \<or>
   (\<exists>e. checkRings True rings = Some e \<and> errors_is e ErrRequirements) \<and>
     \<not> (\<forall>x\<in>set rings. ExtArgFeature (Params x) \<and> FastPollFeature (Params x))"
  by (induction rings) (auto simp: checkRingReq_def)

text \<open>
  \<^verbatim>\<open>NewNet\<close> accepts exactly the rings that meet its requirements: with at least one ring it
  succeeds if and only if every ring has the extended-argument and fast-poll features, and
  otherwise returns an error that is \<^verbatim>\<open>ErrRequirements\<close> for \<^verbatim>\<open>errors.Is\<close>.
\<close>

theorem NewNet_requirements:
  assumes "rings \<noteq> []"
  shows "if \<forall>x\<in>set rings. ExtArgFeature (Params x) \<and> FastPollFeature (Params x)
     then \<exists>r :: ('k Ring_scheme, 'cb, 'l) NetworkReactor. NewNet rings opts = Ok (Inr r)
     else \<exists>e. (NewNet rings opts :: (go_error + ('k Ring_scheme, 'cb, 'l) NetworkReactor) outcome) = Ok (Inl e) \<and>
       errors_is e ErrRequirements"
proof -
  obtain reg :: "'cb cbRegistry" where "newCbRegistry (int (length rings)) fdPerGranule = Ok reg"
    using newCbRegistry_ok [of "int (length rings)" fdPerGranule] assms by (auto simp: fdPerGranule_def)
  with checkRings_cases [of rings] show ?thesis by (auto simp: NewNet_def)
qed

theorem NewNet_requirements_witness:
  "\<exists>r :: (kring, nat, unit) NetworkReactor. NewNet [ex_kring, ex_full] [] = Ok (Inr r)"
  using NewNet_requirements [of "[ex_kring, ex_full]" "[] :: unit cfg_option list"] ex_kring_wf(3,4)
  by (simp add: ex_full_def)

text \<open>
  The network loop retries a refused submission: after \<^verbatim>\<open>EBUSY\<close> or \<^verbatim>\<open>EAGAIN\<close> the next submit
  signal submits again; after any other error it does not and the error is logged; no request
  is lost either way.
\<close>

theorem net_submit_retries:
  assumes "kring_wf (nl_ring l)" and "kernel_conforms k" and "nl_submitAllowed l = 1"
    and "Submit k (nl_ring l) = Ok (c, Some err, r')"
  shows "\<exists>log l'. net_submit k l = Ok (log, l') \<and> nl_ring l' = r' \<and> mset (live r') = mset (live (nl_ring l)) \<and>
     (if errors_is err (Errno 16) \<or> errors_is err (Errno 11)
      then log = None \<and> nl_submitAllowed l' = 1 else log = Some err \<and> nl_submitAllowed l' = 0)"
  using Submit_frame [OF assms(1,2)] assms(3,4)
  by (cases "errors_is err (Errno 16) \<or> errors_is err (Errno 11)") (auto simp: net_submit_def)

theorem net_submit_retries_witness:
  "\<exists>log l'. net_submit ex_busy ((newRingNetEventLoop ex_three)\<lparr>nl_submitAllowed := 1\<rparr>) = Ok (log, l') \<and>
     log = None \<and> nl_submitAllowed l' = 1"
proof -
  let ?l = "(newRingNetEventLoop ex_three)\<lparr>nl_submitAllowed := 1\<rparr>"
  obtain c r' where s: "Submit ex_busy (nl_ring ?l) = Ok (c, Some (SyscallError ''io_uring_enter'' (Errno 16)), r')"
    using ex_busy_submit by (auto simp: newRingNetEventLoop_def)
  have "kring_wf (nl_ring ?l)" using ex_three_wf(1) by (simp add: newRingNetEventLoop_def)
  from net_submit_retries [OF this ex_busy_ok _ s] show ?thesis by auto
qed

end
