(* ===== verification/Reactor_Run.thy ===== *)
theory Reactor_Run
  imports Reactor_Stop Reactor_Net
begin

text \<open>
  \<^verbatim>\<open>Run\<close> of both reactors: it starts the goroutines of all loops, waits for its context, and then stops
  the loops one after the other, in the order of the slice. A state lists the loops, each with
  what \<^verbatim>\<open>Run\<close> is doing to it (the field \<open>ctl\<close>); the loops run side by side. \<^verbatim>\<open>Run\<close> turns to a loop when it is
  done with all loops before it; for the first one this is the end of the context.
\<close>

definition run_init :: "nat \<Rightarrow> stop_state list" where
  "run_init n = replicate n stop_init"

definition turns_to :: "stop_state list \<Rightarrow> nat \<Rightarrow> bool" where
  "turns_to ss i \<longleftrightarrow> list_all (\<lambda>s. ctl s = KDone) (take i ss)"

inductive run_step :: "bool \<Rightarrow> stop_state list \<Rightarrow> stop_state list \<Rightarrow> bool" for two where
  loop: "i < length ss \<Longrightarrow> stop_step two (ss ! i) t \<Longrightarrow> (ctl (ss ! i) = KRun \<Longrightarrow> ctl t \<noteq> KRun \<Longrightarrow> turns_to ss i) \<Longrightarrow>
     run_step two ss (ss[i := t])"

definition run_stopped :: "stop_state list \<Rightarrow> bool" where
  "run_stopped ss \<longleftrightarrow> list_all stopped ss"

text \<open>
  A client's send on the request channel of loop \<open>i\<close> (the end of \<^verbatim>\<open>queue\<close>, after the callback was registered,
  and of \<^verbatim>\<open>cancel\<close> of the network reactor): a send on a closed channel panics; on an open one it waits
  while the channel is full (\<open>None\<close>).
\<close>

definition client_send ::
  "stop_state \<Rightarrow> nat \<Rightarrow> subSqeRequest \<Rightarrow> ('r, 'cb, 'l) NetworkReactor \<Rightarrow> ('r, 'cb, 'l) NetworkReactor option outcome" where
  "client_send s i req r = (if closedReqBuss s then Panic SendOnClosed else Ok (chan_send i req r))"

section \<open>Invariant\<close>

text \<open>Each loop keeps its own invariant, and \<^verbatim>\<open>Run\<close> is busy with one loop at a time.\<close>

definition loops_inv :: "bool \<Rightarrow> stop_state list \<Rightarrow> bool" where
  "loops_inv two ss \<longleftrightarrow> list_all (stop_inv two) ss \<and>
     (\<forall>i j. i < j \<longrightarrow> j < length ss \<longrightarrow> ctl (ss ! j) \<noteq> KRun \<longrightarrow> ctl (ss ! i) = KDone)"

lemma loops_invD: "loops_inv two ss \<Longrightarrow> i < length ss \<Longrightarrow> stop_inv two (ss ! i)"
  by (simp add: loops_inv_def list_all_length)

lemma turns_to_nth: "i < length ss \<Longrightarrow> turns_to ss i \<longleftrightarrow> (\<forall>j<i. ctl (ss ! j) = KDone)"
  by (auto simp: turns_to_def list_all_length)

lemma loops_init_inv: "loops_inv two (run_init n)"
  using stop_inv_init by (auto simp: loops_inv_def run_init_def list_all_length stop_init_def)

text \<open>\<^verbatim>\<open>Run\<close> never goes back, neither within a loop nor among them.\<close>

lemma stop_step_ctl: "stop_step two s t \<Longrightarrow> ctl s = KDone \<Longrightarrow> ctl t = KDone"
  by (auto elim!: stop_stepE simp: panic_if_def)

lemma stop_step_KRun: "stop_step two s t \<Longrightarrow> ctl t = KRun \<Longrightarrow> ctl s = KRun"
  by (auto elim!: stop_stepE simp: panic_if_def)

lemma run_step_inv:
  assumes "run_step two ss ss'" and inv: "loops_inv two ss"
  shows "loops_inv two ss'"
  using assms(1)
proof (cases rule: run_step.cases)
  case (loop m t)
  have "stop_inv two (ss' ! n)" if "n < length ss'" for n
    using that loop loops_invD [OF inv] stop_step_inv [OF loop(3)] by (cases "n = m") auto
  moreover have "ctl (ss' ! i) = KDone" if ij: "i < j" "j < length ss'" "ctl (ss' ! j) \<noteq> KRun" for i j
  proof -
    have "ctl (ss ! i) = KDone"
    proof (cases "j = m \<and> ctl (ss ! m) = KRun")
      case True
      with ij loop turns_to_nth [of m ss] show ?thesis by auto
    next
      case False
      then have "ctl (ss ! j) \<noteq> KRun" using ij loop(1,2) by (cases "j = m") auto
      with ij loop(1) inv show ?thesis by (auto simp: loops_inv_def)
    qed
    with loop stop_step_ctl [OF loop(3)] show ?thesis by (cases "i = m") auto
  qed
  ultimately show ?thesis by (simp add: loops_inv_def list_all_length)
qed

interpretation run_runs: invariant_system "run_step two" "\<lambda>_. True" "loops_inv two" for two
  by unfold_locales (use run_step_inv in blast)+

section \<open>All loops stop\<close>

lemma run_loop:
  assumes "(stop_step two)\<^sup>*\<^sup>* s t" and "i < length ss" and "ss ! i = s" and "ctl s = KRun \<longrightarrow> turns_to ss i"
  shows "(run_step two)\<^sup>*\<^sup>* ss (ss[i := t])"
  using assms(1)
proof (induction rule: rtranclp_induct)
  case base
  then show ?case using assms(3) by auto
next
  case (step t u)
  have "run_step two (ss[i := t]) (ss[i := t, i := u])"
  proof (rule run_step.loop)
    assume "ctl ((ss[i := t]) ! i) = KRun"
    then have "ctl t = KRun" using assms(2) by simp
    with step.hyps(1) have "ctl s = KRun"
      by (induction rule: converse_rtranclp_induct) (auto dest: stop_step_KRun)
    with assms(4) show "turns_to (ss[i := t]) i" by (simp add: turns_to_def)
  qed (use assms(2) step.hyps in auto)
  with step.IH show ?case by (auto intro: rtranclp.rtrancl_into_rtrancl)
qed

text \<open>One loop after the other: those before \<open>m\<close> have ended.\<close>

lemma run_from:
  assumes "loops_inv two ss" and "m \<le> length ss" and "list_all stopped (take m ss)"
    and "m = 0 \<and> ss \<noteq> [] \<longrightarrow> ctl (ss ! 0) \<noteq> KRun"
  shows "\<exists>ts. (run_step two)\<^sup>*\<^sup>* ss ts \<and> run_stopped ts"
  using assms
proof (induction "length ss - m" arbitrary: ss m)
  case 0
  then show ?case by (auto simp: run_stopped_def)
next
  case (Suc n)
  then have m: "m < length ss" by simp
  have before: "turns_to ss m"
    using Suc.prems(3) by (auto simp: turns_to_def list_all_iff stopped_def)
  let ?s = "ss ! m"
  define s1 where "s1 = (if ctl ?s = KRun then ?s\<lparr>ctl := KStopConsumer\<rparr> else ?s)"
  have s1: "(stop_step two)\<^sup>*\<^sup>* ?s s1" "ctl s1 \<noteq> KRun"
    using stop_step.ctx_done [of ?s two] by (auto simp: s1_def)
  have "stop_inv two s1" using s1(1) stop_runs.run_keeps loops_invD [OF Suc.prems(1) m] by blast
  then obtain t where t: "(stop_step two)\<^sup>*\<^sup>* s1 t" "stopped t" using stop_terminates s1(2) by blast
  with s1(1) have "(stop_step two)\<^sup>*\<^sup>* ?s t" by simp
  then have run: "(run_step two)\<^sup>*\<^sup>* ss (ss[m := t])" using run_loop m before by blast
  have "list_all stopped (take (Suc m) (ss[m := t]))"
    using Suc.prems(3) t(2) m by (simp add: take_Suc_conv_app_nth)
  moreover have "loops_inv two (ss[m := t])" using run_runs.run_keeps [OF run] Suc.prems(1) by simp
  moreover have "n = length (ss[m := t]) - Suc m" using Suc.hyps(2) m by simp
  ultimately obtain ts where "(run_step two)\<^sup>*\<^sup>* (ss[m := t]) ts" "run_stopped ts"
    using Suc.hyps(1) [of "ss[m := t]" "Suc m"] m by auto
  with run show ?case by (meson rtranclp_trans)
qed

section \<open>Properties\<close>

lemma run_begun:
  "0 < n \<Longrightarrow> (run_step two)\<^sup>*\<^sup>* (run_init n) ((run_init n)[0 := stop_init\<lparr>ctl := KStopConsumer\<rparr>])"
proof -
  assume "0 < n"
  moreover have "stop_step two stop_init (stop_init\<lparr>ctl := KStopConsumer\<rparr>)"
    by (rule stop_step.ctx_done) (simp add: stop_init_def)
  ultimately show ?thesis by (intro r_into_rtranclp run_step.loop) (auto simp: run_init_def turns_to_def)
qed

text \<open>
  C15. Running and stopping are safe: in every interleaving of the consumers and publishers of all
  loops and of \<^verbatim>\<open>Run\<close>, no goroutine sends on a closed channel or closes a channel twice; the channel
  of the submit signals is closed only after the consumer has ended; and \<^verbatim>\<open>Run\<close> stops one loop at a time.
\<close>

theorem run_no_panic:
  assumes "(run_step two)\<^sup>*\<^sup>* (run_init n) ss" and "i < length ss"
  shows "\<not> paniced (ss ! i) \<and> (closedSubmit (ss ! i) \<longrightarrow> cons (ss ! i) = CDone) \<and>
     (ctl (ss ! i) \<noteq> KRun \<longrightarrow> (\<forall>j<i. ctl (ss ! j) = KDone))"
proof -
  have inv: "loops_inv two ss" using run_runs.run_keeps [OF assms(1)] loops_init_inv by blast
  from loops_invD [OF this assms(2)] have "\<not> paniced (ss ! i) \<and> (closedSubmit (ss ! i) \<longrightarrow> cons (ss ! i) = CDone)"
    by (cases "ctl (ss ! i)") (auto simp: stop_inv_def publisher_open_def)
  with inv assms(2) show ?thesis by (auto simp: loops_inv_def)
qed

theorem run_no_panic_witness:
  "ctl ((run_init 2)[0 := stop_init\<lparr>ctl := KStopConsumer\<rparr>] ! 0) \<noteq> KRun \<and>
     \<not> paniced ((run_init 2)[0 := stop_init\<lparr>ctl := KStopConsumer\<rparr>] ! 0)"
  using run_no_panic [OF run_begun [of 2 True], of 0] by (simp add: run_init_def)

text \<open>
  C16. Stopping ends: once the context of \<^verbatim>\<open>Run\<close> is done, no reachable state is a deadlock; from each of
  them all goroutines of all loops can reach their ends, and every step of a loop that is being
  stopped brings it closer to its end, unless it is the receipt of another client request.
\<close>

theorem run_completes:
  assumes "(run_step two)\<^sup>*\<^sup>* (run_init n) ss" and "ss \<noteq> [] \<Longrightarrow> ctl (ss ! 0) \<noteq> KRun"
  shows "(\<exists>ts. (run_step two)\<^sup>*\<^sup>* ss ts \<and> run_stopped ts) \<and>
     (\<forall>i<length ss. ctl (ss ! i) \<noteq> KRun \<longrightarrow> (\<forall>t. stop_step two (ss ! i) t \<longrightarrow>
        (publ (ss ! i) = PSelect \<and> publ t = PRequest) \<or> stop_dist t < stop_dist (ss ! i)))"
proof -
  have inv: "loops_inv two ss" using run_runs.run_keeps [OF assms(1)] loops_init_inv by blast
  with run_from [OF inv, of 0] stop_step_decreases [OF _ loops_invD [OF inv]] assms(2) show ?thesis by auto
qed

theorem run_completes_witness:
  "\<exists>ts. (run_step True)\<^sup>*\<^sup>* ((run_init 2)[0 := stop_init\<lparr>ctl := KStopConsumer\<rparr>]) ts \<and> run_stopped ts"
  using run_completes [OF run_begun [of 2 True]] by (simp add: run_init_def)

text \<open>
  C35. A stopped network reactor panics in its clients: the publisher of a loop closes the channel of
  requests when it ends, and from then on every operation a client queues on the loop, or cancels,
  panics with a send on a closed channel; before, it does not.
\<close>

theorem stopped_reactor_panics:
  assumes "(run_step True)\<^sup>*\<^sup>* (run_init n) ss" and "s \<in> set ss"
  shows "client_send s i req r = (if publ s = PDone then Panic SendOnClosed else Ok (chan_send i req r)) \<and>
     (run_stopped ss \<longrightarrow> client_send s i req r = Panic SendOnClosed)"
proof -
  have "loops_inv True ss" using run_runs.run_keeps [OF assms(1)] loops_init_inv by blast
  with assms(2) have "stop_inv True s" by (simp add: loops_inv_def list_all_iff)
  then have "closedReqBuss s \<longleftrightarrow> publ s = PDone" by (simp add: stop_inv_def)
  with assms(2) show ?thesis by (auto simp: client_send_def run_stopped_def list_all_iff stopped_def)
qed

theorem stopped_reactor_panics_witness:
  "\<exists>ss. run_stopped ss \<and> length ss = 2 \<and>
     (\<forall>s\<in>set ss. \<forall>i req (r :: (kring, nat, unit) NetworkReactor). client_send s i req r = Panic SendOnClosed)"
proof -
  let ?s = "(run_init 2)[0 := stop_init\<lparr>ctl := KStopConsumer\<rparr>]"
  have inv: "loops_inv True ?s" using run_runs.run_keeps [OF run_begun [of 2 True]] loops_init_inv by simp
  obtain ss where ss: "(run_step True)\<^sup>*\<^sup>* ?s ss" "run_stopped ss"
    using run_from [OF inv, of 0] by (auto simp: run_init_def)
  have "length ss = length ?s"
    using ss(1) by (induction rule: rtranclp_induct) (auto elim: run_step.cases)
  moreover have run: "(run_step True)\<^sup>*\<^sup>* (run_init 2) ss" using run_begun [of 2 True] ss(1) by simp
  moreover have "client_send s i req r = Panic SendOnClosed" if "s \<in> set ss" for s i req and r :: "(kring, nat, unit) NetworkReactor"
    using stopped_reactor_panics [OF run that] ss(2) by blast
  ultimately show ?thesis using ss(2) by (intro exI [of _ ss]) (simp add: run_init_def)
qed

end
