(* ===== verification/Reactor_Lock.thy ===== *)
theory Reactor_Lock
  imports Uring_Prelude
begin

text \<open>
  The two locks of an event loop of \<^verbatim>\<open>src/reactor/reactor.go\<close>. \<^verbatim>\<open>Queue\<close> takes \<^verbatim>\<open>queueSQELock\<close> and, when
  the entry fitted, \<^verbatim>\<open>callbacksLock\<close> inside it; the publisher takes \<^verbatim>\<open>queueSQELock\<close> to submit; the
  consumer takes \<^verbatim>\<open>callbacksLock\<close> and runs the callback of an event before it gives it back. A
  callback is client code and may itself call \<^verbatim>\<open>Queue\<close>; the parameter \<open>reenters\<close> says whether callbacks
  queue on the loop that runs them.

  A goroutine that waits for a lock has no step before the lock is free.
\<close>

section \<open>Goroutines and locks\<close>

datatype owner = Consumer | Publisher | Client nat

text \<open>The consumer between two events, in a callback, and in a \<^verbatim>\<open>Queue\<close> that the callback calls.\<close>

datatype cb_pc = BetweenEvents | InCallback | CbAtSqe | CbQueueing | CbAtCbs

datatype submit_pc = NotSubmitting | SubmitAtSqe | Submitting

datatype queue_pc = Outside | AtSqe | Queueing | AtCbs | Inserting

record lock_state =
  lk_consumer :: cb_pc
  lk_publisher :: submit_pc
  lk_clients :: "queue_pc list"
  callbacksLock :: "owner option"
  queueSQELock :: "owner option"

definition lock_init :: "nat \<Rightarrow> lock_state" where
  "lock_init n = \<lparr>lk_consumer = BetweenEvents, lk_publisher = NotSubmitting, lk_clients = replicate n Outside,
     callbacksLock = None, queueSQELock = None\<rparr>"

definition client_at :: "nat \<Rightarrow> queue_pc \<Rightarrow> lock_state \<Rightarrow> bool" where
  "client_at i pc s \<longleftrightarrow> i < length (lk_clients s) \<and> lk_clients s ! i = pc"

definition client_to :: "nat \<Rightarrow> queue_pc \<Rightarrow> lock_state \<Rightarrow> lock_state" where
  "client_to i pc s = s\<lparr>lk_clients := (lk_clients s)[i := pc]\<rparr>"

section \<open>Steps\<close>

text \<open>\<open>queue_enter\<close>, \<open>callback_queues\<close> and \<open>submit_enter\<close> begin something; every other step finishes something.\<close>

inductive lock_step :: "bool \<Rightarrow> lock_state \<Rightarrow> lock_state \<Rightarrow> bool" for reenters where
  dispatch: "lk_consumer s = BetweenEvents \<Longrightarrow> callbacksLock s = None \<Longrightarrow>
     lock_step reenters s (s\<lparr>lk_consumer := InCallback, callbacksLock := Some Consumer\<rparr>)"
| callback_returns: "lk_consumer s = InCallback \<Longrightarrow>
     lock_step reenters s (s\<lparr>lk_consumer := BetweenEvents, callbacksLock := None\<rparr>)"
| callback_queues: "reenters \<Longrightarrow> lk_consumer s = InCallback \<Longrightarrow> lock_step reenters s (s\<lparr>lk_consumer := CbAtSqe\<rparr>)"
| callback_sqe: "lk_consumer s = CbAtSqe \<Longrightarrow> queueSQELock s = None \<Longrightarrow>
     lock_step reenters s (s\<lparr>lk_consumer := CbQueueing, queueSQELock := Some Consumer\<rparr>)"
| callback_overflow: "lk_consumer s = CbQueueing \<Longrightarrow>
     lock_step reenters s (s\<lparr>lk_consumer := InCallback, queueSQELock := None\<rparr>)"
| callback_queued: "lk_consumer s = CbQueueing \<Longrightarrow> lock_step reenters s (s\<lparr>lk_consumer := CbAtCbs\<rparr>)"
| callback_inserts: "lk_consumer s = CbAtCbs \<Longrightarrow> callbacksLock s = None \<Longrightarrow>
     lock_step reenters s (s\<lparr>lk_consumer := InCallback, queueSQELock := None\<rparr>)"
| queue_enter: "client_at i Outside s \<Longrightarrow> lock_step reenters s (client_to i AtSqe s)"
| queue_sqe: "client_at i AtSqe s \<Longrightarrow> queueSQELock s = None \<Longrightarrow>
     lock_step reenters s (client_to i Queueing s\<lparr>queueSQELock := Some (Client i)\<rparr>)"
| queue_overflow: "client_at i Queueing s \<Longrightarrow>
     lock_step reenters s (client_to i Outside s\<lparr>queueSQELock := None\<rparr>)"
| queue_queued: "client_at i Queueing s \<Longrightarrow> lock_step reenters s (client_to i AtCbs s)"
| queue_cbs: "client_at i AtCbs s \<Longrightarrow> callbacksLock s = None \<Longrightarrow>
     lock_step reenters s (client_to i Inserting s\<lparr>callbacksLock := Some (Client i)\<rparr>)"
| queue_done: "client_at i Inserting s \<Longrightarrow>
     lock_step reenters s (client_to i Outside s\<lparr>callbacksLock := None, queueSQELock := None\<rparr>)"
| submit_enter: "lk_publisher s = NotSubmitting \<Longrightarrow> lock_step reenters s (s\<lparr>lk_publisher := SubmitAtSqe\<rparr>)"
| submit_sqe: "lk_publisher s = SubmitAtSqe \<Longrightarrow> queueSQELock s = None \<Longrightarrow>
     lock_step reenters s (s\<lparr>lk_publisher := Submitting, queueSQELock := Some Publisher\<rparr>)"
| submit_done: "lk_publisher s = Submitting \<Longrightarrow>
     lock_step reenters s (s\<lparr>lk_publisher := NotSubmitting, queueSQELock := None\<rparr>)"

section \<open>Who holds what\<close>

fun cb_holds_sqe :: "cb_pc \<Rightarrow> bool" where
  "cb_holds_sqe CbQueueing = True" | "cb_holds_sqe CbAtCbs = True" | "cb_holds_sqe _ = False"

fun holds_sqe :: "queue_pc \<Rightarrow> bool" where
  "holds_sqe Outside = False" | "holds_sqe AtSqe = False" | "holds_sqe _ = True"

definition client_pc :: "lock_state \<Rightarrow> nat \<Rightarrow> queue_pc" where
  "client_pc s i = (if i < length (lk_clients s) then lk_clients s ! i else Outside)"

fun holds_callbacks :: "lock_state \<Rightarrow> owner \<Rightarrow> bool" where
  "holds_callbacks s Consumer = (lk_consumer s \<noteq> BetweenEvents)"
| "holds_callbacks s Publisher = False"
| "holds_callbacks s (Client i) = (client_pc s i = Inserting)"

fun holds_queue :: "lock_state \<Rightarrow> owner \<Rightarrow> bool" where
  "holds_queue s Consumer = cb_holds_sqe (lk_consumer s)"
| "holds_queue s Publisher = (lk_publisher s = Submitting)"
| "holds_queue s (Client i) = holds_sqe (client_pc s i)"

text \<open>A lock and the goroutines that are at a point where they hold it.\<close>

definition owns :: "owner option \<Rightarrow> (owner \<Rightarrow> bool) \<Rightarrow> bool" where
  "owns lock holds \<longleftrightarrow> (\<forall>g. lock = Some g \<longleftrightarrow> holds g)"

definition lock_inv :: "bool \<Rightarrow> lock_state \<Rightarrow> bool" where
  "lock_inv reenters s \<longleftrightarrow> owns (callbacksLock s) (holds_callbacks s) \<and> owns (queueSQELock s) (holds_queue s) \<and>
     (reenters \<or> lk_consumer s \<in> {BetweenEvents, InCallback})"

lemma all_owners: "(\<forall>g. P g) \<longleftrightarrow> P Consumer \<and> P Publisher \<and> (\<forall>i. P (Client i))"
  by (metis owner.exhaust)

lemma owns_same:
  assumes "owns l h" and "h' Consumer = h Consumer" and "h' Publisher = h Publisher" and "\<And>i. h' (Client i) = h (Client i)"
  shows "owns l h'"
  using assms by (simp add: owns_def all_owners)

lemma owns_take:
  assumes "owns l h" and "l = None" and "h' Consumer \<longleftrightarrow> Consumer = me \<or> h Consumer"
    and "h' Publisher \<longleftrightarrow> Publisher = me \<or> h Publisher" and "\<And>i. h' (Client i) \<longleftrightarrow> Client i = me \<or> h (Client i)"
  shows "owns (Some me) h'"
  using assms unfolding owns_def all_owners by auto

lemma owns_give:
  assumes "owns l h" and "h me" and "h' Consumer \<longleftrightarrow> Consumer \<noteq> me \<and> h Consumer"
    and "h' Publisher \<longleftrightarrow> Publisher \<noteq> me \<and> h Publisher" and "\<And>i. h' (Client i) \<longleftrightarrow> Client i \<noteq> me \<and> h (Client i)"
  shows "owns None h'"
proof -
  have "h g \<longleftrightarrow> g = me" for g using assms(1,2) unfolding owns_def by (metis option.inject)
  with assms(3-5) show ?thesis by (simp add: owns_def all_owners)
qed

lemma client_pc_to: "client_at i q s \<Longrightarrow> client_pc (client_to i pc s) j = (if j = i then pc else client_pc s j)"
  by (auto simp: client_at_def client_to_def client_pc_def)

lemma client_at_pc: "client_at i pc s \<Longrightarrow> client_pc s i = pc"
  by (simp add: client_at_def client_pc_def)

lemma client_to_fields [simp]:
  "lk_consumer (client_to i pc s) = lk_consumer s" "lk_publisher (client_to i pc s) = lk_publisher s"
  "callbacksLock (client_to i pc s) = callbacksLock s" "queueSQELock (client_to i pc s) = queueSQELock s"
  by (simp_all add: client_to_def)

lemma client_pc_fields [simp]:
  "client_pc (s\<lparr>lk_consumer := c\<rparr>) = client_pc s" "client_pc (s\<lparr>lk_publisher := p\<rparr>) = client_pc s"
  "client_pc (s\<lparr>callbacksLock := l\<rparr>) = client_pc s" "client_pc (s\<lparr>queueSQELock := l\<rparr>) = client_pc s"
  by (simp_all add: client_pc_def fun_eq_iff)

lemma lock_init_inv: "lock_inv reenters (lock_init n)"
  by (simp add: lock_inv_def owns_def all_owners) (simp add: lock_init_def client_pc_def)

lemma lock_step_callbacks:
  assumes "lock_step reenters s s'" and c: "owns (callbacksLock s) (holds_callbacks s)"
  shows "owns (callbacksLock s') (holds_callbacks s')"
  using assms(1)
proof (cases rule: lock_step.cases)
  case dispatch
  then show ?thesis by (auto intro!: owns_take [OF c])
next
  case callback_returns
  then show ?thesis by (auto intro!: owns_give [OF c, of Consumer])
next
  case callback_inserts
  with c show ?thesis by (auto simp: owns_def all_owners)
next
  case (queue_cbs i)
  then show ?thesis by (auto simp: client_pc_to client_at_pc split: if_splits intro!: owns_take [OF c])
next
  case (queue_done i)
  then show ?thesis by (auto simp: client_pc_to client_at_pc split: if_splits intro!: owns_give [OF c, of "Client i"])
qed (auto simp: client_pc_to client_at_pc split: if_splits intro!: owns_same [OF c])

lemma lock_step_queue:
  assumes "lock_step reenters s s'" and q: "owns (queueSQELock s) (holds_queue s)"
  shows "owns (queueSQELock s') (holds_queue s')"
  using assms(1)
proof (cases rule: lock_step.cases)
  case callback_sqe
  then show ?thesis by (auto intro!: owns_take [OF q])
next
  case callback_overflow
  then show ?thesis by (auto intro!: owns_give [OF q, of Consumer])
next
  case callback_inserts
  then show ?thesis by (auto intro!: owns_give [OF q, of Consumer])
next
  case (queue_sqe i)
  then show ?thesis by (auto simp: client_pc_to client_at_pc split: if_splits intro!: owns_take [OF q])
next
  case (queue_overflow i)
  then show ?thesis by (auto simp: client_pc_to client_at_pc split: if_splits intro!: owns_give [OF q, of "Client i"])
next
  case (queue_done i)
  then show ?thesis by (auto simp: client_pc_to client_at_pc split: if_splits intro!: owns_give [OF q, of "Client i"])
next
  case submit_sqe
  then show ?thesis by (auto intro!: owns_take [OF q])
next
  case submit_done
  then show ?thesis by (auto intro!: owns_give [OF q, of Publisher])
qed (auto simp: client_pc_to client_at_pc split: if_splits intro!: owns_same [OF q])

lemma lock_step_inv:
  assumes "lock_step reenters s s'" and inv: "lock_inv reenters s"
  shows "lock_inv reenters s'"
proof -
  have "reenters \<or> lk_consumer s' \<in> {BetweenEvents, InCallback}"
    using assms by (cases rule: lock_step.cases) (auto simp: lock_inv_def)
  with lock_step_callbacks [OF assms(1)] lock_step_queue [OF assms(1)] inv show ?thesis by (simp add: lock_inv_def)
qed

interpretation lock_runs: invariant_system "lock_step reenters" "\<lambda>_. True" "lock_inv reenters" for reenters
  by unfold_locales (use lock_step_inv in blast)+

lemma lock_invD:
  assumes "lock_inv reenters s"
  shows "callbacksLock s = Some g \<longleftrightarrow> holds_callbacks s g" and "queueSQELock s = Some g \<longleftrightarrow> holds_queue s g"
    and "reenters \<or> lk_consumer s \<in> {BetweenEvents, InCallback}"
  using assms by (auto simp: lock_inv_def owns_def)

section \<open>Without re-entrance everybody gets through\<close>

fun queue_dist :: "queue_pc \<Rightarrow> nat" where
  "queue_dist Outside = 0" | "queue_dist Inserting = 1" | "queue_dist AtCbs = 2" | "queue_dist Queueing = 3"
| "queue_dist AtSqe = 4"

fun submit_dist :: "submit_pc \<Rightarrow> nat" where
  "submit_dist NotSubmitting = 0" | "submit_dist Submitting = 1" | "submit_dist SubmitAtSqe = 2"

definition lock_dist :: "lock_state \<Rightarrow> nat" where
  "lock_dist s = of_bool (lk_consumer s \<noteq> BetweenEvents) + submit_dist (lk_publisher s) + sum_list (map queue_dist (lk_clients s))"

definition quiet :: "lock_state \<Rightarrow> bool" where
  "quiet s \<longleftrightarrow> lk_consumer s = BetweenEvents \<and> lk_publisher s = NotSubmitting \<and> list_all (\<lambda>pc. pc = Outside) (lk_clients s) \<and>
     callbacksLock s = None \<and> queueSQELock s = None"

lemma lock_dist_client:
  assumes "client_at i q s" and "queue_dist pc < queue_dist q"
  shows "lock_dist (client_to i pc s) < lock_dist s"
proof -
  have i: "i < length (lk_clients s)" "lk_clients s ! i = q" using assms(1) by (simp_all add: client_at_def)
  then have "sum_list (map queue_dist ((lk_clients s)[i := pc])) + queue_dist q = sum_list (map queue_dist (lk_clients s)) + queue_dist pc"
    using member_le_sum_list [of "queue_dist q" "map queue_dist (lk_clients s)"] nth_mem [of i "lk_clients s"]
    by (auto simp: map_update sum_list_update)
  with assms(2) show ?thesis by (simp add: lock_dist_def client_to_def)
qed

lemma lock_dist_locks [simp]:
  "lock_dist (s\<lparr>callbacksLock := l\<rparr>) = lock_dist s" "lock_dist (s\<lparr>queueSQELock := l\<rparr>) = lock_dist s"
  by (simp_all add: lock_dist_def)

lemma client_step:
  assumes "client_at i q s" and "q \<noteq> Outside" and "q = AtSqe \<Longrightarrow> queueSQELock s = None" and "q = AtCbs \<Longrightarrow> callbacksLock s = None"
  shows "\<exists>s'. lock_step reenters s s' \<and> lock_dist s' < lock_dist s"
proof (cases q)
  case AtSqe
  have "lock_step reenters s (client_to i Queueing s\<lparr>queueSQELock := Some (Client i)\<rparr>)"
    using assms AtSqe by (intro lock_step.queue_sqe) auto
  moreover have "lock_dist (client_to i Queueing s\<lparr>queueSQELock := Some (Client i)\<rparr>) < lock_dist s" using lock_dist_client [OF assms(1), of Queueing] AtSqe by simp
  ultimately show ?thesis by blast
next
  case Queueing
  have "lock_step reenters s (client_to i AtCbs s)" using assms Queueing by (intro lock_step.queue_queued) auto
  moreover have "lock_dist (client_to i AtCbs s) < lock_dist s" using lock_dist_client [OF assms(1), of AtCbs] Queueing by simp
  ultimately show ?thesis by blast
next
  case AtCbs
  have "lock_step reenters s (client_to i Inserting s\<lparr>callbacksLock := Some (Client i)\<rparr>)"
    using assms AtCbs by (intro lock_step.queue_cbs) auto
  moreover have "lock_dist (client_to i Inserting s\<lparr>callbacksLock := Some (Client i)\<rparr>) < lock_dist s" using lock_dist_client [OF assms(1), of Inserting] AtCbs by simp
  ultimately show ?thesis by blast
next
  case Inserting
  have "lock_step reenters s (client_to i Outside s\<lparr>callbacksLock := None, queueSQELock := None\<rparr>)"
    using assms Inserting by (intro lock_step.queue_done) auto
  moreover have "lock_dist (client_to i Outside s\<lparr>callbacksLock := None, queueSQELock := None\<rparr>) < lock_dist s" using lock_dist_client [OF assms(1), of Outside] Inserting by simp
  ultimately show ?thesis by blast
qed (use assms(2) in simp)

lemma holds_at: "holds_sqe (client_pc s i) \<Longrightarrow> client_at i (client_pc s i) s"
  by (simp add: client_at_def client_pc_def split: if_splits)

text \<open>When nobody holds the lock of the queue and no callback runs, both locks are free.\<close>

lemma locks_free:
  assumes inv: "lock_inv False s" and "lk_consumer s = BetweenEvents" and "lk_publisher s \<noteq> Submitting"
    and clients: "\<forall>i. \<not> holds_sqe (client_pc s i)"
  shows "queueSQELock s = None" and "callbacksLock s = None"
proof -
  show "queueSQELock s = None"
  proof (cases "queueSQELock s")
    case (Some g)
    with lock_invD(2) [OF inv, of g] assms show ?thesis by (cases g) auto
  qed
  show "callbacksLock s = None"
  proof (cases "callbacksLock s")
    case (Some g)
    have "client_pc s j \<noteq> Inserting" for j using clients holds_sqe.simps(5) by metis
    with Some lock_invD(1) [OF inv, of g] assms show ?thesis by (cases g) auto
  qed
qed

lemma waiting_clients:
  assumes "\<not> quiet s" and "lk_consumer s = BetweenEvents" and "lk_publisher s = NotSubmitting"
    and "queueSQELock s = None" and "callbacksLock s = None" and clients: "\<forall>i. \<not> holds_sqe (client_pc s i)"
  shows "\<exists>i. client_at i AtSqe s"
proof -
  obtain i where i: "i < length (lk_clients s)" "lk_clients s ! i \<noteq> Outside"
    using assms by (auto simp: quiet_def list_all_length)
  moreover have "\<not> holds_sqe (lk_clients s ! i)" using clients i(1) by (metis client_pc_def)
  ultimately show ?thesis by (cases "lk_clients s ! i") (auto simp: client_at_def)
qed

lemma lock_progress:
  assumes inv: "lock_inv False s" and "\<not> quiet s"
  shows "\<exists>s'. lock_step False s s' \<and> lock_dist s' < lock_dist s"
proof -
  note cbs = lock_invD(1) [OF inv] and sqe = lock_invD(2) [OF inv]
  consider (callback) "lk_consumer s = InCallback" | (submit) "lk_publisher s = Submitting"
    | (client) i where "client_at i (client_pc s i) s" "holds_sqe (client_pc s i)" "lk_consumer s = BetweenEvents"
    | (free) "lk_consumer s = BetweenEvents" "lk_publisher s \<noteq> Submitting" "\<forall>i. \<not> holds_sqe (client_pc s i)"
    using lock_invD(3) [OF inv] holds_at by blast
  then show ?thesis
  proof cases
    case callback
    then show ?thesis by (rule_tac exI, rule_tac conjI [OF lock_step.callback_returns]) (simp_all add: lock_dist_def)
  next
    case submit
    then show ?thesis by (rule_tac exI, rule_tac conjI [OF lock_step.submit_done]) (simp_all add: lock_dist_def)
  next
    case (client i)
    have "callbacksLock s = None" if at: "client_pc s i = AtCbs"
    proof (cases "callbacksLock s")
      case (Some g)
      have "queueSQELock s = Some (Client i)" using sqe [of "Client i"] at by simp
      then have "client_pc s j \<noteq> Inserting" for j using sqe [of "Client j"] at by auto
      with Some cbs [of g] client(3) show ?thesis by (cases g) auto
    qed
    with client_step [OF client(1)] client(2) show ?thesis by fastforce
  next
    case free
    note l = locks_free [OF inv free]
    show ?thesis
    proof (cases "lk_publisher s = SubmitAtSqe")
      case True
      then show ?thesis using l by (rule_tac exI, rule_tac conjI [OF lock_step.submit_sqe]) (simp_all add: lock_dist_def)
    next
      case False
      with free(2) have "lk_publisher s = NotSubmitting" by (cases "lk_publisher s") auto
      then show ?thesis using waiting_clients [OF assms(2) free(1) _ l free(3)] client_step l(1) by blast
    qed
  qed
qed

lemma lock_quiesces:
  assumes "lock_inv False s"
  shows "\<exists>s'. (lock_step False)\<^sup>*\<^sup>* s s' \<and> quiet s'"
  using assms
proof (induction "lock_dist s" arbitrary: s rule: less_induct)
  case less
  show ?case
  proof (cases "quiet s")
    case False
    then obtain t where "lock_step False s t" "lock_dist t < lock_dist s" using lock_progress less.prems by blast
    with less lock_step_inv show ?thesis by (meson converse_rtranclp_into_rtranclp)
  qed blast
qed

section \<open>With re-entrance the loop can jam\<close>

text \<open>
  Either the callback holds both locks and waits for the one it holds already, or it waits for the
  lock of a client that waits for the consumer.
\<close>

definition jammed :: "lock_state \<Rightarrow> bool" where
  "jammed s \<longleftrightarrow> lk_consumer s = CbAtCbs \<or> lk_consumer s = CbAtSqe \<and> (\<exists>i. client_at i AtCbs s)"

definition jam :: "lock_state \<Rightarrow> lock_state \<Rightarrow> bool" where
  "jam s\<^sub>0 s \<longleftrightarrow> lock_inv True s \<and> jammed s \<and> lk_consumer s = lk_consumer s\<^sub>0 \<and> queueSQELock s = queueSQELock s\<^sub>0 \<and>
     (\<forall>i. client_at i AtSqe s\<^sub>0 \<longrightarrow> client_at i AtSqe s) \<and>
     (\<forall>i. client_at i AtCbs s\<^sub>0 \<longrightarrow> client_at i AtCbs s)"

lemma jammed_locks:
  assumes "lock_inv True s" and "jammed s"
  shows "callbacksLock s = Some Consumer" and "queueSQELock s \<noteq> None"
    and "\<not> client_at i Queueing s" and "\<not> client_at i Inserting s" and "lk_publisher s \<noteq> Submitting"
proof -
  note cbs = lock_invD(1) [OF assms(1)] and sqe = lock_invD(2) [OF assms(1)]
  show c: "callbacksLock s = Some Consumer" using cbs [of Consumer] assms(2) by (auto simp: jammed_def)
  obtain g where g: "queueSQELock s = Some g" "g = Consumer \<or> (\<exists>j. g = Client j \<and> client_at j AtCbs s)"
    using sqe [of Consumer] sqe [of "Client i" for i] assms(2) client_at_pc by (fastforce simp: jammed_def)
  then show "queueSQELock s \<noteq> None" by simp
  show "\<not> client_at i Inserting s" using cbs [of "Client i"] c by (auto dest: client_at_pc)
  show "\<not> client_at i Queueing s"
  proof
    assume "client_at i Queueing s"
    with sqe [of "Client i"] have "queueSQELock s = Some (Client i)" by (auto dest: client_at_pc)
    with g \<open>client_at i Queueing s\<close> show False by (auto simp: client_at_def)
  qed
  show "lk_publisher s \<noteq> Submitting" using sqe [of Publisher] g by auto
qed

text \<open>All that still happens is that others come and wait.\<close>

lemma jammed_step:
  assumes "lock_step True s s'" and "lock_inv True s" and "jammed s"
  shows "(\<exists>i. client_at i Outside s \<and> s' = client_to i AtSqe s) \<or> s' = s\<lparr>lk_publisher := SubmitAtSqe\<rparr>"
proof -
  note l = jammed_locks [OF assms(2,3)]
  have "lk_consumer s \<in> {CbAtSqe, CbAtCbs}" using assms(3) by (auto simp: jammed_def)
  with assms(1) l show ?thesis by (cases rule: lock_step.cases) auto
qed

lemma client_at_to:
  "client_at i q s \<Longrightarrow> client_at j pc (client_to i pc' s) \<longleftrightarrow> (if j = i then pc = pc' else client_at j pc s)"
  by (auto simp: client_at_def client_to_def)

lemma jam_step:
  assumes "lock_step True s s'" and "jam s\<^sub>0 s"
  shows "jam s\<^sub>0 s'"
proof -
  have inv: "lock_inv True s" "jammed s" using assms(2) by (simp_all add: jam_def)
  have inv': "lock_inv True s'" using lock_step_inv assms(1) inv(1) by blast
  consider i where "client_at i Outside s" "s' = client_to i AtSqe s" | "s' = s\<lparr>lk_publisher := SubmitAtSqe\<rparr>"
    using jammed_step [OF assms(1) inv] by blast
  then show ?thesis
  proof cases
    case 1
    have stay: "client_at j pc s' = client_at j pc s" if "pc \<notin> {Outside, AtSqe}" for j pc
      using 1 that client_at_to [OF 1(1)] by (auto simp: client_at_def)
    then have "jammed s'" using inv(2) 1(2) by (simp add: jammed_def)
    moreover have "client_at j AtSqe s' \<longleftrightarrow> j = i \<or> client_at j AtSqe s" for j using 1 client_at_to [OF 1(1)] by simp
    ultimately show ?thesis using assms(2) inv' 1(2) stay [of AtCbs] by (simp add: jam_def)
  next
    case 2
    then have "client_at j pc s' = client_at j pc s" for j pc by (simp add: client_at_def)
    moreover from this have "jammed s'" using inv(2) 2 by (simp add: jammed_def)
    ultimately show ?thesis using 2 inv' assms(2) by (simp add: jam_def)
  qed
qed

interpretation jam_runs: invariant_system "lock_step True" "\<lambda>_. True" "jam s\<^sub>0" for s\<^sub>0
  by unfold_locales (use jam_step in blast)+

section \<open>Properties\<close>

text \<open>
  C14. Each lock of a loop has at most one holder and the two do not deadlock, as long as no callback queues on
  the loop that runs it: for each lock, at most one goroutine is at a point where it holds it, and from every reachable state all
  calls of \<^verbatim>\<open>Queue\<close>, the publisher and the callback can get through and leave both locks free.
\<close>

theorem locks_without_reentry:
  assumes "(lock_step False)\<^sup>*\<^sup>* (lock_init n) s"
  shows "(holds_callbacks s g \<longrightarrow> holds_callbacks s h \<longrightarrow> g = h) \<and> (holds_queue s g \<longrightarrow> holds_queue s h \<longrightarrow> g = h) \<and>
     (\<exists>s'. (lock_step False)\<^sup>*\<^sup>* s s' \<and> quiet s')"
proof -
  have inv: "lock_inv False s" using lock_runs.run_keeps [OF assms] lock_init_inv by blast
  with lock_quiesces lock_invD(1,2) [OF inv, of g] lock_invD(1,2) [OF inv, of h] show ?thesis by auto
qed

theorem locks_without_reentry_witness:
  "\<exists>s'. (lock_step False)\<^sup>*\<^sup>* ((lock_init 1)\<lparr>lk_consumer := InCallback, callbacksLock := Some Consumer\<rparr>) s' \<and> quiet s'"
proof -
  have "lock_step False (lock_init 1) ((lock_init 1)\<lparr>lk_consumer := InCallback, callbacksLock := Some Consumer\<rparr>)"
    by (rule lock_step.dispatch) (simp_all add: lock_init_def)
  then have "(lock_step False)\<^sup>*\<^sup>* (lock_init 1) ((lock_init 1)\<lparr>lk_consumer := InCallback, callbacksLock := Some Consumer\<rparr>)" by blast
  from locks_without_reentry [OF this] show ?thesis by blast
qed

text \<open>
  C13. A callback that queues on its own loop jams it. Once it has taken the lock of the submission queue
  and the entry fitted, or waits for that lock while a client that holds it waits to insert its own
  callback, the loop is dead for ever: the callback does not return, the consumer holds the lock of the
  callbacks, no waiting client ever gets its turn and the publisher never submits again.
\<close>

theorem callback_reentry_jams:
  assumes "(lock_step True)\<^sup>*\<^sup>* (lock_init n) s"
    and "lk_consumer s = CbAtCbs \<or> lk_consumer s = CbAtSqe \<and> (\<exists>i. client_at i AtCbs s)"
    and "(lock_step True)\<^sup>*\<^sup>* s s'"
  shows "lk_consumer s' = lk_consumer s \<and> callbacksLock s' = Some Consumer \<and> queueSQELock s' = queueSQELock s \<and>
     queueSQELock s' \<noteq> None \<and> lk_publisher s' \<noteq> Submitting \<and>
     (\<forall>i. client_at i AtSqe s \<longrightarrow> client_at i AtSqe s') \<and> (\<forall>i. client_at i AtCbs s \<longrightarrow> client_at i AtCbs s')"
proof -
  have inv: "lock_inv True s" "jammed s"
    using lock_runs.run_keeps [OF assms(1)] lock_init_inv assms(2) by (auto simp: jammed_def)
  then have "jam s s" by (simp add: jam_def)
  with jam_runs.run_keeps [OF assms(3)] have jam: "jam s s'" by blast
  then have "lock_inv True s'" "jammed s'" by (simp_all add: jam_def)
  note l = jammed_locks [OF this]
  show ?thesis using jam l(1,2,5) unfolding jam_def by blast
qed

text \<open>A single callback is enough, with no other goroutine about.\<close>

theorem callback_reentry_jams_witness:
  "\<exists>s. (lock_step True)\<^sup>*\<^sup>* (lock_init 1) s \<and> (\<forall>s'. (lock_step True)\<^sup>*\<^sup>* s s' \<longrightarrow> lk_consumer s' = CbAtCbs)"
proof -
  let ?a = "(lock_init 1)\<lparr>lk_consumer := InCallback, callbacksLock := Some Consumer\<rparr>"
  let ?b = "?a\<lparr>lk_consumer := CbAtSqe\<rparr>" let ?c = "?b\<lparr>lk_consumer := CbQueueing, queueSQELock := Some Consumer\<rparr>"
  let ?d = "?c\<lparr>lk_consumer := CbAtCbs\<rparr>"
  have "lock_step True (lock_init 1) ?a" by (rule lock_step.dispatch) (simp_all add: lock_init_def)
  moreover have "lock_step True ?a ?b" by (rule lock_step.callback_queues) simp_all
  moreover have "lock_step True ?b ?c" by (rule lock_step.callback_sqe) (simp_all add: lock_init_def)
  moreover have "lock_step True ?c ?d" by (rule lock_step.callback_queued) simp
  ultimately have run: "(lock_step True)\<^sup>*\<^sup>* (lock_init 1) ?d" by (meson converse_rtranclp_into_rtranclp r_into_rtranclp)
  from callback_reentry_jams [OF run] have "lk_consumer s' = CbAtCbs" if "(lock_step True)\<^sup>*\<^sup>* ?d s'" for s' using that by simp
  with run show ?thesis by blast
qed

end
