(* ===== verification/Net_Conn.thy ===== *)
theory Net_Conn
  imports Reactor_Net Uring_Setup
begin

text \<open>
  Connections: \<^verbatim>\<open>src/net/netconn.go\<close>. A \<^verbatim>\<open>Conn\<close> reads and writes a socket through the network
  reactor: it queues a receive or send with a callback that forwards the completion to a
  channel of the connection, and waits on that channel.

  A blocking method is cut at the points where it waits. \<^verbatim>\<open>Read\<close> takes the lock and registers
  its request (\<open>Conn_Read_begin\<close>), sends it to the loop, stores the identifier \<^verbatim>\<open>QueueWithDeadline\<close>
  returns (\<open>Conn_Read_id\<close>) and waits; \<open>Conn_Read_end\<close> is the rest, from the event received to the
  result and the release of the lock. The lock field says where its holder is. A channel field
  holds the events that callbacks offer on the channel.
\<close>

section \<open>Callbacks and calls\<close>

text \<open>The closures the package queues: those of \<^verbatim>\<open>Read\<close> and \<^verbatim>\<open>Write\<close> of a connection, that of \<^verbatim>\<open>Accept\<close>.\<close>

datatype conn_cb = ReadCb nat | WriteCb nat | AcceptCb

datatype call_pc =
    Unlocked
  | Sending u64 nat subSqeRequest
  | Sent u64
  | Waiting u64

section \<open>The connection\<close>

text \<open>A zero \<^verbatim>\<open>time.Time\<close> is \<open>None\<close>; an address that could not be decoded is nil.\<close>

record 'a Conn =
  c_fd :: int
  c_lAddr :: 'a
  c_rAddr :: "'a option"
  c_readChan :: "CQEvent list"
  c_writeChan :: "CQEvent list"
  c_readDeadline :: "int option"
  c_writeDeadline :: "int option"
  c_lastReadOpID :: u64
  c_lastWriteOpID :: u64
  c_readOp :: Operation
  c_sendOp :: Operation
  c_readLock :: call_pc
  c_writeLock :: call_pc

definition newConn :: "int \<Rightarrow> 'a \<Rightarrow> 'a option \<Rightarrow> 'a Conn" where
  "newConn fd lAddr rAddr =
     \<lparr>c_fd = fd, c_lAddr = lAddr, c_rAddr = rAddr, c_readChan = [], c_writeChan = [],
      c_readDeadline = None, c_writeDeadline = None, c_lastReadOpID = 0, c_lastWriteOpID = 0,
      c_readOp = Recv (of_int fd) nil_slice 0, c_sendOp = Send (of_int fd) nil_slice 0,
      c_readLock = Unlocked, c_writeLock = Unlocked\<rparr>"

section \<open>Read and Write\<close>

text \<open>
  The timeout \<^verbatim>\<open>QueueWithDeadline\<close> computes, and the first half of that call; the second half is
  the send on the channel of the loop.
\<close>

definition deadline_timeout :: "int \<Rightarrow> int option \<Rightarrow> int" where
  "deadline_timeout now deadline = (case deadline of None \<Rightarrow> 0 | Some t \<Rightarrow> t - now)"

definition queue_begin ::
  "Operation \<Rightarrow> conn_cb \<Rightarrow> int \<Rightarrow> ('r, conn_cb, 'l) NetworkReactor \<Rightarrow>
   (u64 \<times> nat \<times> subSqeRequest \<times> ('r, conn_cb, 'l) NetworkReactor) outcome" where
  "queue_begin op cb timeout r =
     (case op_Fd op of None \<Rightarrow> Panic NilDeref | Some fd \<Rightarrow> net_register op fd (Some cb) timeout r)"

definition Conn_Read_begin ::
  "nat \<Rightarrow> int \<Rightarrow> slice \<Rightarrow> 'a Conn \<Rightarrow> ('r, conn_cb, 'l) NetworkReactor \<Rightarrow>
   ('a Conn \<times> u64 \<times> nat \<times> subSqeRequest \<times> ('r, conn_cb, 'l) NetworkReactor) outcome" where
  "Conn_Read_begin self now b c r =
     (let op = SetBuffer (c_readOp c) b
      in obind (queue_begin op (ReadCb self) (deadline_timeout now (c_readDeadline c)) r) (\<lambda>(ud, i, req, r').
           Ok (c\<lparr>c_readOp := op, c_readLock := Sending ud i req\<rparr>, ud, i, req, r')))"

definition Conn_Read_id :: "u64 \<Rightarrow> 'a Conn \<Rightarrow> 'a Conn" where
  "Conn_Read_id ud c = c\<lparr>c_lastReadOpID := ud, c_readLock := Waiting ud\<rparr>"

text \<open>\<^verbatim>\<open>ECANCELED\<close> is 125.\<close>

definition deadline_error :: "go_error \<Rightarrow> go_error" where
  "deadline_error err =
     (if errors_is err (Errno 125) then Wrapped ErrDeadlineExceeded ''operation canceled'' else err)"

definition Conn_Read_end :: "CQEvent \<Rightarrow> 'a Conn \<Rightarrow> (int \<times> go_error option) \<times> 'a Conn" where
  "Conn_Read_end cqe c =
     (case CQEvent_Error cqe of
        Some err \<Rightarrow> (0, Some (OpError ''read'' (deadline_error err)))
      | None \<Rightarrow> (sint (cqe_Res cqe), if cqe_Res cqe = 0 then Some (OpError ''read'' EOF) else None),
      c\<lparr>c_readLock := Unlocked\<rparr>)"

definition Conn_Write_begin ::
  "nat \<Rightarrow> int \<Rightarrow> slice \<Rightarrow> 'a Conn \<Rightarrow> ('r, conn_cb, 'l) NetworkReactor \<Rightarrow>
   ('a Conn \<times> u64 \<times> nat \<times> subSqeRequest \<times> ('r, conn_cb, 'l) NetworkReactor) outcome" where
  "Conn_Write_begin self now b c r =
     (let op = SetBuffer (c_sendOp c) b
      in obind (queue_begin op (WriteCb self) (deadline_timeout now (c_writeDeadline c)) r) (\<lambda>(ud, i, req, r').
           Ok (c\<lparr>c_sendOp := op, c_writeLock := Sending ud i req\<rparr>, ud, i, req, r')))"

definition Conn_Write_id :: "u64 \<Rightarrow> 'a Conn \<Rightarrow> 'a Conn" where
  "Conn_Write_id ud c = c\<lparr>c_lastWriteOpID := ud, c_writeLock := Waiting ud\<rparr>"

definition Conn_Write_end :: "CQEvent \<Rightarrow> 'a Conn \<Rightarrow> (int \<times> go_error option) \<times> 'a Conn" where
  "Conn_Write_end cqe c =
     (case CQEvent_Error cqe of
        Some err \<Rightarrow> (0, Some (OpError ''write'' (deadline_error err)))
      | None \<Rightarrow> (sint (cqe_Res cqe), if cqe_Res cqe = 0 then Some (OpError ''write'' ErrUnexpectedEOF) else None),
      c\<lparr>c_writeLock := Unlocked\<rparr>)"

section \<open>Closing, addresses and deadlines\<close>

definition Conn_Close :: "'w os \<Rightarrow> 'a Conn \<Rightarrow> 'w \<Rightarrow> go_error option \<times> 'w" where
  "Conn_Close os c w =
     (case os_close os (c_fd c) w of (err, w') \<Rightarrow> (map_option (OpError ''close'') err, w'))"

definition LocalAddr :: "'a Conn \<Rightarrow> 'a" where "LocalAddr c = c_lAddr c"
definition RemoteAddr :: "'a Conn \<Rightarrow> 'a option" where "RemoteAddr c = c_rAddr c"
definition Conn_Fd :: "'a Conn \<Rightarrow> u64" where "Conn_Fd c = of_int (c_fd c)"

text \<open>
  \<^verbatim>\<open>SetReadDeadline\<close> and \<^verbatim>\<open>SetWriteDeadline\<close>: a time that has passed cancels the last operation; the
  send of the cancel request is the option of \<open>Net_Cancel\<close>, \<open>None\<close> while the channel is full.
\<close>

definition past :: "int \<Rightarrow> int option \<Rightarrow> bool" where
  "past now t = (case t of None \<Rightarrow> False | Some d \<Rightarrow> d - now < 0)"

definition SetReadDeadline ::
  "int \<Rightarrow> int option \<Rightarrow> 'a Conn \<Rightarrow> ('r, 'cb, 'l) NetworkReactor \<Rightarrow> ('a Conn \<times> ('r, 'cb, 'l) NetworkReactor) option outcome" where
  "SetReadDeadline now t c r =
     obind (if past now t then Net_Cancel (c_lastReadOpID c) r else Ok (Some r))
       (\<lambda>sent. Ok (map_option (\<lambda>r'. (c\<lparr>c_readDeadline := t\<rparr>, r')) sent))"

definition SetWriteDeadline ::
  "int \<Rightarrow> int option \<Rightarrow> 'a Conn \<Rightarrow> ('r, 'cb, 'l) NetworkReactor \<Rightarrow> ('a Conn \<times> ('r, 'cb, 'l) NetworkReactor) option outcome" where
  "SetWriteDeadline now t c r =
     obind (if past now t then Net_Cancel (c_lastWriteOpID c) r else Ok (Some r))
       (\<lambda>sent. Ok (map_option (\<lambda>r'. (c\<lparr>c_writeDeadline := t\<rparr>, r')) sent))"

text \<open>\<^verbatim>\<open>SetDeadline\<close>, when neither send blocks; each reads the clock.\<close>

definition SetDeadline ::
  "int \<Rightarrow> int \<Rightarrow> int option \<Rightarrow> 'a Conn \<Rightarrow> ('r, 'cb, 'l) NetworkReactor \<Rightarrow> ('a Conn \<times> ('r, 'cb, 'l) NetworkReactor) option outcome" where
  "SetDeadline now now' t c r =
     obind (SetReadDeadline now t c r) (\<lambda>res.
       case res of None \<Rightarrow> Ok None | Some (c', r') \<Rightarrow> SetWriteDeadline now' t c' r')"

section \<open>The two halves uniformly\<close>

text \<open>\<^verbatim>\<open>Read\<close> and \<^verbatim>\<open>Write\<close> differ in the fields they use; the steps of a run are stated once for both.\<close>

datatype side = ReadSide | WriteSide

fun lock_of :: "side \<Rightarrow> 'a Conn \<Rightarrow> call_pc" where
  "lock_of ReadSide c = c_readLock c"
| "lock_of WriteSide c = c_writeLock c"

fun set_lock :: "side \<Rightarrow> call_pc \<Rightarrow> 'a Conn \<Rightarrow> 'a Conn" where
  "set_lock ReadSide pc c = c\<lparr>c_readLock := pc\<rparr>"
| "set_lock WriteSide pc c = c\<lparr>c_writeLock := pc\<rparr>"

fun chan_of :: "side \<Rightarrow> 'a Conn \<Rightarrow> CQEvent list" where
  "chan_of ReadSide c = c_readChan c"
| "chan_of WriteSide c = c_writeChan c"

fun set_chan :: "side \<Rightarrow> CQEvent list \<Rightarrow> 'a Conn \<Rightarrow> 'a Conn" where
  "set_chan ReadSide evs c = c\<lparr>c_readChan := evs\<rparr>"
| "set_chan WriteSide evs c = c\<lparr>c_writeChan := evs\<rparr>"

fun last_of :: "side \<Rightarrow> 'a Conn \<Rightarrow> u64" where
  "last_of ReadSide c = c_lastReadOpID c"
| "last_of WriteSide c = c_lastWriteOpID c"

fun side_cb :: "side \<Rightarrow> nat \<Rightarrow> conn_cb" where
  "side_cb ReadSide i = ReadCb i"
| "side_cb WriteSide i = WriteCb i"

fun io_begin where
  "io_begin ReadSide self now b c r = Conn_Read_begin self now b c r"
| "io_begin WriteSide self now b c r = Conn_Write_begin self now b c r"

fun io_id :: "side \<Rightarrow> u64 \<Rightarrow> 'a Conn \<Rightarrow> 'a Conn" where
  "io_id ReadSide ud c = Conn_Read_id ud c"
| "io_id WriteSide ud c = Conn_Write_id ud c"

fun io_end :: "side \<Rightarrow> CQEvent \<Rightarrow> 'a Conn \<Rightarrow> (int \<times> go_error option) \<times> 'a Conn" where
  "io_end ReadSide cqe c = Conn_Read_end cqe c"
| "io_end WriteSide cqe c = Conn_Write_end cqe c"

fun set_deadline where
  "set_deadline ReadSide now t c r = SetReadDeadline now t c r"
| "set_deadline WriteSide now t c r = SetWriteDeadline now t c r"

lemma side_cb_eq [simp]: "side_cb d i = side_cb e j \<longleftrightarrow> d = e \<and> i = j"
  by (cases d; cases e) auto

lemma side_cb_accept [simp]: "side_cb d i \<noteq> AcceptCb" "AcceptCb \<noteq> side_cb d i"
  by (cases d; simp)+

lemma conn_cb_cases: obtains d i where "cb = side_cb d i" | "cb = AcceptCb"
  by (cases cb) (use side_cb.simps in metis)+

lemma side_fields [simp]:
  "lock_of d (set_lock e pc c) = (if d = e then pc else lock_of d c)"
  "lock_of d (set_chan e evs c) = lock_of d c"
  "chan_of d (set_lock e pc c) = chan_of d c"
  "chan_of d (set_chan e evs c) = (if d = e then evs else chan_of d c)"
  "last_of d (set_lock e pc c) = last_of d c"
  "last_of d (set_chan e evs c) = last_of d c"
  by (cases d; cases e; simp)+

lemma io_id_fields [simp]:
  "lock_of d (io_id e ud c) = (if d = e then Waiting ud else lock_of d c)"
  "chan_of d (io_id e ud c) = chan_of d c"
  "last_of d (io_id e ud c) = (if d = e then ud else last_of d c)"
  by (cases d; cases e; simp add: Conn_Read_id_def Conn_Write_id_def)+

lemma io_end_fields [simp]:
  "lock_of d (snd (io_end e ev c)) = (if d = e then Unlocked else lock_of d c)"
  "chan_of d (snd (io_end e ev c)) = chan_of d c"
  "last_of d (snd (io_end e ev c)) = last_of d c"
  by (cases d; cases e; simp add: Conn_Read_end_def Conn_Write_end_def)+

text \<open>The operations of a connection keep their kind and their descriptor, a non-negative 31-bit number.\<close>

definition conn_ops_ok :: "'a Conn \<Rightarrow> bool" where
  "conn_ops_ok c \<longleftrightarrow> 0 \<le> c_fd c \<and> c_fd c < 2 ^ 31 \<and>
     op_Fd (c_readOp c) = Some (c_fd c) \<and> Code (c_readOp c) = RecvCode \<and>
     op_Fd (c_sendOp c) = Some (c_fd c) \<and> Code (c_sendOp c) = SendCode"

lemma sint_of_fd: "0 \<le> fd \<Longrightarrow> fd < 2 ^ 31 \<Longrightarrow> sint (of_int fd :: u64) = fd"
  by (simp add: signed_of_int signed_take_bit_int_eq_self)

lemma newConn_ops_ok: "0 \<le> fd \<Longrightarrow> fd < 2 ^ 31 \<Longrightarrow> conn_ops_ok (newConn fd l r)"
  by (simp add: conn_ops_ok_def newConn_def Recv_def Send_def sint_of_fd)

lemma SetBuffer_keeps [simp]: "op_Fd (SetBuffer op b) = op_Fd op" "Code (SetBuffer op b) = Code op"
  by (cases op; simp)+

lemma io_begin_registers:
  assumes "conn_ops_ok c" and "io_begin d self now b c r = Ok (c', ud, i, req, r')"
  shows "\<exists>op t. op_Fd op = Some (c_fd c) \<and> net_register op (c_fd c) (Some (side_cb d self)) t r = Ok (ud, i, req, r')"
    and "conn_ops_ok c'" and "c_fd c' = c_fd c"
proof -
  let ?op = "case d of ReadSide \<Rightarrow> SetBuffer (c_readOp c) b | WriteSide \<Rightarrow> SetBuffer (c_sendOp c) b"
  have fd: "op_Fd ?op = Some (c_fd c)" using assms(1) by (cases d) (simp_all add: conn_ops_ok_def)
  show "\<exists>op t. op_Fd op = Some (c_fd c) \<and> net_register op (c_fd c) (Some (side_cb d self)) t r = Ok (ud, i, req, r')"
    using assms(2) fd
    by (intro exI [of _ ?op] exI [of _ "deadline_timeout now (case d of ReadSide \<Rightarrow> c_readDeadline c | WriteSide \<Rightarrow> c_writeDeadline c)"])
      (cases d, auto simp: Conn_Read_begin_def Conn_Write_begin_def queue_begin_def Let_def go_outcome)
  show "conn_ops_ok c'" and "c_fd c' = c_fd c"
    using assms by (cases d; auto simp: Conn_Read_begin_def Conn_Write_begin_def Let_def go_outcome conn_ops_ok_def)+
qed

lemma io_begin_fields:
  assumes "io_begin d self now b c r = Ok (c', ud, i, req, r')"
  shows "lock_of e c' = (if e = d then Sending ud i req else lock_of e c)" and "chan_of e c' = chan_of e c"
    and "last_of e c' = last_of e c"
  using assms by (cases d; cases e; auto simp: Conn_Read_begin_def Conn_Write_begin_def Let_def go_outcome)+

lemma conn_ops_ok_keeps [simp]:
  "conn_ops_ok (set_lock d pc c) = conn_ops_ok c" "conn_ops_ok (set_chan d evs c) = conn_ops_ok c"
  "conn_ops_ok (io_id d ud c) = conn_ops_ok c" "conn_ops_ok (snd (io_end d ev c)) = conn_ops_ok c"
  by (cases d; simp add: conn_ops_ok_def Conn_Read_id_def Conn_Write_id_def Conn_Read_end_def Conn_Write_end_def)+

lemma c_fd_keeps [simp]:
  "c_fd (set_lock d pc c) = c_fd c" "c_fd (set_chan d evs c) = c_fd c"
  "c_fd (io_id d ud c) = c_fd c" "c_fd (snd (io_end d ev c)) = c_fd c"
  by (cases d; simp add: Conn_Read_id_def Conn_Write_id_def Conn_Read_end_def Conn_Write_end_def)+

lemma set_deadline_Ok:
  assumes "set_deadline d now t c r = Ok (Some (c', r'))"
  shows "r' = r \<or> Net_Cancel (last_of d c) r = Ok (Some r')"
    and "lock_of e c' = lock_of e c" and "chan_of e c' = chan_of e c" and "last_of e c' = last_of e c"
    and "conn_ops_ok c' = conn_ops_ok c" and "c_fd c' = c_fd c"
  using assms
  by (cases d; cases e; auto simp: SetReadDeadline_def SetWriteDeadline_def go_outcome conn_ops_ok_def split: if_splits)+

text \<open>A call that waits has stored its identifier, so that a deadline cancels it.\<close>

definition conn_ok :: "'a Conn \<Rightarrow> bool" where
  "conn_ok c \<longleftrightarrow> conn_ops_ok c \<and> (\<forall>d ud. lock_of d c = Waiting ud \<longrightarrow> last_of d c = ud)"

lemma conn_ok_keeps:
  assumes "conn_ok c"
  shows "conn_ok (set_lock d (Sent ud) c)" and "conn_ok (set_chan d evs c)" and "conn_ok (io_id d ud c)"
    and "conn_ok (snd (io_end d ev c))"
    and "io_begin d self now b c r = Ok (c', ud, i, req, r') \<Longrightarrow> conn_ok c'"
    and "set_deadline d now t c r = Ok (Some (c', r')) \<Longrightarrow> conn_ok c'"
  using assms io_begin_registers(2) [of c d self now b r c' ud i req r'] io_begin_fields [of d self now b c r c' ud i req r']
    set_deadline_Ok [of d now t c r c' r']
  by (auto simp: conn_ok_def)

lemma newConn_ok: "0 \<le> fd \<Longrightarrow> fd < 2 ^ 31 \<Longrightarrow> conn_ok (newConn fd l r)"
proof -
  have "lock_of d (newConn fd l r) = Unlocked" for d by (cases d) (simp_all add: newConn_def)
  then show "0 \<le> fd \<Longrightarrow> fd < 2 ^ 31 \<Longrightarrow> conn_ok (newConn fd l r)" by (simp add: conn_ok_def newConn_ops_ok)
qed

text \<open>The two halves of queueing are the reactor's call.\<close>

lemma queue_begin_send:
  assumes "op_Fd op = Some fd"
  shows "Net_QueueWithDeadline now op fd (Some cb) deadline r =
    obind (queue_begin op cb (deadline_timeout now deadline) r) (\<lambda>(ud, i, req, r1). Ok (ud, chan_send i req r1))"
  using assms
  by (simp add: Net_QueueWithDeadline_def Net_Queue_def net_queue_def queue_begin_def deadline_timeout_def
      split: option.split)

section \<open>Results of Read and Write\<close>

text \<open>
  What the result of an operation means to the caller of \<^verbatim>\<open>Read\<close> or \<^verbatim>\<open>Write\<close>: \<open>eof\<close> is the error of an
  empty transfer; 125, a cancelled operation, is an exceeded deadline and no longer an errno.
\<close>

definition io_result :: "go_error \<Rightarrow> int \<Rightarrow> int \<times> go_error option \<Rightarrow> bool" where
  "io_result eof res out \<longleftrightarrow> (case out of (n, err) \<Rightarrow>
     if 0 < res then n = res \<and> err = None
     else if res = 0 then n = 0 \<and> err_is err eof
     else if res = - 125 then n = 0 \<and> err_is err ErrDeadlineExceeded \<and> \<not> err_is err (Errno 125)
     else n = 0 \<and> err_is err (Errno (of_int (- res))) \<and> \<not> err_is err ErrDeadlineExceeded \<and> \<not> err_is err eof)"

lemma CQEvent_Error_of_int:
  assumes "sint (cqe_Res ev) < 0" and "- (2 ^ 31) < sint (cqe_Res ev)"
  shows "CQEvent_Error ev = Some (Errno (of_int (- sint (cqe_Res ev))))"
proof -
  obtain e where e: "CQEvent_Error ev = Some (Errno e)" "uint e = - sint (cqe_Res ev)"
    using CQEvent_Error_errno [OF assms] by blast
  then show ?thesis by (metis word_of_int_uint)
qed

lemma Res_zero: "cqe_Res ev = 0 \<longleftrightarrow> sint (cqe_Res ev) = 0"
  by (metis sint_0 signed_word_eqI)

lemma errno_125:
  assumes "- (2 ^ 31) < n" and "n < 0"
  shows "(of_int (- n) :: u64) = 125 \<longleftrightarrow> n = - 125"
proof
  assume "(of_int (- n) :: u64) = 125"
  then have "uint (of_int (- n) :: u64) = uint (125 :: u64)" by simp
  then have "(- n) mod 2 ^ 64 = 125" by (simp only: uint_word_of_int) simp
  then show "n = - 125" using assms by simp
qed simp

text \<open>
  C24. What a \<^verbatim>\<open>Read\<close> or \<^verbatim>\<open>Write\<close> returns for every event: the number of bytes and no error for a positive
  result; \<^verbatim>\<open>io.EOF\<close> respectively \<^verbatim>\<open>io.ErrUnexpectedEOF\<close> for zero; \<^verbatim>\<open>os.ErrDeadlineExceeded\<close>, and no
  longer the errno, for a cancelled operation; the errno of the kernel for any other failure. The
  lock of its side, and nothing else of the connection, changes: it is released.
\<close>

theorem Read_Write_results:
  assumes "- (2 ^ 31) < sint (cqe_Res ev)"
  shows "io_result EOF (sint (cqe_Res ev)) (fst (Conn_Read_end ev c)) \<and>
     io_result ErrUnexpectedEOF (sint (cqe_Res ev)) (fst (Conn_Write_end ev c)) \<and>
     snd (Conn_Read_end ev c) = c\<lparr>c_readLock := Unlocked\<rparr> \<and>
     snd (Conn_Write_end ev c) = c\<lparr>c_writeLock := Unlocked\<rparr>"
proof (cases "sint (cqe_Res ev) < 0")
  case True
  with assms CQEvent_Error_of_int [OF True] errno_125 [OF assms True] show ?thesis
    by (auto simp: Conn_Read_end_def Conn_Write_end_def io_result_def deadline_error_def)
next
  case False
  then have "CQEvent_Error ev = None" by (simp add: CQEvent_Error_None)
  then show ?thesis using False by (auto simp: Res_zero Conn_Read_end_def Conn_Write_end_def io_result_def)
qed

theorem Read_Write_results_witness:
  "\<exists>err. fst (Conn_Read_end \<lparr>cqe_UserData = 1, cqe_Res = - 125, cqe_Flags = 0\<rparr> (newConn 5 () None)) = (0, err) \<and>
     err_is err ErrDeadlineExceeded \<and> \<not> err_is err (Errno 125)"
  using Read_Write_results [of "\<lparr>cqe_UserData = 1, cqe_Res = - 125, cqe_Flags = 0\<rparr>" "newConn 5 () None"]
  by (auto simp: io_result_def split: prod.splits)

text \<open>
  Queueing never fails for want of a descriptor. The request carries the time left to the deadline, and
  \<open>0\<close>, which means no timeout, when there is no deadline or when it is exactly now.
\<close>

theorem read_request:
  assumes "conn_ok c" and "registry_inv (nr_registry r)" and "nr_loops r \<noteq> []"
  shows "\<exists>c' ud i req r'. Conn_Read_begin self now b c r = Ok (c', ud, i, req, r') \<and>
     rq_timeout req = (case c_readDeadline c of None \<Rightarrow> 0 | Some t \<Rightarrow> t - now) \<and> c_readLock c' = Sending ud i req"
proof -
  have fd: "op_Fd (SetBuffer (c_readOp c) b) = Some (c_fd c)" "0 \<le> c_fd c" "c_fd c < 2 ^ 32"
    using assms(1) by (simp_all add: conn_ok_def conn_ops_ok_def)
  obtain n reg where add: "registry_add (c_fd c) (Some (ReadCb self)) (nr_registry r) = Ok (n, reg)"
    using add_registered [OF assms(2) fd(2,3)] by blast
  obtain i where i: "loopForFd (r\<lparr>nr_registry := reg\<rparr>) (c_fd c) = Ok i"
    using assms(3) fd(2) by (auto simp: loopForFd_def Let_def fdPerGranule_def)
  show ?thesis
    using add i fd(1)
    by (auto simp: Conn_Read_begin_def queue_begin_def Let_def net_register_def deadline_timeout_def split: option.splits)
qed

end
