(* ===== verification/Net_Listener.thy ===== *)
theory Net_Listener
  imports Net_Conn
begin

text \<open>
  The listener: \<^verbatim>\<open>src/net/listner.go\<close>. \<^verbatim>\<open>NewListener\<close> opens a listening socket and starts the reactor;
  \<^verbatim>\<open>Accept\<close> queues the listener's accept operation, waits for its event and makes a connection.

  The socket calls are a parameter, on a world of their own. Address resolution and the
  decoding of raw socket addresses (the go-sockaddr package) are parameters too.
\<close>

section \<open>Sockets\<close>

record sockaddr_inet4 =
  sa_Port :: int
  sa_Addr :: "u8 list"

record 'w sock_os =
  so_socket :: "int \<Rightarrow> int \<Rightarrow> int \<Rightarrow> 'w \<Rightarrow> (go_error + int) \<times> 'w"
  so_setsockopt :: "int \<Rightarrow> int \<Rightarrow> int \<Rightarrow> int \<Rightarrow> 'w \<Rightarrow> go_error option \<times> 'w"
  so_setnonblock :: "int \<Rightarrow> bool \<Rightarrow> 'w \<Rightarrow> go_error option \<times> 'w"
  so_bind :: "int \<Rightarrow> sockaddr_inet4 \<Rightarrow> 'w \<Rightarrow> go_error option \<times> 'w"
  so_listen :: "int \<Rightarrow> int \<Rightarrow> 'w \<Rightarrow> go_error option \<times> 'w"
  so_close :: "int \<Rightarrow> 'w \<Rightarrow> go_error option \<times> 'w"

text \<open>The constants of Linux the code names.\<close>

abbreviation (input) "AF_INET \<equiv> 2 :: int"
abbreviation (input) "SOCK_STREAM_CLOEXEC \<equiv> 0x80001 :: int"
abbreviation (input) "SOL_SOCKET \<equiv> 1 :: int"
abbreviation (input) "SO_REUSEADDR \<equiv> 2 :: int"
abbreviation (input) "SO_KEEPALIVE \<equiv> 9 :: int"
abbreviation (input) "IPPROTO_TCP \<equiv> 6 :: int"
abbreviation (input) "TCP_KEEPIDLE \<equiv> 4 :: int"
abbreviation (input) "TCP_KEEPINTVL \<equiv> 5 :: int"
abbreviation (input) "SOMAXCONN \<equiv> 128 :: int"

text \<open>A \<^verbatim>\<open>net.TCPAddr\<close>, and \<^verbatim>\<open>net.IP.To4\<close> of the standard library, nil for an IPv6 address.\<close>

record TCPAddr =
  ta_IP :: "u8 list"
  ta_Port :: int

definition To4 :: "u8 list \<Rightarrow> u8 list" where
  "To4 ip = (if length ip = 4 then ip
     else if length ip = 16 \<and> take 10 ip = replicate 10 0 \<and> ip ! 10 = 0xff \<and> ip ! 11 = 0xff then drop 12 ip
     else [])"

text \<open>\<^verbatim>\<open>copy(addr.Addr[:], src)\<close> into a zero array of four bytes.\<close>

definition copy4 :: "u8 list \<Rightarrow> u8 list" where
  "copy4 src = take 4 (src @ replicate 4 0)"

definition setDefaultListenerSockopts :: "'w sock_os \<Rightarrow> int \<Rightarrow> 'w \<Rightarrow> go_error option \<times> 'w" where
  "setDefaultListenerSockopts os s w =
     (case so_setsockopt os s SOL_SOCKET SO_REUSEADDR 1 w of (e, w1) \<Rightarrow>
        let err = NewSyscallError ''setsockopt'' e
        in if err \<noteq> None then (err, w1)
           else (case so_setnonblock os s False w1 of (e2, w2) \<Rightarrow> (NewSyscallError ''setsockopt'' e2, w2)))"

definition serverSocket :: "'w sock_os \<Rightarrow> TCPAddr \<Rightarrow> 'w \<Rightarrow> (go_error + int) \<times> 'w" where
  "serverSocket os tcpAddr w =
     (case so_socket os AF_INET SOCK_STREAM_CLOEXEC 0 w of
        (Inl err, w1) \<Rightarrow> (Inl err, w1)
      | (Inr sockFd, w1) \<Rightarrow>
          (case setDefaultListenerSockopts os sockFd w1 of
             (Some err, w2) \<Rightarrow> (Inl err, w2)
           | (None, w2) \<Rightarrow>
               (case so_bind os sockFd \<lparr>sa_Port = ta_Port tcpAddr, sa_Addr = copy4 (To4 (ta_IP tcpAddr))\<rparr> w2 of
                  (Some err, w3) \<Rightarrow> (Inl (SyscallError ''bind'' err), w3)
                | (None, w3) \<Rightarrow>
                    (case so_listen os sockFd SOMAXCONN w3 of
                       (Some err, w4) \<Rightarrow> (Inl (SyscallError ''listen'' err), w4)
                     | (None, w4) \<Rightarrow> (Inr sockFd, w4)))))"

section \<open>Keep-alive\<close>

definition boolint :: "bool \<Rightarrow> int" where
  "boolint b = (if b then 1 else 0)"

definition wrapSyscallError :: "string \<Rightarrow> go_error option \<Rightarrow> go_error option" where
  "wrapSyscallError name err =
     (case err of Some (Errno e) \<Rightarrow> NewSyscallError name err | _ \<Rightarrow> err)"

definition setKeepAlive :: "'w sock_os \<Rightarrow> int \<Rightarrow> bool \<Rightarrow> 'w \<Rightarrow> go_error option \<times> 'w" where
  "setKeepAlive os fd keepalive w =
     (case so_setsockopt os fd SOL_SOCKET SO_KEEPALIVE (boolint keepalive) w of (err, w') \<Rightarrow>
        (wrapSyscallError ''setsockopt'' err, w'))"

text \<open>A \<^verbatim>\<open>time.Duration\<close> is a signed 64-bit number of nanoseconds; sums wrap around.\<close>

definition wrap64 :: "int \<Rightarrow> int" where
  "wrap64 n = signed_take_bit 63 n"

definition roundDurationUp :: "int \<Rightarrow> int \<Rightarrow> int" where
  "roundDurationUp d to = go_quot (wrap64 (d + to - 1)) to"

definition Second :: int where "Second = 1000000000"

definition defaultTCPKeepAlive :: int where "defaultTCPKeepAlive = 15 * Second"

definition setKeepAlivePeriod :: "'w sock_os \<Rightarrow> int \<Rightarrow> int \<Rightarrow> 'w \<Rightarrow> go_error option \<times> 'w" where
  "setKeepAlivePeriod os fd d w =
     (let secs = roundDurationUp d Second
      in case so_setsockopt os fd IPPROTO_TCP TCP_KEEPINTVL secs w of
           (Some err, w1) \<Rightarrow> (wrapSyscallError ''setsockopt'' (Some err), w1)
         | (None, w1) \<Rightarrow>
             (case so_setsockopt os fd IPPROTO_TCP TCP_KEEPIDLE secs w1 of (err, w2) \<Rightarrow>
                (wrapSyscallError ''setsockopt'' err, w2)))"

section \<open>The listener\<close>

text \<open>
  \<open>l_keepAlive\<close> is the \<^verbatim>\<open>KeepAlive\<close> field of the \<^verbatim>\<open>ListenConfig\<close>, the only one the code reads;
  \<open>l_stopped\<close> says that \<^verbatim>\<open>stopReactorFn\<close> cancelled the context of \<^verbatim>\<open>Run\<close>. \<^verbatim>\<open>Accept\<close> takes no lock, so
  any number of calls can be under way: \<open>l_calls\<close> says where they are.
\<close>

record 'a Listener =
  l_keepAlive :: int
  l_sockFd :: int
  l_acceptChan :: "CQEvent list"
  l_acceptOp :: Operation
  l_stopped :: bool
  l_addr :: 'a
  l_calls :: "call_pc list"

text \<open>\<open>raw\<close> and \<open>len\<close> are the addresses the accept operation gets for what the kernel writes.\<close>

definition NewListener ::
  "'w sock_os \<Rightarrow> (string \<Rightarrow> go_error + TCPAddr) \<Rightarrow> u64 \<Rightarrow> u64 \<Rightarrow> int \<Rightarrow> string \<Rightarrow> 'w \<Rightarrow> (go_error + TCPAddr Listener) \<times> 'w" where
  "NewListener os resolve raw len keepAlive addr w =
     (case resolve addr of
        Inl err \<Rightarrow> (Inl err, w)
      | Inr tcpAddr \<Rightarrow>
          (case serverSocket os tcpAddr w of
             (Inl err, w1) \<Rightarrow> (Inl err, w1)
           | (Inr sockFd, w1) \<Rightarrow>
               (Inr \<lparr>l_keepAlive = keepAlive, l_sockFd = sockFd, l_acceptChan = [],
                     l_acceptOp = Accept raw len (of_int sockFd) 0, l_stopped = False, l_addr = tcpAddr,
                     l_calls = []\<rparr>, w1)))"

definition Accept_begin ::
  "'a Listener \<Rightarrow> ('r, conn_cb, 'l) NetworkReactor \<Rightarrow>
   ('a Listener \<times> u64 \<times> nat \<times> subSqeRequest \<times> ('r, conn_cb, 'l) NetworkReactor) outcome" where
  "Accept_begin l r =
     obind (queue_begin (l_acceptOp l) AcceptCb 0 r) (\<lambda>(ud, i, req, r').
       Ok (l\<lparr>l_calls := l_calls l @ [Sending ud i req]\<rparr>, ud, i, req, r'))"

text \<open>\<^verbatim>\<open>Accept\<close> from the event on; \<open>peer\<close> is the result of \<^verbatim>\<open>acceptOp.Addr()\<close>, whose error is ignored.\<close>

definition Accept_end ::
  "'w sock_os \<Rightarrow> (Operation \<Rightarrow> go_error + 'a) \<Rightarrow> CQEvent \<Rightarrow> 'a Listener \<Rightarrow> 'w \<Rightarrow> (go_error + 'a Conn) \<times> 'w" where
  "Accept_end os peer cqe l w =
     (case CQEvent_Error cqe of
        Some err \<Rightarrow> (Inl err, w)
      | None \<Rightarrow>
          let fd = sint (cqe_Res cqe);
              rAddr = (case peer (l_acceptOp l) of Inl _ \<Rightarrow> None | Inr a \<Rightarrow> Some a);
              tc = newConn fd (l_addr l) rAddr
          in if 0 \<le> l_keepAlive l
             then (case setKeepAlive os fd True w of (_, w1) \<Rightarrow>
                     let ka = (if l_keepAlive l = 0 then defaultTCPKeepAlive else l_keepAlive l)
                     in (case setKeepAlivePeriod os fd ka w1 of (_, w2) \<Rightarrow> (Inr tc, w2)))
             else (Inr tc, w))"

definition Listener_Close :: "'w sock_os \<Rightarrow> 'a Listener \<Rightarrow> 'w \<Rightarrow> (go_error option \<times> 'a Listener) \<times> 'w" where
  "Listener_Close os l w =
     (case so_close os (l_sockFd l) w of (err, w') \<Rightarrow> ((err, l\<lparr>l_stopped := True\<rparr>), w'))"

definition Listener_Addr :: "'a Listener \<Rightarrow> 'a" where
  "Listener_Addr l = l_addr l"

section \<open>Lemmas\<close>

lemma wrap64_id: "- (2 ^ 63) \<le> n \<Longrightarrow> n < 2 ^ 63 \<Longrightarrow> wrap64 n = n"
  by (simp add: wrap64_def signed_take_bit_int_eq_self)

lemma sint_u32_less: "sint (x :: u32) < 2 ^ 31"
  using sint_lt [of x] by simp

lemma Accept_end_conn:
  "fst (Accept_end os peer ev l w) = (if CQEvent_Error ev = None
     then Inr (newConn (sint (cqe_Res ev)) (l_addr l) (case peer (l_acceptOp l) of Inl _ \<Rightarrow> None | Inr a \<Rightarrow> Some a))
     else Inl (the (CQEvent_Error ev)))"
  by (auto simp: Accept_end_def Let_def split: prod.split option.split)

text \<open>
  What sockets(7) promises about descriptors, over any way to read the open descriptors off
  the world: creating a socket opens it, the other calls open and close nothing.
\<close>

definition tracks_open :: "'w sock_os \<Rightarrow> ('w \<Rightarrow> int set) \<Rightarrow> bool" where
  "tracks_open os opened \<longleftrightarrow>
     (\<forall>a b c w fd w'. so_socket os a b c w = (Inr fd, w') \<longrightarrow> opened w' = insert fd (opened w)) \<and>
     (\<forall>s a b c w. opened (snd (so_setsockopt os s a b c w)) = opened w) \<and>
     (\<forall>s b w. opened (snd (so_setnonblock os s b w)) = opened w) \<and>
     (\<forall>s a w. opened (snd (so_bind os s a w)) = opened w) \<and>
     (\<forall>s n w. opened (snd (so_listen os s n w)) = opened w)"

lemma tracks_openD:
  assumes "tracks_open os opened"
  shows "so_socket os a b c w = (Inr fd, w') \<Longrightarrow> opened w' = insert fd (opened w)"
    and "so_setsockopt os s a b c w = (e, w') \<Longrightarrow> opened w' = opened w"
    and "so_setnonblock os s t w = (e, w') \<Longrightarrow> opened w' = opened w"
    and "so_bind os s sa w = (e, w') \<Longrightarrow> opened w' = opened w"
    and "so_listen os s n w = (e, w') \<Longrightarrow> opened w' = opened w"
  using assms unfolding tracks_open_def by (metis snd_conv)+

lemma sockopts_open:
  assumes "tracks_open os opened" and "setDefaultListenerSockopts os s w = (e, w')"
  shows "opened w' = opened w"
  using assms(2) tracks_openD [OF assms(1)]
  by (auto simp: setDefaultListenerSockopts_def Let_def split: prod.splits if_splits)

lemma serverSocket_open:
  assumes "tracks_open os opened" and "so_socket os AF_INET SOCK_STREAM_CLOEXEC 0 w = (Inr fd, w1)"
    and "serverSocket os a w = (res, w')"
  shows "opened w' = insert fd (opened w)"
  using assms(2,3) tracks_openD [OF assms(1)] sockopts_open [OF assms(1)]
  by (fastforce simp: serverSocket_def split: prod.splits option.splits)

section \<open>Properties of the listener\<close>

text \<open>
  A failed \<^verbatim>\<open>serverSocket\<close> leaks its socket: once \<^verbatim>\<open>socket\<close> has given a descriptor, exactly that
  descriptor is open besides those that were open before when \<^verbatim>\<open>serverSocket\<close> returns, also when it
  returns the error of a later call; the caller gets no descriptor it could close then.
\<close>

theorem serverSocket_leaks:
  assumes "tracks_open os opened" and "so_socket os AF_INET SOCK_STREAM_CLOEXEC 0 w = (Inr fd, w1)"
  shows "opened (snd (serverSocket os a w)) = insert fd (opened w) \<and>
     (fst (serverSocket os a w) = Inr fd \<or> (\<exists>err. fst (serverSocket os a w) = Inl err)) \<and>
     (\<forall>e resolve raw len ka s. resolve s = Inr a \<and> fst (serverSocket os a w) = Inl e \<longrightarrow>
        fst (NewListener os resolve raw len ka s w) = Inl e \<and>
        opened (snd (NewListener os resolve raw len ka s w)) = insert fd (opened w))"
proof -
  obtain res w' where s: "serverSocket os a w = (res, w')" by fastforce
  have o: "opened w' = insert fd (opened w)" by (rule serverSocket_open [OF assms s])
  have r: "res = Inr fd \<or> (\<exists>err. res = Inl err)"
    using s assms(2) by (auto simp: serverSocket_def split: prod.splits option.splits)
  show ?thesis using s o r by (auto simp: NewListener_def)
qed

text \<open>A system whose descriptors are the world, with a port that is in use.\<close>

definition ex_socks :: "int set sock_os" where
  "ex_socks = \<lparr>so_socket = \<lambda>_ _ _ w. (Inr 3, insert 3 w), so_setsockopt = \<lambda>_ _ _ _ w. (None, w),
     so_setnonblock = \<lambda>_ _ w. (None, w), so_bind = \<lambda>_ _ w. (Some (Errno 98), w),
     so_listen = \<lambda>_ _ w. (None, w), so_close = \<lambda>fd w. (None, w - {fd})\<rparr>"

theorem serverSocket_leaks_witness:
  "tracks_open ex_socks id \<and> serverSocket ex_socks \<lparr>ta_IP = [127, 0, 0, 1], ta_Port = 80\<rparr> {0, 1, 2} =
     (Inl (SyscallError ''bind'' (Errno 98)), {0, 1, 2, 3})"
proof -
  have t: "tracks_open ex_socks id" by (auto simp: tracks_open_def ex_socks_def)
  have "so_socket ex_socks AF_INET SOCK_STREAM_CLOEXEC 0 {0, 1, 2} = (Inr 3, {0, 1, 2, 3})"
    by (auto simp: ex_socks_def)
  from serverSocket_leaks [OF t this, of "\<lparr>ta_IP = [127, 0, 0, 1], ta_Port = 80\<rparr>"]
  have "snd (serverSocket ex_socks \<lparr>ta_IP = [127, 0, 0, 1], ta_Port = 80\<rparr> {0, 1, 2}) = {0, 1, 2, 3}" by auto
  moreover have "fst (serverSocket ex_socks \<lparr>ta_IP = [127, 0, 0, 1], ta_Port = 80\<rparr> {0, 1, 2}) =
      Inl (SyscallError ''bind'' (Errno 98))"
    by (simp add: serverSocket_def setDefaultListenerSockopts_def ex_socks_def NewSyscallError_def)
  ultimately show ?thesis using t by (metis prod.collapse)
qed

text \<open>
  An address with no IPv4 form is not refused: the socket is bound to the wildcard address
  0.0.0.0 of its port.
\<close>

theorem bind_address:
  assumes "so_socket os AF_INET SOCK_STREAM_CLOEXEC 0 w = (Inr fd, w1)"
    and "setDefaultListenerSockopts os fd w1 = (None, w2)"
  shows "length (ta_IP a) = 4 \<Longrightarrow> serverSocket os a w =
      (case so_bind os fd \<lparr>sa_Port = ta_Port a, sa_Addr = ta_IP a\<rparr> w2 of
         (Some err, w3) \<Rightarrow> (Inl (SyscallError ''bind'' err), w3)
       | (None, w3) \<Rightarrow> (case so_listen os fd SOMAXCONN w3 of
             (Some err, w4) \<Rightarrow> (Inl (SyscallError ''listen'' err), w4) | (None, w4) \<Rightarrow> (Inr fd, w4)))"
    and "To4 (ta_IP a) = [] \<Longrightarrow>
      serverSocket os a w = serverSocket os (a\<lparr>ta_IP := [0, 0, 0, 0]\<rparr>) w"
  using assms by (simp_all add: serverSocket_def To4_def copy4_def numeral_eq_Suc split: if_splits)

text \<open>
  The keep-alive period is rounded up: \<^verbatim>\<open>roundDurationUp\<close> of a non-negative duration is the least
  whole number of units that covers it, for every unit and duration whose sum fits 63 bits; a
  positive duration gives at least one unit, so that \<^verbatim>\<open>setKeepAlivePeriod\<close> never passes zero seconds.
\<close>

theorem roundDurationUp_ceiling:
  assumes "0 \<le> d" and "0 < to" and "d + to \<le> 2 ^ 63"
  shows "d \<le> roundDurationUp d to * to \<and> (\<forall>k. d \<le> k * to \<longrightarrow> roundDurationUp d to \<le> k) \<and>
     (0 < d \<longrightarrow> 0 < roundDurationUp d to)"
proof -
  let ?q = "(d + to - 1) div to"
  have r: "roundDurationUp d to = ?q"
    using assms by (simp add: roundDurationUp_def wrap64_id)
  have e: "?q * to + (d + to - 1) mod to = d + to - 1" by (rule div_mult_mod_eq)
  have m: "0 \<le> (d + to - 1) mod to" "(d + to - 1) mod to < to" using assms(2) by simp_all
  have up: "d \<le> ?q * to" using e m by linarith
  have least: "?q \<le> k" if "d \<le> k * to" for k
  proof -
    have "d + to - 1 < (k + 1) * to" using that assms(2) by (simp add: algebra_simps)
    then have "?q * to < (k + 1) * to" using e m by linarith
    then show ?thesis using assms(2) by (simp add: mult_less_cancel_right)
  qed
  have "0 < d \<longrightarrow> 0 < ?q" using up assms(2) by (metis less_le_trans zero_less_mult_pos2)
  with up least r show ?thesis by simp
qed

theorem roundDurationUp_ceiling_witness: "roundDurationUp 1500000000 Second = 2"
proof -
  have "1500000000 \<le> roundDurationUp 1500000000 Second * Second" and "roundDurationUp 1500000000 Second \<le> 2"
    using roundDurationUp_ceiling [of 1500000000 Second] by (auto simp: Second_def)
  then show ?thesis by (simp add: Second_def)
qed

end
