(* ===== verification/Net_Mailbox.thy ===== *)
theory Net_Mailbox
  imports Net_Conn
begin

text \<open>
  The pattern every blocking method of \<^verbatim>\<open>src/net\<close> follows: register a callback that forwards the
  event to a channel, send the request, wait on the channel. This theory keeps the books of
  such callers on top of those of the reactor, for any type of callbacks.

  \<open>P cb\<close> lists the calls under way that registered the callback \<open>cb\<close>, \<open>Q cb\<close> the events that
  callbacks offer on its channel.
\<close>

fun call_id :: "call_pc \<Rightarrow> u64" where
  "call_id (Sending ud i req) = ud"
| "call_id (Sent ud) = ud"
| "call_id (Waiting ud) = ud"
| "call_id Unlocked = 0"

fun is_sending :: "call_pc \<Rightarrow> bool" where
  "is_sending (Sending ud i req) = True"
| "is_sending _ = False"

section \<open>Histories by callback\<close>

definition ids :: "'cb \<Rightarrow> (u64 \<times> 'cb) multiset \<Rightarrow> u64 multiset" where
  "ids cb M = image_mset fst (filter_mset (\<lambda>x. snd x = cb) M)"

lemma ids_simps [simp]:
  "ids cb {#} = {#}" "ids cb (M + N) = ids cb M + ids cb N"
  "ids cb (add_mset (u, cb') M) = (if cb' = cb then add_mset u (ids cb M) else ids cb M)"
  by (simp_all add: ids_def)

lemma in_ids: "(u, cb) \<in># M \<Longrightarrow> u \<in># ids cb M"
  by (force simp: ids_def)

definition done_pairs :: "('cb, 'l) nsys \<Rightarrow> (u64 \<times> 'cb) list" where
  "done_pairs n = map (\<lambda>(cb, ev). (cqe_UserData ev, cb)) (ns_done n)"

definition outstanding :: "('cb, 'l) nsys \<Rightarrow> (u64 \<times> 'cb) multiset" where
  "outstanding n = image_mset (\<lambda>u. (u, the (registered (nr_registry (ns_net n)) u))) (owed n)"

lemma accepted_split:
  "net_inv n \<Longrightarrow> mset (ns_accepted n) = outstanding n + mset (done_pairs n) + mset (ns_dropped n)"
  by (simp add: net_inv_def books_def outstanding_def finished_def done_pairs_def ac_simps)

lemma outstanding_fun: "(u, a) \<in># outstanding n \<Longrightarrow> (u, b) \<in># outstanding n \<Longrightarrow> a = b"
  by (auto simp: outstanding_def)

lemma outstanding_owed: "(u, a) \<in># outstanding n \<Longrightarrow> u \<in># owed n"
  by (auto simp: outstanding_def)

lemma owed_outstanding: "u \<in># owed n \<Longrightarrow> \<exists>a. (u, a) \<in># outstanding n"
  by (auto simp: outstanding_def)

lemma unregistered_not_outstanding:
  assumes "net_inv n" and "registered (nr_registry (ns_net n)) u = None"
  shows "(u, a) \<notin># outstanding n"
proof -
  have "u \<notin># owed n" using assms unfolding net_inv_def books_def by metis
  then show ?thesis by (auto simp: outstanding_def)
qed

lemma done_accepted: "net_inv n \<Longrightarrow> (cb, ev) \<in> set (ns_done n) \<Longrightarrow> (cqe_UserData ev, cb) \<in> set (ns_accepted n)"
proof -
  assume "net_inv n" and "(cb, ev) \<in> set (ns_done n)"
  then have "(cqe_UserData ev, cb) \<in># mset (ns_accepted n)"
    unfolding accepted_split [OF \<open>net_inv n\<close>] by (force simp: done_pairs_def)
  then show ?thesis by simp
qed

text \<open>Only additions change the history of dropped requests.\<close>

lemma net_step_dropped: "net_step n n' \<Longrightarrow> \<exists>ds. ns_dropped n' = ns_dropped n @ ds"
  by (auto elim!: net_stepE background_stepE consumer_stepE)

lemma outstanding_shrinks:
  assumes "net_inv n" and "net_inv n'" and "net_step n n'"
    and "ns_accepted n' = ns_accepted n" and "ns_done n' = ns_done n @ calls"
  shows "outstanding n' \<subseteq># outstanding n"
proof -
  obtain ds where "ns_dropped n' = ns_dropped n @ ds" using net_step_dropped [OF assms(3)] by blast
  with accepted_split [OF assms(1)] accepted_split [OF assms(2)] assms(4,5)
  have "outstanding n + (mset (done_pairs n) + mset (ns_dropped n))
      = (outstanding n' + mset (map (\<lambda>(cb, ev). (cqe_UserData ev, cb)) calls) + mset ds)
        + (mset (done_pairs n) + mset (ns_dropped n))"
    by (simp add: done_pairs_def ac_simps)
  then have "outstanding n = outstanding n' + mset (map (\<lambda>(cb, ev). (cqe_UserData ev, cb)) calls) + mset ds"
    by (rule add_right_imp_eq)
  then show ?thesis by (simp add: add.assoc)
qed

section \<open>The books of the callers\<close>

definition mail :: "('cb, 'l) nsys \<Rightarrow> ('cb \<Rightarrow> call_pc list) \<Rightarrow> ('cb \<Rightarrow> CQEvent list) \<Rightarrow> bool" where
  "mail n P Q \<longleftrightarrow>
     (\<forall>cb. mset (map call_id (P cb)) + ids cb (mset (done_pairs n))
        = ids cb (mset (ns_accepted n)) + mset (map cqe_UserData (Q cb))) \<and>
     (\<forall>cb ud i req. Sending ud i req \<in> set (P cb) \<longrightarrow>
        (i, req) \<in> set (ns_sending n) \<and> rq_userData req = ud \<and> (ud, cb) \<in># outstanding n) \<and>
     (\<forall>cb. distinct (filter is_sending (P cb))) \<and>
     (\<forall>cb. \<forall>ev\<in>set (Q cb). (cb, ev) \<in> set (ns_done n))"

lemma mailI:
  assumes "\<And>cb. mset (map call_id (P cb)) + ids cb (mset (done_pairs n))
      = ids cb (mset (ns_accepted n)) + mset (map cqe_UserData (Q cb))"
    and "\<And>cb ud i req. Sending ud i req \<in> set (P cb) \<Longrightarrow>
        (i, req) \<in> set (ns_sending n) \<and> rq_userData req = ud \<and> (ud, cb) \<in># outstanding n"
    and "\<And>cb. distinct (filter is_sending (P cb))"
    and "\<And>cb ev. ev \<in> set (Q cb) \<Longrightarrow> (cb, ev) \<in> set (ns_done n)"
  shows "mail n P Q"
  using assms unfolding mail_def by blast

lemma mailD:
  assumes "mail n P Q"
  shows "mset (map call_id (P cb)) + ids cb (mset (done_pairs n))
      = ids cb (mset (ns_accepted n)) + mset (map cqe_UserData (Q cb))"
    and "Sending ud i req \<in> set (P cb) \<Longrightarrow> (i, req) \<in> set (ns_sending n)"
    and "Sending ud i req \<in> set (P cb) \<Longrightarrow> rq_userData req = ud"
    and "Sending ud i req \<in> set (P cb) \<Longrightarrow> (ud, cb) \<in># outstanding n"
    and "distinct (filter is_sending (P cb))"
    and "ev \<in> set (Q cb) \<Longrightarrow> (cb, ev) \<in> set (ns_done n)"
  using assms unfolding mail_def by blast+

text \<open>Every call under way is waiting for the kernel, for an offered event, or for nothing: its request was dropped.\<close>

lemma mail_calls:
  assumes "mail n P Q" and "net_inv n"
  shows "mset (map call_id (P cb))
     = ids cb (outstanding n) + ids cb (mset (ns_dropped n)) + mset (map cqe_UserData (Q cb))"
proof -
  have "mset (map call_id (P cb)) + ids cb (mset (done_pairs n))
      = (ids cb (outstanding n) + ids cb (mset (ns_dropped n)) + mset (map cqe_UserData (Q cb))) + ids cb (mset (done_pairs n))"
    using mailD(1) [OF assms(1), of cb] accepted_split [OF assms(2)] by (simp add: ac_simps)
  then show ?thesis by (rule add_right_imp_eq)
qed

text \<open>A single call: what is offered is its own event, and its request has been sent.\<close>

lemma mail_single:
  assumes "mail n P Q" and "net_inv n" and "P cb = [pc]" and "Q cb = ev # evs"
  shows "evs = []" and "cqe_UserData ev = call_id pc" and "\<not> is_sending pc"
    and "(call_id pc, cb) \<notin> set (ns_dropped n)" and "(call_id pc, cb) \<notin># outstanding n"
proof -
  have "{#call_id pc#} = add_mset (cqe_UserData ev)
      (ids cb (outstanding n) + ids cb (mset (ns_dropped n)) + mset (map cqe_UserData evs))"
    using mail_calls [OF assms(1,2), of cb] assms(3,4) by simp
  then have one: "cqe_UserData ev = call_id pc" "ids cb (outstanding n) = {#}" "ids cb (mset (ns_dropped n)) = {#}" "evs = []"
    by (simp_all add: add_eq_conv_diff)
  then show "evs = []" and "cqe_UserData ev = call_id pc" by simp_all
  show out: "(call_id pc, cb) \<notin># outstanding n" using in_ids one(2) by fastforce
  show "(call_id pc, cb) \<notin> set (ns_dropped n)" using in_ids [of _ cb "mset (ns_dropped n)"] one(3) by fastforce
  show "\<not> is_sending pc" using out mailD(4) [OF assms(1)] assms(3) by (cases pc) auto
qed

lemma mail_none: "mail n P Q \<Longrightarrow> net_inv n \<Longrightarrow> P cb = [] \<Longrightarrow> Q cb = []"
  using mail_calls [of n P Q cb] by simp

text \<open>Calls that are still sending have requests of their own: no two share an identifier.\<close>

lemma sending_single:
  assumes m: "mail n P Q" and inv: "net_inv n"
    and a: "Sending ud i req \<in> set (P cb)" and b: "Sending ud i' req' \<in> set (P cb)"
  shows "i' = i \<and> req' = req"
proof (rule ccontr)
  assume "\<not> (i' = i \<and> req' = req)"
  then have ne: "(i, req) \<noteq> (i', req')" by auto
  let ?f = "\<lambda>x. rq_userData (snd x)"
  have in2: "(i, req) \<in> set (ns_sending n)" "(i', req') \<in> set (ns_sending n)" "?f (i, req) = ud" "?f (i', req') = ud"
    using mailD(2,3) [OF m a] mailD(2,3) [OF m b] by simp_all
  then have "{#(i, req), (i', req')#} \<subseteq># mset (ns_sending n)" using ne
    by (auto simp: insert_subset_eq_iff in_diff_count)
  then have "image_mset ?f {#(i, req), (i', req')#} \<subseteq># mset (map ?f (ns_sending n))"
    unfolding mset_map by (rule image_mset_subseteq_mono)
  then have "{#ud, ud#} \<subseteq># mset (map ?f (ns_sending n))" using in2(3,4) by simp
  moreover have "user_nonce ud" by (rule owed_user [OF outstanding_owed [OF mailD(4) [OF m a]]])
  ultimately have "{#ud, ud#} \<subseteq># sending_owed (ns_sending n)"
    unfolding sending_owed_def using multiset_filter_mono [of "{#ud, ud#}" _ user_nonce] by simp
  then have "{#ud, ud#} \<subseteq># owed n" unfolding owed_def by (rule subset_mset.order_trans) simp
  then have "2 \<le> count (owed n) ud" using mset_subset_eq_count [of _ "owed n" ud] by fastforce
  moreover have "count (owed n) ud \<le> 1" using inv by (simp add: net_inv_def books_def)
  ultimately show False by simp
qed

lemma count_map_filter: "count (mset (map f xs)) u = length (filter (\<lambda>x. f x = u) xs)"
  by (induction xs) auto

text \<open>An offered event finds a call that has sent its request.\<close>

lemma mail_receiver:
  assumes m: "mail n P Q" and inv: "net_inv n" and ev: "ev \<in> set (Q cb)"
  shows "\<exists>pc\<in>set (P cb). call_id pc = cqe_UserData ev \<and> \<not> is_sending pc"
proof (rule ccontr)
  let ?ud = "cqe_UserData ev" let ?S = "filter (\<lambda>pc. call_id pc = cqe_UserData ev) (P cb)"
  assume "\<not> ?thesis"
  then have all: "is_sending pc" if "pc \<in> set ?S" for pc using that by auto
  have shape: "\<exists>i req. pc = Sending ?ud i req" if "pc \<in> set ?S" for pc
    using all [OF that] that by (cases pc) auto
  have "count (mset (map call_id (P cb))) ?ud = length ?S"
    by (rule count_map_filter)
  moreover have "0 < count (mset (map cqe_UserData (Q cb))) ?ud" using ev by simp
  ultimately have len: "count (ids cb (outstanding n)) ?ud < length ?S"
    using arg_cong [OF mail_calls [OF m inv, of cb], of "\<lambda>M. count M ?ud"] by simp
  then obtain pc where pc: "pc \<in> set ?S" by (cases ?S) auto
  then obtain i req where s: "Sending ?ud i req \<in> set ?S" using shape by blast
  then have out: "0 < count (ids cb (outstanding n)) ?ud"
    using in_ids [OF mailD(4) [OF m, of ?ud i req cb]] by simp
  have mine: "Sending ?ud i req \<in> set (P cb)" using s by simp
  have "x = Sending ?ud i req" if x: "x \<in> set ?S" for x
  proof -
    obtain i' req' where eq: "x = Sending ?ud i' req'" using shape [OF x] by blast
    with x have "Sending ?ud i' req' \<in> set (P cb)" by simp
    from sending_single [OF m inv mine this] eq show ?thesis by simp
  qed
  then have "set ?S \<subseteq> {Sending ?ud i req}" by blast
  moreover have "distinct ?S"
  proof -
    have "?S = filter (\<lambda>pc. call_id pc = ?ud) (filter is_sending (P cb))"
      using all by (auto intro!: filter_cong)
    then show ?thesis using distinct_filter [OF mailD(5) [OF m, of cb]] by metis
  qed
  ultimately have "length ?S \<le> 1" using card_mono [of "{Sending ?ud i req}" "set ?S"] by (simp flip: distinct_card)
  with len out show False by simp
qed

section \<open>How the books change\<close>

lemma mail_reactor:
  assumes m: "mail n P Q" and inv: "net_inv n" "net_inv n'" and step: "net_step n n'"
    and same: "ns_sending n' = ns_sending n" "ns_accepted n' = ns_accepted n" "ns_done n' = ns_done n @ calls"
    and Q': "\<And>cb. Q' cb = Q cb @ map snd (filter (\<lambda>x. fst x = cb) calls)"
  shows "mail n' P Q'"
proof -
  note sub = outstanding_shrinks [OF inv step same(2,3)]
  have out: "(ud, cb) \<in># outstanding n'" if "Sending ud i req \<in> set (P cb)" for ud i req cb
  proof -
    note s = mailD(2,3,4) [OF m that]
    from s(3) have "user_nonce ud" by (rule owed_user [OF outstanding_owed])
    moreover have "ud \<in> set (map (\<lambda>x. rq_userData (snd x)) (ns_sending n'))"
      using s(1,2) same(1) by (auto intro!: image_eqI [of _ _ "(i, req)"])
    ultimately have "ud \<in># sending_owed (ns_sending n')" by (simp add: sending_owed_def)
    then have "ud \<in># owed n'" by (simp add: owed_def)
    then obtain a where a: "(ud, a) \<in># outstanding n'" using owed_outstanding by blast
    with sub have "(ud, a) \<in># outstanding n" by (rule mset_subset_eqD)
    with s(3) a show ?thesis using outstanding_fun by metis
  qed
  have d: "ids cb (mset (map (\<lambda>(cb, ev). (cqe_UserData ev, cb)) calls)) = mset (map cqe_UserData (map snd (filter (\<lambda>x. fst x = cb) calls)))" for cb
    by (induction calls) auto
  show ?thesis
  proof (rule mailI)
    fix cb
    have "ids cb (mset (done_pairs n')) = ids cb (mset (done_pairs n)) + mset (map cqe_UserData (map snd (filter (\<lambda>x. fst x = cb) calls)))"
      using d [of cb] same(3) by (simp add: done_pairs_def)
    then show "mset (map call_id (P cb)) + ids cb (mset (done_pairs n'))
        = ids cb (mset (ns_accepted n')) + mset (map cqe_UserData (Q' cb))"
      using mailD(1) [OF m, of cb] same(2) Q' [of cb] by (simp add: ac_simps)
  next
    fix cb ud i req assume "Sending ud i req \<in> set (P cb)"
    then show "(i, req) \<in> set (ns_sending n') \<and> rq_userData req = ud \<and> (ud, cb) \<in># outstanding n'"
      using out mailD(2,3) [OF m] same(1) by metis
  next
    fix cb show "distinct (filter is_sending (P cb))" by (rule mailD(5) [OF m])
  next
    fix cb ev assume "ev \<in> set (Q' cb)"
    then show "(cb, ev) \<in> set (ns_done n')" using Q' [of cb] mailD(6) [OF m] same(3) by auto
  qed
qed

lemma mail_call:
  assumes m: "mail n P Q" and inv: "net_inv n" and fd: "0 \<le> fd" "fd < 2 ^ 31"
    and reg: "net_register op fd (Some cb) t (ns_net n) = Ok (ud, i, req, r')"
    and new: "registered (nr_registry (ns_net n)) ud = None"
    and n': "n' = n\<lparr>ns_net := r', ns_sending := ns_sending n @ [(i, req)], ns_accepted := ns_accepted n @ [(ud, cb)]\<rparr>"
  shows "net_inv n'" and "mail n' (P(cb := P cb @ [Sending ud i req])) Q"
proof -
  show inv': "net_inv n'" unfolding n' by (rule net_inv_register [OF inv fd reg new])
  have "outstanding n' + (mset (done_pairs n) + mset (ns_dropped n))
      = add_mset (ud, cb) (outstanding n) + (mset (done_pairs n) + mset (ns_dropped n))"
    using accepted_split [OF inv] accepted_split [OF inv'] by (simp add: n' done_pairs_def ac_simps)
  then have out: "outstanding n' = add_mset (ud, cb) (outstanding n)" by (rule add_right_imp_eq)
  have req: "rq_userData req = ud" using reg by (auto simp: net_register_def Let_def go_outcome)
  have fresh: "Sending ud i req \<notin> set (P cb)"
    using mailD(4) [OF m] unregistered_not_outstanding [OF inv new] by blast
  define P' where "P' = P(cb := P cb @ [Sending ud i req])"
  have "mail n' P' Q"
  proof (rule mailI)
    fix cb' show "mset (map call_id (P' cb')) + ids cb' (mset (done_pairs n'))
        = ids cb' (mset (ns_accepted n')) + mset (map cqe_UserData (Q cb'))"
      using mailD(1) [OF m, of cb'] by (simp add: P'_def n' done_pairs_def)
  next
    fix cb' ud2 i2 req2 assume "Sending ud2 i2 req2 \<in> set (P' cb')"
    then have "Sending ud2 i2 req2 \<in> set (P cb') \<or> cb' = cb \<and> ud2 = ud \<and> i2 = i \<and> req2 = req"
      by (auto simp: P'_def split: if_splits)
    then show "(i2, req2) \<in> set (ns_sending n') \<and> rq_userData req2 = ud2 \<and> (ud2, cb') \<in># outstanding n'"
      using mailD(2,3,4) [OF m] req out by (auto simp: n')
  next
    fix cb' show "distinct (filter is_sending (P' cb'))"
      using mailD(5) [OF m, of cb'] fresh by (cases "cb' = cb") (simp_all add: P'_def)
  next
    fix cb' ev assume "ev \<in> set (Q cb')"
    then show "(cb', ev) \<in> set (ns_done n')" using mailD(6) [OF m] by (simp add: n')
  qed
  then show "mail n' (P(cb := P cb @ [Sending ud i req])) Q" by (simp only: P'_def)
qed

lemma mail_sent:
  assumes m: "mail n P Q" and inv: "net_inv n" and P: "P cb = as @ Sending ud i req # bs"
    and sd: "ns_sending n = xs @ (i, req) # ys" and c: "chan_send i req (ns_net n) = Some r'"
    and n': "n' = n\<lparr>ns_net := r', ns_sending := xs @ ys\<rparr>" and pc: "pc = Sent ud \<or> pc = Waiting ud"
  shows "net_inv n'" and "mail n' (P(cb := as @ pc # bs)) Q"
proof -
  show inv': "net_inv n'" unfolding n' by (rule net_inv_send [OF inv sd c])
  have "outstanding n' + (mset (done_pairs n) + mset (ns_dropped n))
      = outstanding n + (mset (done_pairs n) + mset (ns_dropped n))"
    using accepted_split [OF inv] accepted_split [OF inv'] by (simp add: n' done_pairs_def ac_simps)
  then have out: "outstanding n' = outstanding n" by (rule add_right_imp_eq)
  have mine: "Sending ud i req \<in> set (P cb)" using P by simp
  define P' where "P' = P(cb := as @ pc # bs)"
  have sub: "Sending u j rq \<in> set (P cb2)" if "Sending u j rq \<in> set (P' cb2)" for u j rq cb2
    using that P pc by (auto simp: P'_def split: if_splits)
  have stay: "(j, rq) \<in> set (xs @ ys)" if "Sending u j rq \<in> set (P' cb2)" for u j rq cb2
  proof -
    note s = mailD(2,3,4) [OF m sub [OF that]]
    have "(j, rq) \<noteq> (i, req)"
    proof
      assume eq: "(j, rq) = (i, req)"
      then have u: "u = ud" using s(2) mailD(3) [OF m mine] by simp
      with s(3) mailD(4) [OF m mine] have "cb2 = cb" using outstanding_fun by metis
      with that eq u pc have "Sending ud i req \<in> set as \<union> set bs" by (auto simp: P'_def)
      with mailD(5) [OF m, of cb] P show False by auto
    qed
    with s(1) sd show ?thesis by auto
  qed
  have "mail n' P' Q"
  proof (rule mailI)
    fix cb2 show "mset (map call_id (P' cb2)) + ids cb2 (mset (done_pairs n'))
        = ids cb2 (mset (ns_accepted n')) + mset (map cqe_UserData (Q cb2))"
      using mailD(1) [OF m, of cb2] P pc by (cases "cb2 = cb") (auto simp: P'_def n' done_pairs_def)
  next
    fix cb2 u j rq assume "Sending u j rq \<in> set (P' cb2)"
    then show "(j, rq) \<in> set (ns_sending n') \<and> rq_userData rq = u \<and> (u, cb2) \<in># outstanding n'"
      using mailD(3,4) [OF m sub] stay out by (simp add: n')
  next
    fix cb2 show "distinct (filter is_sending (P' cb2))"
      using mailD(5) [OF m, of cb2] P pc by (cases "cb2 = cb") (auto simp: P'_def)
  next
    fix cb2 ev assume "ev \<in> set (Q cb2)"
    then show "(cb2, ev) \<in> set (ns_done n')" using mailD(6) [OF m] by (simp add: n')
  qed
  then show "mail n' (P(cb := as @ pc # bs)) Q" by (simp only: P'_def)
qed

lemma mail_moves:
  assumes m: "mail n P Q" and P: "P cb = as @ Sent ud # bs"
  shows "mail n (P(cb := as @ Waiting ud # bs)) Q"
proof (rule mailI)
  fix cb2
  show "mset (map call_id ((P(cb := as @ Waiting ud # bs)) cb2)) + ids cb2 (mset (done_pairs n))
      = ids cb2 (mset (ns_accepted n)) + mset (map cqe_UserData (Q cb2))"
    using mailD(1) [OF m, of cb2] P by auto
  show "distinct (filter is_sending ((P(cb := as @ Waiting ud # bs)) cb2))"
    using mailD(5) [OF m, of cb2] P by (cases "cb2 = cb") auto
  fix u i req assume "Sending u i req \<in> set ((P(cb := as @ Waiting ud # bs)) cb2)"
  then have "Sending u i req \<in> set (P cb2)" using P by (auto split: if_splits)
  then show "(i, req) \<in> set (ns_sending n) \<and> rq_userData req = u \<and> (u, cb2) \<in># outstanding n"
    using mailD(2,3,4) [OF m] by blast
qed (rule mailD(6) [OF m])

lemma mail_return:
  assumes m: "mail n P Q" and P: "P cb = as @ Waiting ud # bs" and Q: "Q cb = us @ ev # vs" and ev: "cqe_UserData ev = ud"
  shows "mail n (P(cb := as @ bs)) (Q(cb := us @ vs))"
proof (rule mailI)
  fix cb2
  show "mset (map call_id ((P(cb := as @ bs)) cb2)) + ids cb2 (mset (done_pairs n))
      = ids cb2 (mset (ns_accepted n)) + mset (map cqe_UserData ((Q(cb := us @ vs)) cb2))"
    using mailD(1) [OF m, of cb2] P Q ev by (cases "cb2 = cb") auto
  show "distinct (filter is_sending ((P(cb := as @ bs)) cb2))"
    using mailD(5) [OF m, of cb2] P by (cases "cb2 = cb") auto
  fix u i req assume "Sending u i req \<in> set ((P(cb := as @ bs)) cb2)"
  then have "Sending u i req \<in> set (P cb2)" using P by (auto split: if_splits)
  then show "(i, req) \<in> set (ns_sending n) \<and> rq_userData req = u \<and> (u, cb2) \<in># outstanding n"
    using mailD(2,3,4) [OF m] by blast
next
  fix cb2 e assume "e \<in> set ((Q(cb := us @ vs)) cb2)"
  then have "e \<in> set (Q cb2)" using Q by (auto split: if_splits)
  then show "(cb2, e) \<in> set (ns_done n)" by (rule mailD(6) [OF m])
qed

section \<open>Callers that share a channel\<close>

text \<open>
  The callers of \<^verbatim>\<open>Accept\<close> wait on one channel and take whatever event comes. The books stay right if
  those who wait are given the names of others: \<open>renamed cs pcs\<close> says that \<open>pcs\<close> are the calls \<open>cs\<close> up to the
  identifiers of those that wait.
\<close>

fun same_pc :: "call_pc \<Rightarrow> call_pc \<Rightarrow> bool" where
  "same_pc (Sending ud i req) p = (p = Sending ud i req)"
| "same_pc (Waiting ud) p = (\<exists>v. p = Waiting v)"
| "same_pc _ p = False"

definition renamed :: "call_pc list \<Rightarrow> call_pc list \<Rightarrow> bool" where
  "renamed cs pcs \<longleftrightarrow> list_all2 same_pc cs pcs"

lemma same_pc_trans: "same_pc a b \<Longrightarrow> same_pc b c \<Longrightarrow> same_pc a c"
  by (cases a) auto

lemma same_pc_shape: "same_pc a b \<Longrightarrow> \<not> is_sending b \<Longrightarrow> b = Waiting (call_id b)"
  by (cases a) auto

lemma same_pc_refl: "same_pc a b \<Longrightarrow> same_pc b b"
  by (cases a) auto

lemma renamed_refl: "renamed cs pcs \<Longrightarrow> renamed pcs pcs"
  using same_pc_refl by (fastforce simp: renamed_def list_all2_conv_all_nth)

lemma renamed_trans: "renamed a b \<Longrightarrow> renamed b c \<Longrightarrow> renamed a c"
  unfolding renamed_def by (rule list_all2_trans [OF same_pc_trans])

lemma renamed_Nil [simp]: "renamed [] pcs \<longleftrightarrow> pcs = []"
  by (simp add: renamed_def)

lemma renamed_append: "renamed as as' \<Longrightarrow> renamed bs bs' \<Longrightarrow> renamed (as @ bs) (as' @ bs')"
  unfolding renamed_def by (rule list_all2_appendI)

lemma renamed_split:
  assumes "renamed (as @ c # bs) pcs"
  obtains as' p bs' where "pcs = as' @ p # bs'" "renamed as as'" "same_pc c p" "renamed bs bs'"
  using assms by (auto simp: renamed_def list_all2_append1 list_all2_Cons1)

lemma renamed_one: "same_pc c p \<Longrightarrow> renamed [c] [p]"
  by (simp add: renamed_def)

lemma renamed_waiting:
  assumes "renamed cs pcs" and "p \<in> set pcs" and "\<not> is_sending p"
  shows "\<exists>u. Waiting u \<in> set cs"
proof -
  obtain i where i: "i < length pcs" "p = pcs ! i" using assms(2) by (auto simp: in_set_conv_nth)
  then have "same_pc (cs ! i) p" "cs ! i \<in> set cs" using assms(1) by (auto simp: renamed_def list_all2_conv_all_nth)
  with assms(3) show ?thesis by (cases "cs ! i") auto
qed

text \<open>The books do not depend on the order of the calls.\<close>

lemma mail_reorder:
  assumes m: "mail n P Q" and xs: "mset xs = mset (P cb)"
  shows "mail n (P(cb := xs)) Q"
proof (rule mailI)
  have s: "set xs = set (P cb)" using xs by (rule mset_eq_setD)
  fix cb2
  have "mset (map call_id xs) = mset (map call_id (P cb))" using xs by simp
  then show "mset (map call_id ((P(cb := xs)) cb2)) + ids cb2 (mset (done_pairs n))
      = ids cb2 (mset (ns_accepted n)) + mset (map cqe_UserData (Q cb2))"
    using mailD(1) [OF m, of cb2] by (cases "cb2 = cb") simp_all
  have "mset (filter is_sending xs) = mset (filter is_sending (P cb))" using xs by simp
  from mset_eq_imp_distinct_iff [OF this] show "distinct (filter is_sending ((P(cb := xs)) cb2))"
    using mailD(5) [OF m] by (cases "cb2 = cb") simp_all
  fix u i req assume "Sending u i req \<in> set ((P(cb := xs)) cb2)"
  then have "Sending u i req \<in> set (P cb2)" using s by (auto split: if_splits)
  then show "(i, req) \<in> set (ns_sending n) \<and> rq_userData req = u \<and> (u, cb2) \<in># outstanding n"
    using mailD(2,3,4) [OF m] by blast
qed (rule mailD(6) [OF m])

text \<open>Any caller that waits may take any offered event; the others share the names that are left.\<close>

lemma mail_take:
  assumes m: "mail n P Q" and inv: "net_inv n" and P: "P cb = as @ Waiting u # bs" and shape: "renamed (P cb) (P cb)"
    and Q: "Q cb = us @ ev # vs"
  shows "\<exists>as' bs'. renamed as as' \<and> renamed bs bs' \<and> mail n (P(cb := as' @ bs')) (Q(cb := us @ vs))"
proof -
  let ?w = "Waiting (cqe_UserData ev)"
  obtain pc where pc: "pc \<in> set (P cb)" "call_id pc = cqe_UserData ev" "\<not> is_sending pc"
    using mail_receiver [OF m inv, of ev cb] Q by auto
  have "same_pc pc pc" using shape pc(1) by (auto simp: renamed_def list_all2_conv_all_nth in_set_conv_nth)
  then have w: "?w \<in> set (as @ Waiting u # bs)" using same_pc_shape [OF _ pc(3)] pc(1,2) P by metis
  have parts: "renamed as as" "renamed bs bs" using shape P by (auto simp: renamed_def list_all2_append)
  have ret: "mail n (P(cb := as' @ bs')) (Q(cb := us @ vs))" if "mset (as' @ ?w # bs') = mset (P cb)" for as' bs'
    using mail_return [OF mail_reorder [OF m that], of cb as' "cqe_UserData ev" bs' us ev vs] Q by simp
  have swap: "renamed (a @ ?w # b) (a @ Waiting u # b)" if "renamed (a @ ?w # b) (a @ ?w # b)" for a b
    using that by (auto simp: renamed_def list_all2_append)
  consider "?w = Waiting u" | "?w \<in> set as" | "?w \<in> set bs" using w by auto
  then show ?thesis
  proof cases
    case 1
    with ret [of as bs] parts P show ?thesis by auto
  next
    case 2
    then obtain a b where a: "as = a @ ?w # b" by (metis split_list)
    then have "mset ((a @ Waiting u # b) @ ?w # bs) = mset (P cb)" using P by simp
    from ret [OF this] have "mail n (P(cb := (a @ Waiting u # b) @ bs)) (Q(cb := us @ vs))" .
    moreover have "renamed as (a @ Waiting u # b)" using swap parts(1) unfolding a by blast
    ultimately show ?thesis using parts(2) by blast
  next
    case 3
    then obtain a b where b: "bs = a @ ?w # b" by (metis split_list)
    then have "mset (as @ ?w # a @ Waiting u # b) = mset (P cb)" using P by simp
    from ret [OF this] have "mail n (P(cb := as @ a @ Waiting u # b)) (Q(cb := us @ vs))" .
    moreover have "renamed bs (a @ Waiting u # b)" using swap parts(2) unfolding b by blast
    ultimately show ?thesis using parts(1) by blast
  qed
qed

lemma mail_torn [simp]: "mail (n\<lparr>ns_torn := b\<rparr>) P Q = mail n P Q"
  by (simp add: mail_def done_pairs_def outstanding_def owed_def)

lemma mail_init: "mail (net_init r) (\<lambda>cb. []) (\<lambda>cb. [])"
  by (simp add: mail_def net_init_def done_pairs_def)

section \<open>The history of returned calls\<close>

text \<open>
  A log of the calls that returned: callback, identifier of the call, event received. \<open>callers\<close> and \<open>taken\<close> are the
  calls and the events of one callback, \<open>called_with\<close> the events it was called with. In \<open>history\<close> every event a callback was called
  with has been received by one call or is on offer, and every call that registered the callback is under way or has
  returned once.
\<close>

definition callers :: "'cb \<Rightarrow> ('cb \<times> u64 \<times> CQEvent) list \<Rightarrow> u64 list" where
  "callers cb log = map (\<lambda>x. fst (snd x)) (filter (\<lambda>x. fst x = cb) log)"

definition taken :: "'cb \<Rightarrow> ('cb \<times> u64 \<times> CQEvent) list \<Rightarrow> CQEvent list" where
  "taken cb log = map (\<lambda>x. snd (snd x)) (filter (\<lambda>x. fst x = cb) log)"

definition called_with :: "'cb \<Rightarrow> ('cb \<times> CQEvent) list \<Rightarrow> CQEvent list" where
  "called_with cb calls = map snd (filter (\<lambda>x. fst x = cb) calls)"

lemma log_simps [simp]:
  "callers cb [] = []" "callers cb (xs @ ys) = callers cb xs @ callers cb ys"
  "callers cb ((cb', ud, ev) # xs) = (if cb' = cb then ud # callers cb xs else callers cb xs)"
  "taken cb [] = []" "taken cb (xs @ ys) = taken cb xs @ taken cb ys"
  "taken cb ((cb', ud, ev) # xs) = (if cb' = cb then ev # taken cb xs else taken cb xs)"
  "called_with cb [] = []" "called_with cb (us @ vs) = called_with cb us @ called_with cb vs"
  "called_with cb ((cb', ev) # us) = (if cb' = cb then ev # called_with cb us else called_with cb us)"
  by (simp_all add: callers_def taken_def called_with_def)

lemma in_log: "(cb, ud, ev) \<in> set log \<Longrightarrow> ud \<in> set (callers cb log) \<and> ev \<in> set (taken cb log)"
  by (force simp: callers_def taken_def)

lemma in_callers: "ud \<in> set (callers cb log) \<Longrightarrow> \<exists>ev. (cb, ud, ev) \<in> set log"
  by (auto simp: callers_def)

lemma in_called_with [simp]: "ev \<in> set (called_with cb calls) \<longleftrightarrow> (cb, ev) \<in> set calls"
  by (force simp: called_with_def)

lemma in_ids_iff: "u \<in># ids cb M \<longleftrightarrow> (u, cb) \<in># M"
  by (force simp: ids_def)

definition history ::
  "('cb, 'l) nsys \<Rightarrow> ('cb \<Rightarrow> call_pc list) \<Rightarrow> ('cb \<Rightarrow> CQEvent list) \<Rightarrow> ('cb \<times> u64 \<times> CQEvent) list \<Rightarrow> bool" where
  "history n P Q log \<longleftrightarrow>
     (\<forall>cb. mset (taken cb log) + mset (Q cb) = mset (called_with cb (ns_done n))) \<and>
     (\<forall>cb. mset (map call_id (P cb)) + mset (callers cb log) = ids cb (mset (ns_accepted n)))"

lemma historyD:
  assumes "history n P Q log"
  shows "mset (taken cb log) + mset (Q cb) = mset (called_with cb (ns_done n))"
    and "mset (map call_id (P cb)) + mset (callers cb log) = ids cb (mset (ns_accepted n))"
  using assms unfolding history_def by blast+

lemma history_log:
  assumes h: "history n P Q log" and l: "(cb, ud, ev) \<in> set log"
  shows "(ud, cb) \<in> set (ns_accepted n)" and "(cb, ev) \<in> set (ns_done n)"
proof -
  have "ud \<in># mset (map call_id (P cb)) + mset (callers cb log)" "ev \<in># mset (taken cb log) + mset (Q cb)"
    using in_log [OF l] by simp_all
  then have "ud \<in># ids cb (mset (ns_accepted n))" "ev \<in># mset (called_with cb (ns_done n))"
    unfolding historyD [OF h] .
  then show "(ud, cb) \<in> set (ns_accepted n)" and "(cb, ev) \<in> set (ns_done n)" by (simp_all add: in_ids_iff)
qed

lemma history_reactor:
  assumes "history n P Q log" and "ns_accepted n' = ns_accepted n" and "ns_done n' = ns_done n @ calls"
    and "\<And>cb. Q' cb = Q cb @ called_with cb calls"
  shows "history n' P Q' log"
  using assms by (simp add: history_def flip: add.assoc)

lemma history_call:
  assumes "history n P Q log" and "ns_accepted n' = ns_accepted n @ [(call_id pc, cb)]" and "ns_done n' = ns_done n"
  shows "history n' (P(cb := P cb @ [pc])) Q log"
  using assms by (simp add: history_def)

lemma history_moves:
  assumes "history n P Q log" and "ns_accepted n' = ns_accepted n" and "ns_done n' = ns_done n"
    and "\<And>cb. map call_id (P' cb) = map call_id (P cb)"
  shows "history n' P' Q log"
  using assms by (simp add: history_def)

lemma history_return:
  assumes h: "history n P Q log" and P: "P cb = as @ pc # bs" and Q: "Q cb = us @ ev # vs"
  shows "history n (P(cb := as @ bs)) (Q(cb := us @ vs)) (log @ [(cb, call_id pc, ev)])"
proof -
  have "mset (taken cb' (log @ [(cb, call_id pc, ev)])) + mset ((Q(cb := us @ vs)) cb') = mset (called_with cb' (ns_done n))"
    "mset (map call_id ((P(cb := as @ bs)) cb')) + mset (callers cb' (log @ [(cb, call_id pc, ev)]))
       = ids cb' (mset (ns_accepted n))" for cb'
    using historyD [OF h, of cb'] P Q by (cases "cb' = cb"; simp)+
  then show ?thesis unfolding history_def by blast
qed

text \<open>With identifiers of its own, a call under way is none of those that returned.\<close>

lemma history_apart:
  assumes h: "history n P Q log" and d: "distinct (ns_accepted n)" and pc: "pc \<in> set (P cb)"
  shows "call_id pc \<notin> set (callers cb log)"
proof
  assume "call_id pc \<in> set (callers cb log)"
  moreover have "call_id pc \<in> set (map call_id (P cb))" using pc by simp
  ultimately have "0 < count (mset (map call_id (P cb))) (call_id pc)" "0 < count (mset (callers cb log)) (call_id pc)"
    by (simp_all only: count_greater_zero_iff set_mset_mset)
  then have "2 \<le> count (ids cb (mset (ns_accepted n))) (call_id pc)"
    unfolding historyD(2) [OF h, of cb, symmetric] count_union by linarith
  moreover have "count (ids cb (mset xs)) u = count (mset xs) (u, cb)" for xs :: "(u64 \<times> 'a) list" and u
    by (induction xs) (auto split: if_splits)
  moreover have "count (mset (ns_accepted n)) (call_id pc, cb) \<le> 1"
    using d by (simp add: distinct_count_atmost_1)
  ultimately show False by simp
qed

end
