(* ===== verification/Net_Serve.thy ===== *)
theory Net_Serve
  imports Net_Listener Net_Mailbox
begin

text \<open>
  A listener with its connections on a network reactor: the methods of \<^verbatim>\<open>src/net\<close> as steps that
  interleave with the steps of the reactor, of its loops and of the kernel.

  A callback of this package sends on an unbuffered channel and so holds up the consumer that
  calls it until a caller receives. Here the events that callbacks offer are queued in the
  channel field instead; that there is never more than one, and that its caller is ready to
  take it, is a theorem. \<open>Net_Block\<close> shows that consumers that wait implement this machine.
\<close>

section \<open>The state of a server\<close>

record ('a, 'l) csys =
  cs_net :: "(conn_cb, 'l) nsys"
  cs_conns :: "'a Conn list"
  cs_lst :: "'a Listener"
  cs_log :: "(conn_cb \<times> u64 \<times> CQEvent) list"

definition serve_init :: "(kring, conn_cb, 'l) NetworkReactor \<Rightarrow> 'a Listener \<Rightarrow> ('a, 'l) csys" where
  "serve_init r l = \<lparr>cs_net = net_init r, cs_conns = [], cs_lst = l, cs_log = []\<rparr>"

text \<open>The closures: \<^verbatim>\<open>c.readChan <- event\<close>, \<^verbatim>\<open>c.writeChan <- event\<close>, \<^verbatim>\<open>l.acceptChan <- event\<close>.\<close>

definition offer_side :: "side \<Rightarrow> nat \<Rightarrow> CQEvent \<Rightarrow> ('a, 'l) csys \<Rightarrow> ('a, 'l) csys" where
  "offer_side d i ev s =
     (let c = cs_conns s ! i
      in if i < length (cs_conns s) then s\<lparr>cs_conns := (cs_conns s)[i := set_chan d (chan_of d c @ [ev]) c]\<rparr> else s)"

fun offer :: "conn_cb \<times> CQEvent \<Rightarrow> ('a, 'l) csys \<Rightarrow> ('a, 'l) csys" where
  "offer (ReadCb i, ev) s = offer_side ReadSide i ev s"
| "offer (WriteCb i, ev) s = offer_side WriteSide i ev s"
| "offer (AcceptCb, ev) s = s\<lparr>cs_lst := (cs_lst s)\<lparr>l_acceptChan := l_acceptChan (cs_lst s) @ [ev]\<rparr>\<rparr>"

definition offers :: "(conn_cb \<times> CQEvent) list \<Rightarrow> ('a, 'l) csys \<Rightarrow> ('a, 'l) csys" where
  "offers calls s = fold offer calls s"

section \<open>Steps\<close>

text \<open>
  The steps of callers up to the point where they wait: \<open>io_queue\<close>, \<open>io_sent\<close> and \<open>io_stored\<close> belong to a
  call of \<^verbatim>\<open>Read\<close> or \<^verbatim>\<open>Write\<close>, \<open>accept_queue\<close> and \<open>accept_sent\<close> to one of \<^verbatim>\<open>Accept\<close>; \<open>deadline\<close> is a call of
  \<^verbatim>\<open>SetReadDeadline\<close> or \<^verbatim>\<open>SetWriteDeadline\<close>. Nothing keeps the nonces of a descriptor from coming round while an
  old request is outstanding; \<open>ns_torn\<close> records it, as in \<open>net_step\<close>.
\<close>

inductive call_step :: "('a, 'l) csys \<Rightarrow> ('a, 'l) csys \<Rightarrow> bool" where
  io_queue: "i < length (cs_conns s) \<Longrightarrow> c = cs_conns s ! i \<Longrightarrow> lock_of d c = Unlocked \<Longrightarrow> n = cs_net s \<Longrightarrow>
     io_begin d i now b c (ns_net n) = Ok (c', ud, li, req, r') \<Longrightarrow>
     call_step s (s\<lparr>cs_conns := (cs_conns s)[i := c'],
       cs_net := n\<lparr>ns_net := r', ns_sending := ns_sending n @ [(li, req)],
         ns_accepted := ns_accepted n @ [(ud, side_cb d i)],
         ns_torn := ns_torn n \<or> registered (nr_registry (ns_net n)) ud \<noteq> None\<rparr>\<rparr>)"
| io_sent: "i < length (cs_conns s) \<Longrightarrow> c = cs_conns s ! i \<Longrightarrow> lock_of d c = Sending ud li req \<Longrightarrow> n = cs_net s \<Longrightarrow>
     ns_sending n = xs @ (li, req) # ys \<Longrightarrow> chan_send li req (ns_net n) = Some r' \<Longrightarrow>
     call_step s (s\<lparr>cs_conns := (cs_conns s)[i := set_lock d (Sent ud) c],
       cs_net := n\<lparr>ns_net := r', ns_sending := xs @ ys\<rparr>\<rparr>)"
| io_stored: "i < length (cs_conns s) \<Longrightarrow> c = cs_conns s ! i \<Longrightarrow> lock_of d c = Sent ud \<Longrightarrow>
     call_step s (s\<lparr>cs_conns := (cs_conns s)[i := io_id d ud c]\<rparr>)"
| deadline: "i < length (cs_conns s) \<Longrightarrow> c = cs_conns s ! i \<Longrightarrow> n = cs_net s \<Longrightarrow>
     set_deadline d now t c (ns_net n) = Ok (Some (c', r')) \<Longrightarrow>
     call_step s (s\<lparr>cs_conns := (cs_conns s)[i := c'], cs_net := n\<lparr>ns_net := r'\<rparr>\<rparr>)"
| accept_queue: "l = cs_lst s \<Longrightarrow> n = cs_net s \<Longrightarrow> Accept_begin l (ns_net n) = Ok (l', ud, li, req, r') \<Longrightarrow>
     call_step s (s\<lparr>cs_lst := l',
       cs_net := n\<lparr>ns_net := r', ns_sending := ns_sending n @ [(li, req)],
         ns_accepted := ns_accepted n @ [(ud, AcceptCb)],
         ns_torn := ns_torn n \<or> registered (nr_registry (ns_net n)) ud \<noteq> None\<rparr>\<rparr>)"
| accept_sent: "l = cs_lst s \<Longrightarrow> n = cs_net s \<Longrightarrow> l_calls l = as @ Sending ud li req # bs \<Longrightarrow>
     ns_sending n = xs @ (li, req) # ys \<Longrightarrow> chan_send li req (ns_net n) = Some r' \<Longrightarrow>
     call_step s (s\<lparr>cs_lst := l\<lparr>l_calls := as @ Waiting ud # bs\<rparr>,
       cs_net := n\<lparr>ns_net := r', ns_sending := xs @ ys\<rparr>\<rparr>)"

text \<open>
  A run of a server: \<open>reactor\<close> is the reactor, its goroutines and the kernel, with the callbacks it calls;
  \<open>io_return\<close> and \<open>accept_return\<close> end a call with the event it receives. The callers of \<^verbatim>\<open>Accept\<close> wait on one
  channel, on which several callbacks may offer events: any of those who wait takes any of these events, its own or
  that of another call.
\<close>

inductive conn_step ::
  "'w sock_os \<Rightarrow> (Operation \<Rightarrow> go_error + 'a) \<Rightarrow> ('a, 'l) csys \<Rightarrow> ('a, 'l) csys \<Rightarrow> bool"
  for os peer where
  reactor: "net_step (cs_net s) n' \<Longrightarrow> ns_sending n' = ns_sending (cs_net s) \<Longrightarrow>
     ns_accepted n' = ns_accepted (cs_net s) \<Longrightarrow> ns_done n' = ns_done (cs_net s) @ calls \<Longrightarrow>
     conn_step os peer s (offers calls (s\<lparr>cs_net := n'\<rparr>))"
| call: "call_step s s' \<Longrightarrow> conn_step os peer s s'"
| io_return: "i < length (cs_conns s) \<Longrightarrow> c = cs_conns s ! i \<Longrightarrow> lock_of d c = Waiting ud \<Longrightarrow>
     chan_of d c = ev # evs \<Longrightarrow>
     conn_step os peer s (s\<lparr>cs_conns := (cs_conns s)[i := snd (io_end d ev (set_chan d evs c))],
       cs_log := cs_log s @ [(side_cb d i, ud, ev)]\<rparr>)"
| accept_return: "l = cs_lst s \<Longrightarrow> l_calls l = as @ Waiting ud # bs \<Longrightarrow> l_acceptChan l = us @ ev # vs \<Longrightarrow>
     Accept_end os peer ev l w = (res, w') \<Longrightarrow>
     conn_step os peer s (s\<lparr>cs_lst := l\<lparr>l_calls := as @ bs, l_acceptChan := us @ vs\<rparr>,
       cs_conns := cs_conns s @ (case res of Inl _ \<Rightarrow> [] | Inr c \<Rightarrow> [c]),
       cs_log := cs_log s @ [(AcceptCb, ud, ev)]\<rparr>)"

section \<open>Calls and channels by callback\<close>

definition side_calls :: "side \<Rightarrow> nat \<Rightarrow> 'a Conn list \<Rightarrow> call_pc list" where
  "side_calls d i cs = (if i < length cs \<and> lock_of d (cs ! i) \<noteq> Unlocked then [lock_of d (cs ! i)] else [])"

definition side_chan :: "side \<Rightarrow> nat \<Rightarrow> 'a Conn list \<Rightarrow> CQEvent list" where
  "side_chan d i cs = (if i < length cs then chan_of d (cs ! i) else [])"

fun calls_of :: "'a Conn list \<Rightarrow> 'a Listener \<Rightarrow> conn_cb \<Rightarrow> call_pc list" where
  "calls_of cs l (ReadCb i) = side_calls ReadSide i cs"
| "calls_of cs l (WriteCb i) = side_calls WriteSide i cs"
| "calls_of cs l AcceptCb = l_calls l"

fun chan_at :: "'a Conn list \<Rightarrow> 'a Listener \<Rightarrow> conn_cb \<Rightarrow> CQEvent list" where
  "chan_at cs l (ReadCb i) = side_chan ReadSide i cs"
| "chan_at cs l (WriteCb i) = side_chan WriteSide i cs"
| "chan_at cs l AcceptCb = l_acceptChan l"

fun cb_exists :: "'a Conn list \<Rightarrow> conn_cb \<Rightarrow> bool" where
  "cb_exists cs (ReadCb i) = (i < length cs)"
| "cb_exists cs (WriteCb i) = (i < length cs)"
| "cb_exists cs AcceptCb = True"

lemma by_side [simp]:
  "calls_of cs l (side_cb d i) = side_calls d i cs" "chan_at cs l (side_cb d i) = side_chan d i cs"
  "cb_exists cs (side_cb d i) = (i < length cs)" "offer (side_cb d i, ev) s = offer_side d i ev s"
  by (cases d; simp)+

lemma conn_cb_all: "(\<forall>cb. P cb) \<longleftrightarrow> (\<forall>d i. P (side_cb d i)) \<and> P AcceptCb"
  by (metis conn_cb_cases)

text \<open>Replacing one connection changes what belongs to it; appending a fresh one changes nothing.\<close>

lemma calls_of_update:
  assumes "i < length cs"
    and "lock_of d c' = pc" and "\<And>e. e \<noteq> d \<Longrightarrow> lock_of e c' = lock_of e (cs ! i)"
  shows "calls_of (cs[i := c']) l = (calls_of cs l)(side_cb d i := (if pc = Unlocked then [] else [pc]))"
proof -
  have "lock_of e c' = (if e = d then pc else lock_of e (cs ! i))" for e using assms(2,3) by simp
  then show ?thesis using assms(1) by (auto simp: fun_eq_iff conn_cb_all side_calls_def nth_list_update)
qed

lemma calls_of_same:
  assumes "i < length cs" and "\<And>e. lock_of e c' = lock_of e (cs ! i)"
  shows "calls_of (cs[i := c']) l = calls_of cs l"
  using assms by (auto simp: fun_eq_iff conn_cb_all side_calls_def nth_list_update)

lemma chan_at_update:
  assumes "i < length cs"
    and "chan_of d c' = evs" and "\<And>e. e \<noteq> d \<Longrightarrow> chan_of e c' = chan_of e (cs ! i)"
  shows "chan_at (cs[i := c']) l = (chan_at cs l)(side_cb d i := evs)"
proof -
  have "chan_of e c' = (if e = d then evs else chan_of e (cs ! i))" for e using assms(2,3) by simp
  then show ?thesis using assms(1) by (auto simp: fun_eq_iff conn_cb_all side_chan_def nth_list_update)
qed

lemma chan_at_same:
  assumes "i < length cs" and "\<And>e. chan_of e c' = chan_of e (cs ! i)"
  shows "chan_at (cs[i := c']) l = chan_at cs l"
  using assms by (auto simp: fun_eq_iff conn_cb_all side_chan_def nth_list_update)

lemma fresh_conn:
  assumes "\<And>d. lock_of d c = Unlocked" and "\<And>d. chan_of d c = []"
  shows "calls_of (cs @ [c]) l = calls_of cs l" and "chan_at (cs @ [c]) l = chan_at cs l"
  using assms
  by (auto simp: fun_eq_iff conn_cb_all side_calls_def side_chan_def nth_append less_Suc_eq)

lemma calls_of_listener:
  "calls_of cs (l\<lparr>l_calls := pcs, l_acceptChan := evs\<rparr>) = (calls_of cs l)(AcceptCb := pcs)"
  "calls_of cs (l\<lparr>l_calls := pcs\<rparr>) = (calls_of cs l)(AcceptCb := pcs)"
  "chan_at cs (l\<lparr>l_calls := pcs, l_acceptChan := evs\<rparr>) = (chan_at cs l)(AcceptCb := evs)"
  "chan_at cs (l\<lparr>l_calls := pcs\<rparr>) = chan_at cs l"
  by (simp_all add: fun_eq_iff conn_cb_all)

text \<open>Offering events.\<close>

lemma map_fd_update: "i < length cs \<Longrightarrow> c_fd c' = c_fd (cs ! i) \<Longrightarrow> map c_fd (cs[i := c']) = map c_fd cs"
  by (simp add: map_update) (metis list_update_id nth_map)

lemma all_update: "i < length cs \<Longrightarrow> list_all P cs \<Longrightarrow> P c' \<Longrightarrow> list_all P (cs[i := c'])"
  by (auto simp: list_all_length nth_list_update)

text \<open>
  The identifier stored for a side: that of the call that waits, or else that of the last call that returned, \<open>0\<close>
  before the first. A call that is sending its request has not stored its own yet.
\<close>

definition last_call :: "conn_cb \<Rightarrow> (conn_cb \<times> u64 \<times> CQEvent) list \<Rightarrow> u64" where
  "last_call cb log = last (0 # callers cb log)"

definition marks :: "'a Conn list \<Rightarrow> (conn_cb \<times> u64 \<times> CQEvent) list \<Rightarrow> bool" where
  "marks cs log \<longleftrightarrow> (\<forall>i<length cs. \<forall>d. (\<exists>u. lock_of d (cs ! i) = Waiting u) \<or> last_of d (cs ! i) = last_call (side_cb d i) log)"

lemma marksD: "marks cs log \<Longrightarrow> i < length cs \<Longrightarrow> (\<exists>u. lock_of d (cs ! i) = Waiting u) \<or> last_of d (cs ! i) = last_call (side_cb d i) log"
  by (simp add: marks_def)

lemma marks_update:
  assumes "marks cs log" and "i < length cs" and "\<And>d j. j \<noteq> i \<Longrightarrow> last_call (side_cb d j) log' = last_call (side_cb d j) log"
    and "\<And>d. (\<exists>u. lock_of d c' = Waiting u) \<or> last_of d c' = last_call (side_cb d i) log'"
  shows "marks (cs[i := c']) log'"
  using assms by (auto simp: marks_def nth_list_update)

lemma marks_same:
  assumes "marks cs log" and "i < length cs" and "\<And>d. last_of d c' = last_of d (cs ! i)"
    and "\<And>d u. lock_of d (cs ! i) = Waiting u \<Longrightarrow> lock_of d c' = Waiting u"
  shows "marks (cs[i := c']) log"
  using assms marksD [OF assms(1,2)] by (intro marks_update [OF assms(1,2)]) metis+

lemma marks_accept: "marks cs (log @ [(AcceptCb, ud, ev)]) = marks cs log"
  by (simp add: marks_def last_call_def)

lemma marks_append:
  "marks cs log \<Longrightarrow> (\<And>d. last_of d c = 0) \<Longrightarrow> (\<And>d. callers (side_cb d (length cs)) log = []) \<Longrightarrow> marks (cs @ [c]) log"
  by (auto simp: marks_def nth_append last_call_def less_Suc_eq)

text \<open>What the rest of a server sees: everything but the contents of the channels.\<close>

definition same_but_chans :: "('a, 'l) csys \<Rightarrow> ('a, 'l) csys \<Rightarrow> bool" where
  "same_but_chans s s' \<longleftrightarrow> calls_of (cs_conns s') (cs_lst s') = calls_of (cs_conns s) (cs_lst s) \<and>
     cs_net s' = cs_net s \<and> cs_log s' = cs_log s \<and> map c_fd (cs_conns s') = map c_fd (cs_conns s) \<and>
     (list_all conn_ok (cs_conns s) \<longrightarrow> list_all conn_ok (cs_conns s')) \<and>
     (\<forall>log. marks (cs_conns s) log \<longrightarrow> marks (cs_conns s') log) \<and>
     l_acceptOp (cs_lst s') = l_acceptOp (cs_lst s) \<and> length (cs_conns s') = length (cs_conns s)"

lemma offer_effect:
  assumes "cb_exists (cs_conns s) cb"
  shows "same_but_chans s (offer (cb, ev) s)"
    and "chan_at (cs_conns (offer (cb, ev) s)) (cs_lst (offer (cb, ev) s))
      = (chan_at (cs_conns s) (cs_lst s))(cb := chan_at (cs_conns s) (cs_lst s) cb @ [ev])"
proof -
  have "same_but_chans s (offer (cb, ev) s) \<and>
    chan_at (cs_conns (offer (cb, ev) s)) (cs_lst (offer (cb, ev) s))
      = (chan_at (cs_conns s) (cs_lst s))(cb := chan_at (cs_conns s) (cs_lst s) cb @ [ev])"
  proof (rule conn_cb_cases [of cb])
    fix d i assume cb: "cb = side_cb d i"
    with assms have i: "i < length (cs_conns s)" by simp
    let ?c = "cs_conns s ! i" let ?c' = "set_chan d (chan_of d ?c @ [ev]) ?c"
    have o: "offer (cb, ev) s = s\<lparr>cs_conns := (cs_conns s)[i := ?c']\<rparr>"
      using i by (simp add: cb offer_side_def Let_def)
    show ?thesis
      using i unfolding o same_but_chans_def
      by (simp add: calls_of_same chan_at_update [of _ _ d _ "chan_of d ?c @ [ev]"] map_fd_update cb side_chan_def)
        (auto simp: list_all_length nth_list_update conn_ok_keeps(2) intro: marks_same)
  next
    assume cb: "cb = AcceptCb"
    have "calls_of cs (l\<lparr>l_acceptChan := evs\<rparr>) = calls_of cs l" for cs :: "'a Conn list" and l evs
      by (simp add: fun_eq_iff conn_cb_all)
    moreover have "chan_at cs (l\<lparr>l_acceptChan := evs\<rparr>) = (chan_at cs l)(AcceptCb := evs)" for cs :: "'a Conn list" and l evs
      by (simp add: fun_eq_iff conn_cb_all)
    ultimately show ?thesis by (simp add: cb same_but_chans_def)
  qed
  then show "same_but_chans s (offer (cb, ev) s)"
    and "chan_at (cs_conns (offer (cb, ev) s)) (cs_lst (offer (cb, ev) s))
      = (chan_at (cs_conns s) (cs_lst s))(cb := chan_at (cs_conns s) (cs_lst s) cb @ [ev])" by blast+
qed

lemma cb_exists_length: "length cs' = length cs \<Longrightarrow> cb_exists cs' cb = cb_exists cs cb"
  by (cases cb) auto

lemma offers_effect:
  assumes "\<forall>(cb, ev)\<in>set calls. cb_exists (cs_conns s) cb"
  shows "same_but_chans s (offers calls s) \<and>
    (\<forall>cb. chan_at (cs_conns (offers calls s)) (cs_lst (offers calls s)) cb
      = chan_at (cs_conns s) (cs_lst s) cb @ map snd (filter (\<lambda>x. fst x = cb) calls))"
  using assms
proof (induction calls arbitrary: s)
  case Nil
  then show ?case by (simp add: offers_def same_but_chans_def)
next
  case (Cons x calls)
  obtain cb ev where x: "x = (cb, ev)" by (cases x)
  let ?s = "offer x s"
  have cb: "cb_exists (cs_conns s) cb" using Cons.prems x by simp
  note one = offer_effect [OF cb, of ev, folded x]
  have "length (cs_conns ?s) = length (cs_conns s)" using one(1) by (simp add: same_but_chans_def)
  then have "\<forall>(cb, ev)\<in>set calls. cb_exists (cs_conns ?s) cb"
    using Cons.prems cb_exists_length [of "cs_conns ?s" "cs_conns s"] by auto
  from Cons.IH [OF this] one show ?case
    by (auto simp: offers_def x same_but_chans_def)
qed

section \<open>The invariant of a server\<close>

definition accepted_conns :: "(conn_cb \<times> u64 \<times> CQEvent) list \<Rightarrow> int list" where
  "accepted_conns log = map (\<lambda>(cb, ud, ev). sint (cqe_Res ev))
     (filter (\<lambda>(cb, ud, ev). cb = AcceptCb \<and> CQEvent_Error ev = None) log)"

text \<open>
  The books of the callers, with those of \<^verbatim>\<open>Accept\<close> that wait under some names: a caller may have taken the
  event of another, who then waits in its place.
\<close>

definition calls_as :: "'a Conn list \<Rightarrow> 'a Listener \<Rightarrow> call_pc list \<Rightarrow> conn_cb \<Rightarrow> call_pc list" where
  "calls_as cs l pcs = (calls_of cs l)(AcceptCb := pcs)"

definition booked :: "(conn_cb, 'l) nsys \<Rightarrow> 'a Conn list \<Rightarrow> 'a Listener \<Rightarrow> bool" where
  "booked n cs l \<longleftrightarrow> (\<exists>pcs. renamed (l_calls l) pcs \<and> mail n (calls_as cs l pcs) (chan_at cs l))"

lemma calls_as_simps [simp]:
  "calls_as cs l pcs (side_cb d i) = side_calls d i cs" "calls_as cs l pcs AcceptCb = pcs"
  "(calls_as cs l pcs)(AcceptCb := pcs') = calls_as cs l pcs'"
  by (simp_all add: calls_as_def)

lemma side_idem [simp]:
  "(chan_at cs l)(side_cb d i := side_chan d i cs) = chan_at cs l"
  "(calls_of cs l)(side_cb d i := side_calls d i cs) = calls_of cs l"
  "(calls_as cs l pcs)(side_cb d i := side_calls d i cs) = calls_as cs l pcs"
  by (simp_all add: fun_upd_idem)

lemma calls_as_update:
  "calls_of cs' l = (calls_of cs l)(side_cb d i := xs) \<Longrightarrow> (calls_as cs l pcs)(side_cb d i := xs) = calls_as cs' l pcs"
  by (simp add: calls_as_def fun_upd_twist)

lemma calls_as_listener: "calls_as cs (l\<lparr>l_calls := xs\<rparr>) pcs = calls_as cs l pcs"
  "calls_as cs (l\<lparr>l_calls := xs, l_acceptChan := evs\<rparr>) pcs = calls_as cs l pcs"
  by (simp_all add: calls_as_def calls_of_listener)

definition conn_inv :: "('a, 'l) csys \<Rightarrow> bool" where
  "conn_inv s \<longleftrightarrow> net_inv (cs_net s) \<and> booked (cs_net s) (cs_conns s) (cs_lst s) \<and>
     (\<forall>(ud, cb)\<in>set (ns_accepted (cs_net s)). cb_exists (cs_conns s) cb) \<and>
     list_all conn_ok (cs_conns s) \<and>
     (\<exists>fd. op_Fd (l_acceptOp (cs_lst s)) = Some fd \<and> 0 \<le> fd \<and> fd < 2 ^ 31) \<and>
     (\<forall>(cb, ud, ev)\<in>set (cs_log s). cb \<noteq> AcceptCb \<longrightarrow> cqe_UserData ev = ud) \<and>
     map c_fd (cs_conns s) = accepted_conns (cs_log s) \<and>
     history (cs_net s) (calls_of (cs_conns s) (cs_lst s)) (chan_at (cs_conns s) (cs_lst s)) (cs_log s) \<and>
     marks (cs_conns s) (cs_log s)"

lemma conn_invD:
  assumes "conn_inv s"
  shows "net_inv (cs_net s)" and "booked (cs_net s) (cs_conns s) (cs_lst s)"
    and "(ud, cb) \<in> set (ns_accepted (cs_net s)) \<Longrightarrow> cb_exists (cs_conns s) cb"
    and "list_all conn_ok (cs_conns s)"
    and "i < length (cs_conns s) \<Longrightarrow> conn_ok (cs_conns s ! i)"
    and "\<exists>fd. op_Fd (l_acceptOp (cs_lst s)) = Some fd \<and> 0 \<le> fd \<and> fd < 2 ^ 31"
    and "(cb, ud, ev) \<in> set (cs_log s) \<Longrightarrow> cb \<noteq> AcceptCb \<Longrightarrow> cqe_UserData ev = ud"
    and "map c_fd (cs_conns s) = accepted_conns (cs_log s)"
    and "history (cs_net s) (calls_of (cs_conns s) (cs_lst s)) (chan_at (cs_conns s) (cs_lst s)) (cs_log s)"
    and "marks (cs_conns s) (cs_log s)"
  using assms by (auto simp: conn_inv_def list_all_length)

lemma booked_names:
  assumes "conn_inv s"
  obtains pcs where "renamed (l_calls (cs_lst s)) pcs"
    "mail (cs_net s) (calls_as (cs_conns s) (cs_lst s) pcs) (chan_at (cs_conns s) (cs_lst s))"
  using conn_invD(2) [OF assms] unfolding booked_def by blast

lemma serve_init_inv:
  assumes "net_inv (net_init r)" and "op_Fd (l_acceptOp l) = Some fd" and "0 \<le> fd" and "fd < 2 ^ 31"
    and "l_calls l = []" and "l_acceptChan l = []"
  shows "conn_inv (serve_init r l)"
proof -
  have "calls_of [] l = (\<lambda>cb. [])" "chan_at [] l = (\<lambda>cb. [])"
    using assms(5,6) by (simp_all add: fun_eq_iff conn_cb_all side_calls_def side_chan_def)
  moreover from this have "calls_as [] l [] = (\<lambda>cb. [])" by (simp add: calls_as_def fun_upd_idem)
  ultimately show ?thesis using assms mail_init [of r]
    by (simp add: conn_inv_def booked_def serve_init_def accepted_conns_def marks_def) (simp add: net_init_def history_def)
qed

section \<open>Every step keeps the invariant\<close>

lemma conn_inv_reactor:
  assumes inv: "conn_inv s" and whole: "\<not> ns_torn n'"
    and step: "net_step (cs_net s) n'" and same: "ns_sending n' = ns_sending (cs_net s)"
      "ns_accepted n' = ns_accepted (cs_net s)" "ns_done n' = ns_done (cs_net s) @ calls"
  shows "conn_inv (offers calls (s\<lparr>cs_net := n'\<rparr>))"
proof -
  let ?s = "s\<lparr>cs_net := n'\<rparr>" let ?s' = "offers calls ?s"
  note d = conn_invD [OF inv]
  have n': "net_inv n'" by (rule net_step_inv [OF step d(1) whole])
  have "cb_exists (cs_conns ?s) cb" if "(cb, ev) \<in> set calls" for cb ev
    using done_accepted [OF n', of cb ev] that same(2,3) d(3) by auto
  then have eff: "same_but_chans ?s ?s'"
    "\<And>cb. chan_at (cs_conns ?s') (cs_lst ?s') cb = chan_at (cs_conns s) (cs_lst s) cb @ map snd (filter (\<lambda>x. fst x = cb) calls)"
    using offers_effect [of calls ?s] by auto
  have P: "calls_of (cs_conns ?s') (cs_lst ?s') = calls_of (cs_conns s) (cs_lst s)" using eff(1) by (simp add: same_but_chans_def)
  obtain pcs where pcs: "renamed (l_calls (cs_lst s)) pcs"
    "mail (cs_net s) (calls_as (cs_conns s) (cs_lst s) pcs) (chan_at (cs_conns s) (cs_lst s))"
    using booked_names [OF inv] .
  have "mail n' (calls_as (cs_conns ?s') (cs_lst ?s') pcs) (chan_at (cs_conns ?s') (cs_lst ?s'))"
    using mail_reactor [OF pcs(2) d(1) n' step same eff(2)] P by (simp add: calls_as_def)
  moreover have "l_calls (cs_lst ?s') = l_calls (cs_lst s)" using fun_cong [OF P, of AcceptCb] by simp
  ultimately have "booked n' (cs_conns ?s') (cs_lst ?s')" using pcs(1) unfolding booked_def by auto
  moreover have "history n' (calls_of (cs_conns s) (cs_lst s)) (chan_at (cs_conns ?s') (cs_lst ?s')) (cs_log s)"
    using history_reactor [OF d(9) same(2,3)] eff(2) by (simp add: called_with_def)
  moreover have "cb_exists (cs_conns ?s') cb = cb_exists (cs_conns s) cb" for cb
    using eff(1) by (intro cb_exists_length) (simp add: same_but_chans_def)
  ultimately show ?thesis
    using eff(1) n' d(3,4,6,7,8,10) same(2,3) unfolding conn_inv_def same_but_chans_def by auto
qed

text \<open>A step of a call on one side of a connection: what it has to show.\<close>

lemma conn_inv_side:
  assumes inv: "conn_inv s" and i: "i < length (cs_conns s)" and n': "net_inv n'"
    and P: "calls_of ((cs_conns s)[i := c']) (cs_lst s) = (calls_of (cs_conns s) (cs_lst s))(side_cb d i := xs)"
    and Q: "chan_at ((cs_conns s)[i := c']) (cs_lst s) = (chan_at (cs_conns s) (cs_lst s))(side_cb d i := evs)"
    and m: "\<And>pcs. mail (cs_net s) (calls_as (cs_conns s) (cs_lst s) pcs) (chan_at (cs_conns s) (cs_lst s)) \<Longrightarrow>
       mail n' ((calls_as (cs_conns s) (cs_lst s) pcs)(side_cb d i := xs)) ((chan_at (cs_conns s) (cs_lst s))(side_cb d i := evs))"
    and h: "history n' ((calls_of (cs_conns s) (cs_lst s))(side_cb d i := xs)) ((chan_at (cs_conns s) (cs_lst s))(side_cb d i := evs)) log'"
    and acc: "set (ns_accepted n') \<subseteq> insert (ud, side_cb d i) (set (ns_accepted (cs_net s)))"
    and c': "conn_ok c'" "c_fd c' = c_fd (cs_conns s ! i)" "marks ((cs_conns s)[i := c']) log'"
    and log: "log' = cs_log s \<or> log' = cs_log s @ [(side_cb d i, ud, ev)] \<and> cqe_UserData ev = ud"
  shows "conn_inv (s\<lparr>cs_conns := (cs_conns s)[i := c'], cs_net := n', cs_log := log'\<rparr>)"
proof -
  note dd = conn_invD [OF inv]
  obtain pcs where pcs: "renamed (l_calls (cs_lst s)) pcs"
    "mail (cs_net s) (calls_as (cs_conns s) (cs_lst s) pcs) (chan_at (cs_conns s) (cs_lst s))"
    using booked_names [OF inv] .
  have "booked n' ((cs_conns s)[i := c']) (cs_lst s)"
    using m [OF pcs(2)] pcs(1) Q calls_as_update [OF P, of pcs] unfolding booked_def by auto
  moreover have "cb_exists ((cs_conns s)[i := c']) cb = cb_exists (cs_conns s) cb" for cb
    by (rule cb_exists_length) simp
  moreover have "cb_exists (cs_conns s) cb" if "(u, cb) \<in> set (ns_accepted n')" for u cb
    using that acc dd(3) i by auto
  moreover have "map c_fd ((cs_conns s)[i := c']) = accepted_conns log'"
    using dd(8) log map_fd_update [OF i c'(2)] by (auto simp: accepted_conns_def)
  moreover have "\<forall>(cb, u, e)\<in>set log'. cb \<noteq> AcceptCb \<longrightarrow> cqe_UserData e = u"
    using dd(7) log by auto
  ultimately show ?thesis
    using n' dd(6) h P Q c'(3) all_update [OF i dd(4) c'(1)] unfolding conn_inv_def by auto
qed

lemma conn_inv_io_queue:
  assumes inv: "conn_inv s" and i: "i < length (cs_conns s)" and c: "c = cs_conns s ! i" and lock: "lock_of d c = Unlocked"
    and n: "n = cs_net s" and b: "io_begin d i now b c (ns_net n) = Ok (c', ud, li, req, r')"
    and new: "registered (nr_registry (ns_net n)) ud = None"
  shows "conn_inv (s\<lparr>cs_conns := (cs_conns s)[i := c'],
       cs_net := n\<lparr>ns_net := r', ns_sending := ns_sending n @ [(li, req)], ns_accepted := ns_accepted n @ [(ud, side_cb d i)],
         ns_torn := t\<rparr>\<rparr>)"
proof -
  let ?m = "n\<lparr>ns_net := r', ns_sending := ns_sending n @ [(li, req)], ns_accepted := ns_accepted n @ [(ud, side_cb d i)]\<rparr>"
  note dd = conn_invD [OF inv]
  have ok: "conn_ops_ok c" using dd(5) [OF i] c by (simp add: conn_ok_def)
  then have fd: "0 \<le> c_fd c" "c_fd c < 2 ^ 31" by (simp_all add: conn_ops_ok_def)
  obtain op t where reg: "net_register op (c_fd c) (Some (side_cb d i)) t (ns_net (cs_net s)) = Ok (ud, li, req, r')"
    using io_begin_registers(1) [OF ok b] n by blast
  note call = mail_call [OF _ dd(1) fd reg new [unfolded n] refl]
  have idle: "side_calls d i (cs_conns s) = []" using i c lock by (simp add: side_calls_def)
  let ?P = "calls_of (cs_conns s) (cs_lst s)" and ?Q = "chan_at (cs_conns s) (cs_lst s)"
  have "conn_inv (s\<lparr>cs_conns := (cs_conns s)[i := c'], cs_net := ?m\<lparr>ns_torn := t\<rparr>, cs_log := cs_log s\<rparr>)" for t
  proof (rule conn_inv_side [OF inv i, of _ _ d "[Sending ud li req]" "?Q (side_cb d i)" _ ud])
    show "net_inv (?m\<lparr>ns_torn := t\<rparr>)" using call(1) booked_names [OF inv] n by (metis net_inv_torn)
    show "calls_of ((cs_conns s)[i := c']) (cs_lst s) = ?P(side_cb d i := [Sending ud li req])"
      using calls_of_update [OF i io_begin_fields(1) [OF b, of d], of "cs_lst s"] io_begin_fields(1) [OF b] c by simp
    show "chan_at ((cs_conns s)[i := c']) (cs_lst s) = ?Q(side_cb d i := ?Q (side_cb d i))"
      using io_begin_fields(2) [OF b] c chan_at_same [OF i, of c'] by simp
    show "mail (?m\<lparr>ns_torn := t\<rparr>) ((calls_as (cs_conns s) (cs_lst s) pcs)(side_cb d i := [Sending ud li req])) (?Q(side_cb d i := ?Q (side_cb d i)))"
      if "mail (cs_net s) (calls_as (cs_conns s) (cs_lst s) pcs) ?Q" for pcs
      using call(2) [OF that] idle n by simp
    show "history (?m\<lparr>ns_torn := t\<rparr>) (?P(side_cb d i := [Sending ud li req])) (?Q(side_cb d i := ?Q (side_cb d i))) (cs_log s)"
      using history_call [OF dd(9), of "?m\<lparr>ns_torn := t\<rparr>" "Sending ud li req" "side_cb d i"] idle n by simp
    show "conn_ok c'" using conn_ok_keeps(5) [OF _ b] dd(5) [OF i] c by simp
    show "marks ((cs_conns s)[i := c']) (cs_log s)"
      using io_begin_fields(1,3) [OF b] c lock by (intro marks_same [OF dd(10) i]) auto
  qed (use io_begin_registers(3) [OF ok b] c n in auto)
  then show ?thesis by simp
qed

lemma conn_inv_io_sent:
  assumes inv: "conn_inv s" and i: "i < length (cs_conns s)" and c: "c = cs_conns s ! i"
    and lock: "lock_of d c = Sending ud li req" and n: "n = cs_net s"
    and sd: "ns_sending n = xs @ (li, req) # ys" and r': "chan_send li req (ns_net n) = Some r'"
  shows "conn_inv (s\<lparr>cs_conns := (cs_conns s)[i := set_lock d (Sent ud) c],
       cs_net := n\<lparr>ns_net := r', ns_sending := xs @ ys\<rparr>\<rparr>)"
proof -
  let ?m = "n\<lparr>ns_net := r', ns_sending := xs @ ys\<rparr>"
  note dd = conn_invD [OF inv]
  let ?P = "calls_of (cs_conns s) (cs_lst s)" and ?Q = "chan_at (cs_conns s) (cs_lst s)"
  have one: "side_calls d i (cs_conns s) = [Sending ud li req]" using i c lock by (simp add: side_calls_def)
  note sent = mail_sent [OF _ dd(1) _ sd [unfolded n] r' [unfolded n] refl disjI1 [OF refl], of _ _ "side_cb d i" "[]" ud "[]"]
  have "conn_inv (s\<lparr>cs_conns := (cs_conns s)[i := set_lock d (Sent ud) c], cs_net := ?m, cs_log := cs_log s\<rparr>)"
  proof (rule conn_inv_side [OF inv i, of _ _ d "[Sent ud]" "?Q (side_cb d i)" _ ud])
    show "net_inv ?m" using sent(1) one booked_names [OF inv] n by (metis append_Nil calls_as_simps(1))
    show "calls_of ((cs_conns s)[i := set_lock d (Sent ud) c]) (cs_lst s) = ?P(side_cb d i := [Sent ud])"
      using calls_of_update [OF i, of d "set_lock d (Sent ud) c" "Sent ud"] c by simp
    show "chan_at ((cs_conns s)[i := set_lock d (Sent ud) c]) (cs_lst s) = ?Q(side_cb d i := ?Q (side_cb d i))"
      using c chan_at_same [OF i, of "set_lock d (Sent ud) c"] by simp
    show "mail ?m ((calls_as (cs_conns s) (cs_lst s) pcs)(side_cb d i := [Sent ud])) (?Q(side_cb d i := ?Q (side_cb d i)))"
      if "mail (cs_net s) (calls_as (cs_conns s) (cs_lst s) pcs) ?Q" for pcs
      using sent(2) [OF that] one n by simp
    show "history ?m (?P(side_cb d i := [Sent ud])) (?Q(side_cb d i := ?Q (side_cb d i))) (cs_log s)"
      unfolding by_side side_idem using one n by (intro history_moves [OF dd(9)]) auto
    show "marks ((cs_conns s)[i := set_lock d (Sent ud) c]) (cs_log s)"
      using c lock by (intro marks_same [OF dd(10) i]) auto
  qed (use conn_ok_keeps(1) [OF dd(5) [OF i]] c n in auto)
  then show ?thesis by simp
qed

lemma conn_inv_io_stored:
  assumes inv: "conn_inv s" and i: "i < length (cs_conns s)" and c: "c = cs_conns s ! i" and lock: "lock_of d c = Sent ud"
  shows "conn_inv (s\<lparr>cs_conns := (cs_conns s)[i := io_id d ud c]\<rparr>)"
proof -
  note dd = conn_invD [OF inv]
  let ?P = "calls_of (cs_conns s) (cs_lst s)" and ?Q = "chan_at (cs_conns s) (cs_lst s)"
  have one: "side_calls d i (cs_conns s) = [Sent ud]" using i c lock by (simp add: side_calls_def)
  have "conn_inv (s\<lparr>cs_conns := (cs_conns s)[i := io_id d ud c], cs_net := cs_net s, cs_log := cs_log s\<rparr>)"
  proof (rule conn_inv_side [OF inv i dd(1), of _ d "[Waiting ud]" "?Q (side_cb d i)" _ ud])
    show "calls_of ((cs_conns s)[i := io_id d ud c]) (cs_lst s) = ?P(side_cb d i := [Waiting ud])"
      using calls_of_update [OF i, of d "io_id d ud c" "Waiting ud"] c by simp
    show "chan_at ((cs_conns s)[i := io_id d ud c]) (cs_lst s) = ?Q(side_cb d i := ?Q (side_cb d i))"
      using c chan_at_same [OF i, of "io_id d ud c"] by simp
    show "mail (cs_net s) ((calls_as (cs_conns s) (cs_lst s) pcs)(side_cb d i := [Waiting ud])) (?Q(side_cb d i := ?Q (side_cb d i)))"
      if "mail (cs_net s) (calls_as (cs_conns s) (cs_lst s) pcs) ?Q" for pcs
      using mail_moves [OF that, of "side_cb d i" "[]" ud "[]"] one by simp
    show "history (cs_net s) (?P(side_cb d i := [Waiting ud])) (?Q(side_cb d i := ?Q (side_cb d i))) (cs_log s)"
      unfolding by_side side_idem using one by (intro history_moves [OF dd(9)]) auto
    show "marks ((cs_conns s)[i := io_id d ud c]) (cs_log s)"
      using c marksD [OF dd(10) i] by (intro marks_update [OF dd(10) i]) auto
  qed (use conn_ok_keeps(3) [OF dd(5) [OF i]] c in auto)
  then show ?thesis by simp
qed

text \<open>The event a call receives is its own.\<close>

lemma own_event:
  assumes inv: "conn_inv s" and i: "i < length (cs_conns s)" and lock: "lock_of d (cs_conns s ! i) \<noteq> Unlocked"
    and ch: "chan_of d (cs_conns s ! i) = ev # evs"
  shows "evs = []" and "cqe_UserData ev = call_id (lock_of d (cs_conns s ! i))"
    and "\<not> is_sending (lock_of d (cs_conns s ! i))"
    and "(cqe_UserData ev, side_cb d i) \<notin> set (ns_dropped (cs_net s))"
proof -
  obtain pcs where m: "mail (cs_net s) (calls_as (cs_conns s) (cs_lst s) pcs) (chan_at (cs_conns s) (cs_lst s))"
    using booked_names [OF inv] .
  have "calls_as (cs_conns s) (cs_lst s) pcs (side_cb d i) = [lock_of d (cs_conns s ! i)]"
    "chan_at (cs_conns s) (cs_lst s) (side_cb d i) = ev # evs"
    using i lock ch by (simp_all add: side_calls_def side_chan_def)
  from mail_single [OF m conn_invD(1) [OF inv] this]
  show "evs = []" and "cqe_UserData ev = call_id (lock_of d (cs_conns s ! i))"
    and "\<not> is_sending (lock_of d (cs_conns s ! i))"
    and "(cqe_UserData ev, side_cb d i) \<notin> set (ns_dropped (cs_net s))" by simp_all
qed

lemma idle_side:
  assumes inv: "conn_inv s" and i: "i < length (cs_conns s)" and lock: "lock_of d (cs_conns s ! i) = Unlocked"
  shows "chan_of d (cs_conns s ! i) = []"
proof -
  obtain pcs where "mail (cs_net s) (calls_as (cs_conns s) (cs_lst s) pcs) (chan_at (cs_conns s) (cs_lst s))"
    using booked_names [OF inv] .
  from mail_none [OF this conn_invD(1) [OF inv], of "side_cb d i"] i lock show ?thesis
    by (simp add: side_calls_def side_chan_def)
qed

lemma conn_inv_io_return:
  assumes inv: "conn_inv s" and i: "i < length (cs_conns s)" and c: "c = cs_conns s ! i"
    and lock: "lock_of d c = Waiting ud" and ch: "chan_of d c = ev # evs"
  shows "conn_inv (s\<lparr>cs_conns := (cs_conns s)[i := snd (io_end d ev (set_chan d evs c))],
       cs_log := cs_log s @ [(side_cb d i, ud, ev)]\<rparr>)"
proof -
  let ?c' = "snd (io_end d ev (set_chan d evs c))" and ?log = "cs_log s @ [(side_cb d i, ud, ev)]"
  note dd = conn_invD [OF inv]
  let ?P = "calls_of (cs_conns s) (cs_lst s)" and ?Q = "chan_at (cs_conns s) (cs_lst s)"
  have one: "side_calls d i (cs_conns s) = [Waiting ud]" and Q: "side_chan d i (cs_conns s) = ev # evs"
    using i c lock ch by (simp_all add: side_calls_def side_chan_def)
  have ev: "cqe_UserData ev = ud" using own_event(2) [OF inv i, of d] lock ch c by simp
  have last: "last_of d c = ud" using dd(5) [OF i] c lock by (simp add: conn_ok_def)
  have "conn_inv (s\<lparr>cs_conns := (cs_conns s)[i := ?c'], cs_net := cs_net s, cs_log := ?log\<rparr>)"
  proof (rule conn_inv_side [OF inv i dd(1), of _ d "[]" evs ?log ud ev])
    show "calls_of ((cs_conns s)[i := ?c']) (cs_lst s) = ?P(side_cb d i := [])"
      using calls_of_update [OF i, of d ?c' Unlocked] c by simp
    show "chan_at ((cs_conns s)[i := ?c']) (cs_lst s) = ?Q(side_cb d i := evs)"
      using chan_at_update [OF i, of d ?c' evs] c by simp
    show "mail (cs_net s) ((calls_as (cs_conns s) (cs_lst s) pcs)(side_cb d i := [])) (?Q(side_cb d i := evs))"
      if "mail (cs_net s) (calls_as (cs_conns s) (cs_lst s) pcs) ?Q" for pcs
      using mail_return [OF that, of "side_cb d i" "[]" ud "[]" "[]" ev evs] one Q ev by simp
    show "history (cs_net s) (?P(side_cb d i := [])) (?Q(side_cb d i := evs)) ?log"
      using history_return [OF dd(9), of "side_cb d i" "[]" "Waiting ud" "[]" "[]" ev evs] one Q by simp
    show "marks ((cs_conns s)[i := ?c']) ?log"
    proof (rule marks_update [OF dd(10) i])
      fix e show "(\<exists>u. lock_of e ?c' = Waiting u) \<or> last_of e ?c' = last_call (side_cb e i) ?log"
        using marksD [OF dd(10) i, of e] c last by (cases "e = d") (auto simp: last_call_def)
    qed (simp add: last_call_def)
  qed (use conn_ok_keeps(4) [OF conn_ok_keeps(2) [OF dd(5) [OF i]]] c ev in auto)
  then show ?thesis by simp
qed

lemma conn_inv_deadline:
  assumes inv: "conn_inv s" and i: "i < length (cs_conns s)" and c: "c = cs_conns s ! i" and n: "n = cs_net s"
    and t: "set_deadline d now t c (ns_net n) = Ok (Some (c', r'))"
  shows "conn_inv (s\<lparr>cs_conns := (cs_conns s)[i := c'], cs_net := n\<lparr>ns_net := r'\<rparr>\<rparr>)"
proof -
  note dd = conn_invD [OF inv]
  note f = set_deadline_Ok [OF t]
  let ?n' = "n\<lparr>ns_net := r'\<rparr>" and ?P = "calls_of (cs_conns s) (cs_lst s)" and ?Q = "chan_at (cs_conns s) (cs_lst s)"
  have n': "net_inv ?n'"
    using f(1) dd(1) net_inv_cancel [OF dd(1)] n by auto
  have "outstanding ?n' + (mset (done_pairs n) + mset (ns_dropped n)) = outstanding n + (mset (done_pairs n) + mset (ns_dropped n))"
    using accepted_split [OF n'] accepted_split [OF dd(1)] n by (simp add: done_pairs_def ac_simps)
  then have "outstanding ?n' = outstanding n" by (rule add_right_imp_eq)
  then have m: "mail ?n' P Q = mail n P Q" for P Q
    by (simp add: mail_def done_pairs_def)
  have P: "calls_of ((cs_conns s)[i := c']) (cs_lst s) = ?P" and Q: "chan_at ((cs_conns s)[i := c']) (cs_lst s) = ?Q"
    using f(2,3) c by (intro calls_of_same [OF i] chan_at_same [OF i]; simp)+
  have "conn_inv (s\<lparr>cs_conns := (cs_conns s)[i := c'], cs_net := ?n', cs_log := cs_log s\<rparr>)"
  proof (rule conn_inv_side [OF inv i n', of _ d "side_calls d i (cs_conns s)" "?Q (side_cb d i)" _ 0])
    show "mail ?n' ((calls_as (cs_conns s) (cs_lst s) pcs)(side_cb d i := side_calls d i (cs_conns s))) (?Q(side_cb d i := ?Q (side_cb d i)))"
      if "mail (cs_net s) (calls_as (cs_conns s) (cs_lst s) pcs) ?Q" for pcs
      using that m n by simp
    show "history ?n' (?P(side_cb d i := side_calls d i (cs_conns s))) (?Q(side_cb d i := ?Q (side_cb d i))) (cs_log s)"
      using dd(9) n by (simp add: history_def)
    show "marks ((cs_conns s)[i := c']) (cs_log s)" using f(2,4) c by (intro marks_same [OF dd(10) i]) auto
  qed (use P Q conn_ok_keeps(6) [OF _ t] dd(5) [OF i] f(6) c n in auto)
  then show ?thesis by simp
qed

text \<open>A step of a call of \<^verbatim>\<open>Accept\<close> up to the point where it waits.\<close>

lemma conn_inv_listener:
  assumes inv: "conn_inv s" and n': "net_inv n'" and pcs: "renamed xs pcs"
    and m: "mail n' (calls_as (cs_conns s) (cs_lst s) pcs) (chan_at (cs_conns s) (cs_lst s))"
    and h: "history n' ((calls_of (cs_conns s) (cs_lst s))(AcceptCb := xs)) (chan_at (cs_conns s) (cs_lst s)) (cs_log s)"
    and acc: "set (ns_accepted n') \<subseteq> insert (ud, AcceptCb) (set (ns_accepted (cs_net s)))"
  shows "conn_inv (s\<lparr>cs_lst := (cs_lst s)\<lparr>l_calls := xs\<rparr>, cs_net := n'\<rparr>)"
proof -
  note dd = conn_invD [OF inv]
  have "booked n' (cs_conns s) ((cs_lst s)\<lparr>l_calls := xs\<rparr>)"
    using pcs m by (auto simp: booked_def calls_as_listener calls_of_listener)
  moreover have "cb_exists (cs_conns s) cb" if "(u, cb) \<in> set (ns_accepted n')" for u cb
    using that acc dd(3) by auto
  ultimately show ?thesis
    using n' h dd(4,6,7,8,10) unfolding conn_inv_def by (auto simp: calls_of_listener)
qed

lemma conn_inv_accept_queue:
  assumes inv: "conn_inv s" and l: "l = cs_lst s" and n: "n = cs_net s"
    and b: "Accept_begin l (ns_net n) = Ok (l', ud, li, req, r')" and new: "registered (nr_registry (ns_net n)) ud = None"
  shows "conn_inv (s\<lparr>cs_lst := l',
       cs_net := n\<lparr>ns_net := r', ns_sending := ns_sending n @ [(li, req)], ns_accepted := ns_accepted n @ [(ud, AcceptCb)],
         ns_torn := t\<rparr>\<rparr>)"
proof -
  let ?m = "n\<lparr>ns_net := r', ns_sending := ns_sending n @ [(li, req)], ns_accepted := ns_accepted n @ [(ud, AcceptCb)]\<rparr>"
  note dd = conn_invD [OF inv]
  obtain fd where fd: "op_Fd (l_acceptOp l) = Some fd" "0 \<le> fd" "fd < 2 ^ 31" using dd(6) l by blast
  have l': "l' = l\<lparr>l_calls := l_calls l @ [Sending ud li req]\<rparr>"
    and reg: "net_register (l_acceptOp l) fd (Some AcceptCb) 0 (ns_net n) = Ok (ud, li, req, r')"
    using b fd(1) by (auto simp: Accept_begin_def queue_begin_def go_outcome)
  obtain pcs where pcs: "renamed (l_calls (cs_lst s)) pcs"
    "mail (cs_net s) (calls_as (cs_conns s) (cs_lst s) pcs) (chan_at (cs_conns s) (cs_lst s))"
    using booked_names [OF inv] .
  note call = mail_call [OF pcs(2) dd(1) fd(2,3) reg [unfolded n] new [unfolded n] refl]
  have "renamed (l_calls l @ [Sending ud li req]) (pcs @ [Sending ud li req])"
    using pcs(1) l by (intro renamed_append renamed_one) simp_all
  from conn_inv_listener [OF inv _ this, of "?m\<lparr>ns_torn := t\<rparr>" ud] call
    history_call [OF dd(9), of "?m\<lparr>ns_torn := t\<rparr>" "Sending ud li req" AcceptCb] n l
  show ?thesis unfolding l' by auto
qed

lemma conn_inv_accept_sent:
  assumes inv: "conn_inv s" and l: "l = cs_lst s" and n: "n = cs_net s" and lc: "l_calls l = as @ Sending ud li req # bs"
    and sd: "ns_sending n = xs @ (li, req) # ys" and r': "chan_send li req (ns_net n) = Some r'"
  shows "conn_inv (s\<lparr>cs_lst := l\<lparr>l_calls := as @ Waiting ud # bs\<rparr>, cs_net := n\<lparr>ns_net := r', ns_sending := xs @ ys\<rparr>\<rparr>)"
proof -
  let ?m = "n\<lparr>ns_net := r', ns_sending := xs @ ys\<rparr>"
  note dd = conn_invD [OF inv]
  obtain pcs where pcs: "renamed (as @ Sending ud li req # bs) pcs"
    "mail (cs_net s) (calls_as (cs_conns s) (cs_lst s) pcs) (chan_at (cs_conns s) (cs_lst s))"
    using booked_names [OF inv] lc l by metis
  then obtain as' bs' where p: "pcs = as' @ Sending ud li req # bs'" "renamed as as'" "renamed bs bs'"
    by (auto elim!: renamed_split)
  have P: "calls_as (cs_conns s) (cs_lst s) pcs AcceptCb = as' @ Sending ud li req # bs'" using p(1) by simp
  note sent = mail_sent [OF pcs(2) dd(1) P sd [unfolded n] r' [unfolded n] refl disjI2 [OF refl]]
  have "renamed (as @ [Waiting ud] @ bs) (as' @ [Waiting ud] @ bs')"
    using p(2,3) by (intro renamed_append renamed_one) simp_all
  moreover have "history ?m ((calls_of (cs_conns s) (cs_lst s))(AcceptCb := as @ Waiting ud # bs))
      (chan_at (cs_conns s) (cs_lst s)) (cs_log s)"
    using lc l n by (intro history_moves [OF dd(9)]) auto
  ultimately show ?thesis
    using conn_inv_listener [OF inv, of ?m "as @ Waiting ud # bs" "as' @ Waiting ud # bs'"] sent n l by auto
qed

lemma conn_inv_accept_return:
  assumes inv: "conn_inv s" and l: "l = cs_lst s" and lc: "l_calls l = as @ Waiting ud # bs"
    and ch: "l_acceptChan l = us @ ev # vs" and res: "Accept_end os peer ev l w = (res, w')"
  shows "conn_inv (s\<lparr>cs_lst := l\<lparr>l_calls := as @ bs, l_acceptChan := us @ vs\<rparr>,
       cs_conns := cs_conns s @ (case res of Inl _ \<Rightarrow> [] | Inr c \<Rightarrow> [c]), cs_log := cs_log s @ [(AcceptCb, ud, ev)]\<rparr>)"
proof -
  note dd = conn_invD [OF inv]
  let ?l = "l\<lparr>l_calls := as @ bs, l_acceptChan := us @ vs\<rparr>" and ?log = "cs_log s @ [(AcceptCb, ud, ev)]"
  obtain pcs where pcs: "renamed (as @ Waiting ud # bs) pcs"
    "mail (cs_net s) (calls_as (cs_conns s) (cs_lst s) pcs) (chan_at (cs_conns s) (cs_lst s))"
    using booked_names [OF inv] lc l by metis
  then obtain as1 u bs1 where p: "pcs = as1 @ Waiting u # bs1" "renamed as as1" "renamed bs bs1"
    by (auto elim!: renamed_split)
  have P: "calls_as (cs_conns s) (cs_lst s) pcs AcceptCb = as1 @ Waiting u # bs1"
    and Q: "chan_at (cs_conns s) (cs_lst s) AcceptCb = us @ ev # vs" using p(1) ch l by simp_all
  obtain as2 bs2 where q: "renamed as1 as2" "renamed bs1 bs2"
    "mail (cs_net s) ((calls_as (cs_conns s) (cs_lst s) pcs)(AcceptCb := as2 @ bs2)) ((chan_at (cs_conns s) (cs_lst s))(AcceptCb := us @ vs))"
    using mail_take [OF pcs(2) dd(1) P _ Q] renamed_refl [OF pcs(1)] by auto
  have "renamed (as @ bs) (as2 @ bs2)" using p(2,3) q(1,2) by (intro renamed_append) (blast intro: renamed_trans)+
  with q(3) have ret: "booked (cs_net s) (cs_conns s) ?l"
    unfolding booked_def l by (intro exI [of _ "as2 @ bs2"]) (simp add: calls_as_listener calls_of_listener)
  have hist: "history (cs_net s) (calls_of (cs_conns s) ?l) (chan_at (cs_conns s) ?l) ?log"
    using history_return [OF dd(9), of AcceptCb as "Waiting ud" bs us ev vs] lc Q l by (simp add: calls_of_listener)
  show ?thesis
  proof (cases "CQEvent_Error ev = None")
    case True
    define c where "c = newConn (sint (cqe_Res ev)) (l_addr l) (case peer (l_acceptOp l) of Inl _ \<Rightarrow> None | Inr a \<Rightarrow> Some a)"
    have r: "res = Inr c" using Accept_end_conn [of os peer ev l w] res True by (simp add: c_def)
    have fd: "0 \<le> sint (cqe_Res ev)" using True by (simp add: CQEvent_Error_None)
    have fresh: "lock_of e c = Unlocked" "chan_of e c = []" "c_fd c = sint (cqe_Res ev)" "last_of e c = 0" for e
      by (cases e; simp add: c_def newConn_def)+
    have ops: "conn_ok c" unfolding c_def by (rule newConn_ok [OF fd sint_u32_less])
    have ex: "cb_exists (cs_conns s @ [c]) cb" if "cb_exists (cs_conns s) cb" for cb using that by (cases cb) auto
    have "(u, side_cb e (length (cs_conns s))) \<notin> set (ns_accepted (cs_net s))" for u e
      using dd(3) [of u "side_cb e (length (cs_conns s))"] by auto
    then have "callers (side_cb e (length (cs_conns s))) (cs_log s) = []" for e
      using history_log(1) [OF dd(9)] in_callers by (metis last_in_set)
    then have "marks (cs_conns s @ [c]) (cs_log s)" using fresh(4) by (intro marks_append [OF dd(10)])
    moreover have "booked (cs_net s) (cs_conns s @ [c]) ?l"
      using ret fresh_conn [OF fresh(1,2)] by (simp add: booked_def calls_as_def)
    ultimately show ?thesis using hist fresh_conn [OF fresh(1,2)] dd(1,3,4,6,7,8) True l fresh(3) ops ex
      by (auto simp: conn_inv_def r accepted_conns_def marks_accept)
  next
    case False
    then have "\<exists>e. res = Inl e" using Accept_end_conn [of os peer ev l w] res by auto
    with ret hist dd(1,3,4,6,7,8,10) False l show ?thesis
      by (auto simp: conn_inv_def accepted_conns_def marks_accept)
  qed
qed

lemma offer_net: "cs_net (offer x s) = cs_net s"
  by (cases x; rule conn_cb_cases [of "fst x"]) (auto simp: offer_side_def Let_def)

lemma offers_net [simp]: "cs_net (offers calls s) = cs_net s"
  unfolding offers_def by (induction calls arbitrary: s) (simp_all add: offer_net)

lemma call_step_inv:
  assumes "call_step s s'" and inv: "conn_inv s" and whole: "\<not> ns_torn (cs_net s')"
  shows "conn_inv s'"
  using assms(1)
proof (cases rule: call_step.cases)
  case (io_queue i c d n now b c' ud li req r')
  with whole have "registered (nr_registry (ns_net n)) ud = None" by simp
  with io_queue show ?thesis using conn_inv_io_queue [OF inv] by blast
next
  case (io_sent i c d ud li req n xs ys r')
  then show ?thesis using conn_inv_io_sent [OF inv] by blast
next
  case (io_stored i c d ud)
  then show ?thesis using conn_inv_io_stored [OF inv] by blast
next
  case (deadline i c n d now t c' r')
  then show ?thesis using conn_inv_deadline [OF inv] by blast
next
  case (accept_queue l n l' ud li req r')
  with whole have "registered (nr_registry (ns_net n)) ud = None" by simp
  with accept_queue show ?thesis using conn_inv_accept_queue [OF inv] by blast
next
  case (accept_sent l n as ud li req bs xs ys r')
  then show ?thesis using conn_inv_accept_sent [OF inv] by blast
qed

lemma conn_step_inv:
  assumes "conn_step os peer s s'" and inv: "conn_inv s" and "\<not> ns_torn (cs_net s')"
  shows "conn_inv s'"
  using assms(1)
proof (cases rule: conn_step.cases)
  case (reactor n' calls)
  with assms(3) have "\<not> ns_torn n'" by simp
  with reactor show ?thesis using conn_inv_reactor [OF inv] by blast
next
  case call
  then show ?thesis using call_step_inv inv assms(3) by blast
next
  case (io_return i c d ud ev evs)
  then show ?thesis using conn_inv_io_return [OF inv] by blast
next
  case (accept_return l as ud bs us ev vs w res w')
  with conn_inv_accept_return [OF inv accept_return(2-5)] show ?thesis by simp
qed

inductive_cases call_stepE: "call_step s s'"
inductive_cases conn_stepE: "conn_step os peer s s'"

lemma call_step_torn: "call_step s s' \<Longrightarrow> ns_torn (cs_net s) \<Longrightarrow> ns_torn (cs_net s')"
  by (auto elim!: call_stepE)

lemma conn_step_torn: "conn_step os peer s s' \<Longrightarrow> ns_torn (cs_net s) \<Longrightarrow> ns_torn (cs_net s')"
  by (auto elim!: conn_stepE dest: net_step_torn call_step_torn)

interpretation serve_runs: invariant_system "conn_step os peer" "\<lambda>s. \<not> ns_torn (cs_net s)" conn_inv
  for os peer
  by unfold_locales (use conn_step_torn conn_step_inv in blast)+

section \<open>Lost requests\<close>

text \<open>A call whose request was dropped.\<close>

definition lost :: "side \<Rightarrow> nat \<Rightarrow> u64 \<Rightarrow> ('a, 'l) csys \<Rightarrow> bool" where
  "lost d i ud s \<longleftrightarrow> i < length (cs_conns s) \<and> lock_of d (cs_conns s ! i) = Waiting ud \<and>
     (ud, side_cb d i) \<in> set (ns_dropped (cs_net s))"

lemma lost_no_event: "conn_inv s \<Longrightarrow> lost d i ud s \<Longrightarrow> chan_of d (cs_conns s ! i) = []"
  using own_event(2,4) [of s i d] by (cases "chan_of d (cs_conns s ! i)") (auto simp: lost_def)

lemma side_calls_Waiting:
  "side_calls d i cs = [Waiting ud] \<longleftrightarrow> i < length cs \<and> lock_of d (cs ! i) = Waiting ud"
  by (auto simp: side_calls_def)

lemma lost_iff:
  "lost d i ud s \<longleftrightarrow> calls_of (cs_conns s) (cs_lst s) (side_cb d i) = [Waiting ud] \<and>
     (ud, side_cb d i) \<in> set (ns_dropped (cs_net s))"
  by (simp add: lost_def side_calls_Waiting conj_assoc)

lemma lost_update:
  assumes "lost d i ud s" and "j < length (cs_conns s)" and "lock_of e (cs_conns s ! j) \<noteq> Waiting ud \<or> (e, j) \<noteq> (d, i)"
    and "\<And>x. x \<noteq> e \<Longrightarrow> lock_of x c' = lock_of x (cs_conns s ! j)"
  shows "i < length ((cs_conns s)[j := c']) \<and> lock_of d ((cs_conns s)[j := c'] ! i) = Waiting ud"
  using assms by (cases "j = i"; cases "d = e") (auto simp: lost_def)

lemma lost_call_step:
  assumes "call_step s s'" and lost: "lost d i ud s"
  shows "lost d i ud s' \<and> filter (\<lambda>x. fst x = side_cb d i) (cs_log s') = filter (\<lambda>x. fst x = side_cb d i) (cs_log s)"
  using assms(1)
proof (cases rule: call_step.cases)
  case (io_queue j c e n now b c' ud' li req r')
  have "lock_of e (cs_conns s ! j) \<noteq> Waiting ud" using io_queue by simp
  with lost_update [OF lost io_queue(2), of e c'] io_begin_fields(1) [OF io_queue(6)] lost io_queue
  show ?thesis by (auto simp: lost_def)
next
  case (io_sent j c e ud' li req n xs ys r')
  have "lock_of e (cs_conns s ! j) \<noteq> Waiting ud" using io_sent by simp
  with lost_update [OF lost io_sent(2), of e "set_lock e (Sent ud') c"] lost io_sent show ?thesis by (auto simp: lost_def)
next
  case (io_stored j c e ud')
  have "lock_of e (cs_conns s ! j) \<noteq> Waiting ud" using io_stored by simp
  with lost_update [OF lost io_stored(2), of e "io_id e ud' c"] lost io_stored show ?thesis by (auto simp: lost_def)
next
  case (deadline j c n e now t c' r')
  have "lock_of d ((cs_conns s)[j := c'] ! i) = lock_of d (cs_conns s ! i)"
    using set_deadline_Ok(2) [OF deadline(5)] deadline(2,3) by (cases "j = i") auto
  with lost deadline show ?thesis by (auto simp: lost_def)
next
  case (accept_queue l n l' ud' li req r')
  with lost show ?thesis by (auto simp: lost_def)
next
  case (accept_sent l n as ud' li req bs xs ys r')
  with lost show ?thesis by (auto simp: lost_def)
qed

lemma lost_step:
  assumes "conn_step os peer s s'" and inv: "conn_inv s" and inv': "conn_inv s'" and lost: "lost d i ud s"
  shows "lost d i ud s' \<and> filter (\<lambda>x. fst x = side_cb d i) (cs_log s') = filter (\<lambda>x. fst x = side_cb d i) (cs_log s)"
  using assms(1)
proof (cases rule: conn_step.cases)
  case (reactor n' calls)
  obtain ds where ds: "ns_dropped n' = ns_dropped (cs_net s) @ ds" using net_step_dropped [OF reactor(2)] by blast
  have n': "net_inv n'" using conn_invD(1) [OF inv'] reactor(1) by simp
  have "cb_exists (cs_conns s) cb" if "(cb, ev) \<in> set calls" for cb ev
    using done_accepted [OF n', of cb ev] that reactor(4,5) conn_invD(3) [OF inv] by auto
  then have "same_but_chans (s\<lparr>cs_net := n'\<rparr>) s'"
    using offers_effect [of calls "s\<lparr>cs_net := n'\<rparr>"] reactor(1) by auto
  with lost ds show ?thesis by (simp add: lost_iff same_but_chans_def)
next
  case call
  then show ?thesis using lost_call_step lost by blast
next
  case (io_return j c e ud' ev evs)
  have "(e, j) \<noteq> (d, i)" using lost_no_event [OF inv lost] io_return by auto
  with lost_update [OF lost io_return(2), of e "snd (io_end e ev (set_chan e evs c))"] lost io_return
  show ?thesis by (auto simp: lost_def)
next
  case (accept_return l as ud' bs us ev vs w res w')
  with lost show ?thesis by (auto simp: lost_def nth_append)
qed

definition lost_call :: "('a, 'l) csys \<Rightarrow> side \<Rightarrow> nat \<Rightarrow> u64 \<Rightarrow> ('a, 'l) csys \<Rightarrow> bool" where
  "lost_call s d i ud s' \<longleftrightarrow> conn_inv s' \<and> lost d i ud s' \<and>
     filter (\<lambda>x. fst x = side_cb d i) (cs_log s') = filter (\<lambda>x. fst x = side_cb d i) (cs_log s)"

interpretation lost_runs: invariant_system "conn_step os peer" "\<lambda>s. \<not> ns_torn (cs_net s)" "lost_call s\<^sub>0 d i ud"
  for os peer s\<^sub>0 d i ud
proof (unfold_locales, goal_cases)
  case (1 s s')
  then show ?case using conn_step_torn by blast
next
  case (2 s s')
  then show ?case using conn_step_inv [OF 2(1)] lost_step [OF 2(1)] unfolding lost_call_def by metis
qed

lemma lost_for_ever:
  assumes "(conn_step os peer)\<^sup>*\<^sup>* s s'" and "conn_inv s" and "lost d i ud s" and "\<not> ns_torn (cs_net s')"
  shows "lost d i ud s' \<and> filter (\<lambda>x. fst x = side_cb d i) (cs_log s') = filter (\<lambda>x. fst x = side_cb d i) (cs_log s)"
proof -
  have "lost_call s d i ud s'"
    by (rule lost_runs.run_keeps [OF assms(1)]) (use assms in \<open>simp_all add: lost_call_def\<close>)
  then show ?thesis by (simp add: lost_call_def)
qed

section \<open>A small server\<close>

definition ex_sock :: "nat sock_os" where
  "ex_sock = \<lparr>so_socket = (\<lambda>a b c w. (Inr 3, w + 1)), so_setsockopt = (\<lambda>s a b c w. (None, w + 1)),
     so_setnonblock = (\<lambda>s b w. (None, w + 1)), so_bind = (\<lambda>s a w. (None, w + 1)),
     so_listen = (\<lambda>s n w. (None, w + 1)), so_close = (\<lambda>s w. (None, w + 1))\<rparr>"

definition ex_addr :: TCPAddr where
  "ex_addr = \<lparr>ta_IP = [127, 0, 0, 1], ta_Port = 8080\<rparr>"

definition ex_listener :: "TCPAddr Listener" where
  "ex_listener = \<lparr>l_keepAlive = 0, l_sockFd = 3, l_acceptChan = [], l_acceptOp = AcceptOp 3 0 64 112 200,
     l_stopped = False, l_addr = ex_addr, l_calls = []\<rparr>"

lemma ex_NewListener:
  "NewListener ex_sock (\<lambda>_. Inr ex_addr) 64 200 0 ''127.0.0.1:8080'' 0 = (Inr ex_listener, 5)"
  by (simp add: NewListener_def serverSocket_def setDefaultListenerSockopts_def NewSyscallError_def ex_sock_def
      ex_listener_def Accept_def SizeofSockaddrAny_def)

lemma NewListener_op:
  assumes "NewListener sos resolve raw len ka addr w = (Inr l, w')" and "0 \<le> l_sockFd l" and "l_sockFd l < 2 ^ 31"
  shows "op_Fd (l_acceptOp l) = Some (l_sockFd l)" and "l_calls l = []" and "l_acceptChan l = []"
  using assms by (auto simp: NewListener_def Accept_def sint_of_fd split: sum.splits prod.splits)

lemma serve_inv:
  assumes "NewNet rings opts = Ok (Inr r)" and "\<forall>x\<in>set rings. kring_wf x \<and> live x = []" and "rings \<noteq> []"
    and "NewListener sos resolve raw len ka addr w = (Inr l, w')" and "0 \<le> l_sockFd l" and "l_sockFd l < 2 ^ 31"
    and "(conn_step os peer)\<^sup>*\<^sup>* (serve_init r l) s" and "\<not> ns_torn (cs_net s)"
  shows "conn_inv s"
  by (rule serve_runs.run_keeps [OF assms(7,8)])
    (use serve_init_inv [OF NewNet_inv(1) [OF assms(1-3)] _ assms(5,6)] NewListener_op [OF assms(4-6)] in blast)+

text \<open>A run in which \<^verbatim>\<open>Accept\<close> is called.\<close>

lemma ex_call_step:
  "\<exists>(r :: (kring, conn_cb, unit) NetworkReactor) s u. NewNet [ex_kring] [] = Ok (Inr r) \<and>
     call_step (serve_init r ex_listener) s \<and> ns_accepted (cs_net s) = [(u, AcceptCb)] \<and>
     \<not> ns_torn (cs_net s)"
proof -
  obtain reg :: "conn_cb cbRegistry" where "newCbRegistry 1 fdPerGranule = Ok reg"
    using newCbRegistry_ok [of 1 fdPerGranule] by (auto simp: fdPerGranule_def)
  then obtain r :: "(kring, conn_cb, unit) NetworkReactor" where
    r: "NewNet [ex_kring] [] = Ok (Inr r)" "nr_loops r = [newRingNetEventLoop ex_kring]"
    using ex_kring_wf(3,4) by (simp add: NewNet_def checkRingReq_def)
  have inv: "net_inv (net_init r)" using NewNet_inv(1) [OF r(1)] ex_kring_wf by simp
  then have b: "registry_inv (nr_registry r)" "\<forall>u. registered (nr_registry r) u = None"
    using r(2) ex_kring_wf(2)
    by (simp_all add: net_inv_def net_init_def books_def owed_def finished_def sending_owed_def loop_owed_def newRingNetEventLoop_def)
  obtain n reg' where a: "registry_add 3 (Some AcceptCb) (nr_registry r) = Ok (n, reg')"
    using add_registered [of "nr_registry r" 3 "Some AcceptCb"] b by auto
  then have "\<exists>l' ud li req r'. Accept_begin ex_listener (ns_net (net_init r)) = Ok (l', ud, li, req, r')"
    using r(2) by (simp add: Accept_begin_def queue_begin_def ex_listener_def net_register_def net_init_def loopForFd_def
        fdPerGranule_def Let_def)
  then obtain l' ud li req r' where q: "Accept_begin ex_listener (ns_net (net_init r)) = Ok (l', ud, li, req, r')" by blast
  let ?s = "(serve_init r ex_listener)\<lparr>cs_lst := l', cs_net := (net_init r)\<lparr>ns_net := r', ns_sending := [(li, req)],
      ns_accepted := [(ud, AcceptCb)]\<rparr>\<rparr>"
  have "call_step (serve_init r ex_listener) ?s"
    using call_step.accept_queue [of ex_listener "serve_init r ex_listener" "net_init r" l' ud li req r'] q b
    by (simp add: serve_init_def net_init_def)
  moreover have "ns_accepted (cs_net ?s) = [(ud, AcceptCb)]" "\<not> ns_torn (cs_net ?s)" by (simp_all add: net_init_def)
  ultimately show ?thesis using r(1) by blast
qed

text \<open>States of a server with one connection and a call of \<^verbatim>\<open>Read\<close>: its request lost, or its event offered.\<close>

definition ex_conn :: "CQEvent list \<Rightarrow> TCPAddr Conn" where
  "ex_conn evs = (newConn 4 ex_addr None)\<lparr>c_readLock := Waiting 9, c_lastReadOpID := 9, c_readChan := evs\<rparr>"

definition ex_accepted :: CQEvent where "ex_accepted = \<lparr>cqe_UserData = 8, cqe_Res = 4, cqe_Flags = 0\<rparr>"
definition ex_data :: CQEvent where "ex_data = \<lparr>cqe_UserData = 9, cqe_Res = 100, cqe_Flags = 0\<rparr>"

definition ex_state :: "bool \<Rightarrow> (kring, conn_cb, unit) NetworkReactor \<Rightarrow> (TCPAddr, unit) csys" where
  "ex_state answered r =
     \<lparr>cs_net = (net_init r)\<lparr>ns_accepted := [(8, AcceptCb), (9, ReadCb 0)],
        ns_done := (AcceptCb, ex_accepted) # (if answered then [(ReadCb 0, ex_data)] else []),
        ns_dropped := (if answered then [] else [(9, ReadCb 0)])\<rparr>,
      cs_conns = [ex_conn (if answered then [ex_data] else [])], cs_lst = ex_listener,
      cs_log = [(AcceptCb, 8, ex_accepted)]\<rparr>"

lemma ex_conn_ok: "conn_ok (ex_conn evs)"
proof -
  have "conn_ops_ok (ex_conn evs)"
    using newConn_ops_ok [of 4 ex_addr None] by (simp add: ex_conn_def conn_ops_ok_def)
  moreover have "lock_of d (ex_conn evs) = Waiting u \<Longrightarrow> last_of d (ex_conn evs) = u" for d u
    by (cases d) (simp_all add: ex_conn_def newConn_def)
  ultimately show ?thesis by (simp add: conn_ok_def)
qed

lemma ex_state_inv:
  assumes "net_inv (net_init r)" and "nr_loops r = [newRingNetEventLoop ex_kring]"
  shows "conn_inv (ex_state a r)"
proof -
  let ?n = "cs_net (ex_state a r)" let ?cs = "[ex_conn (if a then [ex_data] else [])]"
  have owed: "owed (net_init r) = {#}" "owed ?n = {#}"
    using assms(2) ex_kring_wf(2)
    by (simp_all add: ex_state_def owed_def net_init_def sending_owed_def loop_owed_def newRingNetEventLoop_def)
  have r: "net_wf r" "registry_inv (nr_registry r)" "\<And>u. registered (nr_registry r) u = None"
    using assms(1) unfolding net_inv_def books_def owed(1) by (simp_all add: net_init_def)
  have "finished ?n = mset (ns_accepted ?n)"
    by (simp add: ex_state_def finished_def ex_accepted_def ex_data_def net_init_def)
  then have n: "net_inv ?n"
    unfolding net_inv_def books_def owed(2) by (simp add: ex_state_def net_init_def r)
  have calls: "calls_of ?cs ex_listener cb = (if cb = ReadCb 0 then [Waiting 9] else [])" for cb
    by (cases cb) (auto simp: side_calls_def ex_conn_def newConn_def ex_listener_def intro!: gr0I)
  have chans: "chan_at ?cs ex_listener cb = (if cb = ReadCb 0 \<and> a then [ex_data] else [])" for cb
    by (cases cb) (auto simp: side_chan_def ex_conn_def newConn_def ex_listener_def)
  have "mail ?n (calls_of ?cs ex_listener) (chan_at ?cs ex_listener)"
  proof (rule mailI)
    fix cb show "mset (map call_id (calls_of ?cs ex_listener cb)) + ids cb (mset (done_pairs ?n))
        = ids cb (mset (ns_accepted ?n)) + mset (map cqe_UserData (chan_at ?cs ex_listener cb))"
      by (auto simp: calls chans ex_state_def done_pairs_def ex_accepted_def ex_data_def)
  qed (auto simp: calls chans ex_state_def split: if_splits)
  moreover have "calls_as ?cs ex_listener [] = calls_of ?cs ex_listener" by (simp add: calls_as_def fun_upd_idem ex_listener_def)
  ultimately have "booked ?n ?cs ex_listener" unfolding booked_def by (intro exI [of _ "[]"]) (simp add: ex_listener_def)
  moreover have "history ?n (calls_of ?cs ex_listener) (chan_at ?cs ex_listener) [(AcceptCb, 8, ex_accepted)]"
    unfolding history_def by (auto simp: calls chans ex_state_def)
  moreover have "marks ?cs [(AcceptCb, 8, ex_accepted)]"
  proof -
    have "(\<exists>u. lock_of d (ex_conn evs) = Waiting u) \<or> last_of d (ex_conn evs) = 0" for d evs
      by (cases d) (simp_all add: ex_conn_def newConn_def)
    then show ?thesis by (simp add: marks_def last_call_def)
  qed
  moreover have "c_fd (ex_conn evs) = 4" for evs by (simp add: ex_conn_def newConn_def)
  moreover have "accepted_conns [(AcceptCb, 8, ex_accepted)] = [4]"
    by (simp add: accepted_conns_def CQEvent_Error_None) (simp add: ex_accepted_def)
  moreover have "op_Fd (l_acceptOp ex_listener) = Some 3" by (simp add: ex_listener_def)
  ultimately show ?thesis using n ex_conn_ok unfolding conn_inv_def by (simp add: ex_state_def)
qed

lemma ex_serve:
  "\<exists>r :: (kring, conn_cb, unit) NetworkReactor. NewNet [ex_kring] [] = Ok (Inr r) \<and> conn_inv (ex_state a r) \<and>
     nr_loops r = [newRingNetEventLoop ex_kring]"
proof -
  obtain reg :: "conn_cb cbRegistry" where "newCbRegistry 1 fdPerGranule = Ok reg"
    using newCbRegistry_ok [of 1 fdPerGranule] by (auto simp: fdPerGranule_def)
  then obtain r :: "(kring, conn_cb, unit) NetworkReactor" where
    r: "NewNet [ex_kring] [] = Ok (Inr r)" "nr_loops r = [newRingNetEventLoop ex_kring]"
    using ex_kring_wf(3,4) by (simp add: NewNet_def checkRingReq_def)
  then show ?thesis using ex_state_inv NewNet_inv(1) [OF r(1)] ex_kring_wf by auto
qed

section \<open>Properties\<close>

text \<open>
  C7. Every event reaches one call. In every run of a server, as long as no request was torn: a \<^verbatim>\<open>Read\<close> or \<^verbatim>\<open>Write\<close>
  that returned did so with the completion of the request it registered itself; an \<^verbatim>\<open>Accept\<close> that returned did so
  with the completion of an accept request of this listener, which may be that of another call. For every callback, the
  events it was called with are those received by calls that returned and those still on offer, none lost and none
  received twice; the requests that registered it are those of calls under way and of calls that returned, each once. A
  connection never has more than one event on offer on a channel, and then the call it is meant for has sent its request
  and is about to receive it.
\<close>

theorem server_events:
  assumes "NewNet rings opts = Ok (Inr r)" and "\<forall>x\<in>set rings. kring_wf x \<and> live x = []" and "rings \<noteq> []"
    and "NewListener sos resolve raw len ka addr w = (Inr l, w')" and "0 \<le> l_sockFd l" and "l_sockFd l < 2 ^ 31"
    and "(conn_step os peer)\<^sup>*\<^sup>* (serve_init r l) s" and "\<not> ns_torn (cs_net s)"
  shows "(\<forall>(cb, ud, ev)\<in>set (cs_log s). (ud, cb) \<in> set (ns_accepted (cs_net s)) \<and>
        (cqe_UserData ev, cb) \<in> set (ns_accepted (cs_net s)) \<and> (cb \<noteq> AcceptCb \<longrightarrow> cqe_UserData ev = ud)) \<and>
     (\<forall>cb. mset (taken cb (cs_log s)) + mset (chan_at (cs_conns s) (cs_lst s) cb) = mset (called_with cb (ns_done (cs_net s)))) \<and>
     (\<forall>cb. mset (map call_id (calls_of (cs_conns s) (cs_lst s) cb)) + mset (callers cb (cs_log s))
        = ids cb (mset (ns_accepted (cs_net s)))) \<and>
     (\<forall>i d ev evs. i < length (cs_conns s) \<longrightarrow> chan_of d (cs_conns s ! i) = ev # evs \<longrightarrow> evs = [] \<and>
        lock_of d (cs_conns s ! i) \<in> {Sent (cqe_UserData ev), Waiting (cqe_UserData ev)})"
proof -
  have inv: "conn_inv s" by (rule serve_inv [OF assms])
  note d = conn_invD [OF inv]
  have "(ud, cb) \<in> set (ns_accepted (cs_net s)) \<and> (cqe_UserData ev, cb) \<in> set (ns_accepted (cs_net s)) \<and>
      (cb \<noteq> AcceptCb \<longrightarrow> cqe_UserData ev = ud)"
    if "(cb, ud, ev) \<in> set (cs_log s)" for cb ud ev
    using d(7) [OF that] history_log [OF d(9) that] done_accepted [OF d(1)] by blast
  moreover have "evs = [] \<and> lock_of e (cs_conns s ! i) \<in> {Sent (cqe_UserData ev), Waiting (cqe_UserData ev)}"
    if i: "i < length (cs_conns s)" and ch: "chan_of e (cs_conns s ! i) = ev # evs" for i e ev evs
  proof -
    have busy: "lock_of e (cs_conns s ! i) \<noteq> Unlocked" using idle_side [OF inv i] ch by fastforce
    from own_event [OF inv i this ch] busy show ?thesis by (cases "lock_of e (cs_conns s ! i)") simp_all
  qed
  ultimately show ?thesis using d(9) unfolding history_def by blast
qed

text \<open>
  C21. Connections are well formed and come from completed accepts: the descriptors of the
  connections are, in order, the results of the successful events with which \<^verbatim>\<open>Accept\<close> returned;
  every connection reads with a receive and writes with a send on its own descriptor, and a
  call that waits has stored its identifier; in every run in which no request was torn.
\<close>

theorem server_conns:
  assumes "NewNet rings opts = Ok (Inr r)" and "\<forall>x\<in>set rings. kring_wf x \<and> live x = []" and "rings \<noteq> []"
    and "NewListener sos resolve raw len ka addr w = (Inr l, w')" and "0 \<le> l_sockFd l" and "l_sockFd l < 2 ^ 31"
    and "(conn_step os peer)\<^sup>*\<^sup>* (serve_init r l) s" and "\<not> ns_torn (cs_net s)"
  shows "map c_fd (cs_conns s) = [sint (cqe_Res ev). (cb, ud, ev) \<leftarrow> cs_log s, cb = AcceptCb \<and> CQEvent_Error ev = None] \<and>
     (\<forall>c\<in>set (cs_conns s). 0 \<le> c_fd c \<and> op_Fd (c_readOp c) = Some (c_fd c) \<and> Code (c_readOp c) = RecvCode \<and>
        op_Fd (c_sendOp c) = Some (c_fd c) \<and> Code (c_sendOp c) = SendCode \<and>
        (\<forall>d ud. lock_of d c = Waiting ud \<longrightarrow> last_of d c = ud))"
proof -
  have inv: "conn_inv s" by (rule serve_inv [OF assms])
  have "[sint (cqe_Res ev). (cb, ud, ev) \<leftarrow> log, cb = AcceptCb \<and> CQEvent_Error ev = None] = accepted_conns log" for log
    by (induction log) (auto simp: accepted_conns_def split: if_splits)
  then show ?thesis
    using conn_invD(4,8) [OF inv] by (auto simp: list_all_iff conn_ok_def conn_ops_ok_def)
qed

text \<open>
  C36. A lost request hangs its caller. Once the publisher has dropped the request of a \<^verbatim>\<open>Read\<close> or
  \<^verbatim>\<open>Write\<close> that waits, the call holds the lock and never returns, in any continuation: no event is
  offered to it, no deadline helps, and no other call on that side of the connection can begin.
\<close>

theorem lost_call_hangs:
  assumes "conn_inv s" and "i < length (cs_conns s)" and "lock_of d (cs_conns s ! i) = Waiting ud"
    and "(ud, side_cb d i) \<in> set (ns_dropped (cs_net s))"
    and "(conn_step os peer)\<^sup>*\<^sup>* s s'" and "\<not> ns_torn (cs_net s')"
  shows "lock_of d (cs_conns s' ! i) = Waiting ud \<and> chan_of d (cs_conns s' ! i) = [] \<and>
     filter (\<lambda>x. fst x = side_cb d i) (cs_log s') = filter (\<lambda>x. fst x = side_cb d i) (cs_log s)"
proof -
  have "lost d i ud s" using assms(2-4) by (simp add: lost_def)
  note l = lost_for_ever [OF assms(5,1) this assms(6)]
  moreover have "conn_inv s'" using serve_runs.run_keeps [OF assms(5,6,1)] .
  ultimately show ?thesis using lost_no_event by (auto simp: lost_def)
qed

theorem lost_call_hangs_witness:
  "\<exists>s :: (TCPAddr, unit) csys. lock_of ReadSide (cs_conns s ! 0) = Waiting 9 \<and> chan_of ReadSide (cs_conns s ! 0) = []"
proof -
  obtain r :: "(kring, conn_cb, unit) NetworkReactor" where r: "conn_inv (ex_state False r)" using ex_serve by blast
  let ?s = "ex_state False r"
  have "0 < length (cs_conns ?s)" "lock_of ReadSide (cs_conns ?s ! 0) = Waiting 9"
    "(9, side_cb ReadSide 0) \<in> set (ns_dropped (cs_net ?s))" "\<not> ns_torn (cs_net ?s)"
    by (simp_all add: ex_state_def ex_conn_def net_init_def)
  from lost_call_hangs [OF r this(1-3) rtranclp.rtrancl_refl [of "conn_step ex_sock (\<lambda>_. Inr ex_addr)"] this(4)]
  show ?thesis by blast
qed




end
