(* ===== verification/Net_Block.thy ===== *)
theory Net_Block
  imports Net_Serve
begin

text \<open>
  Consumers that block. A callback of \<^verbatim>\<open>src/net\<close> is a send on an unbuffered channel: the consumer
  that runs it (\<^verbatim>\<open>cb(uring.CQEvent{...})\<close> in \<^verbatim>\<open>runConsumer\<close>) waits until the caller receives, and only
  then makes its next call. \<open>Net_Serve\<close> lets the consumer go on and keeps the events on the channels;
  here each consumer keeps the calls it still has to make, and takes no other batch before it has
  made them.

  The machine of this theory implements that of \<open>Net_Serve\<close>: putting the calls that are still to be
  made on their channels gives a run of the other machine, so that its theorems hold here. And no
  consumer is held up for good: the caller that its next event is for is always on its way to the
  channel. A batch is taken from the ring and its callbacks from the registry in one step, as there;
  \<open>Net_Batch\<close> takes the batch apart.
\<close>

section \<open>The machine\<close>

text \<open>\<open>bs_calls\<close>: the calls the consumers still have to make, each with the number of its loop.\<close>

record ('a, 'l) bsys =
  bs_srv :: "('a, 'l) csys"
  bs_calls :: "(nat \<times> conn_cb \<times> CQEvent) list"

definition block_init :: "(kring, conn_cb, 'l) NetworkReactor \<Rightarrow> 'a Listener \<Rightarrow> ('a, 'l) bsys" where
  "block_init r l = \<lparr>bs_srv = serve_init r l, bs_calls = []\<rparr>"

definition busy :: "nat \<Rightarrow> (nat \<times> conn_cb \<times> CQEvent) list \<Rightarrow> bool" where
  "busy j calls \<longleftrightarrow> j \<in> fst ` set calls"

text \<open>
  The steps of callers: up to the point where they wait they are those of \<open>call_step\<close>. In \<open>io_receive\<close> and
  \<open>accept_receive\<close> a caller at its channel meets the consumer of loop \<open>j\<close> that is about to send on it; both
  go on. Any caller of \<^verbatim>\<open>Accept\<close> that waits may be the one that meets it.
\<close>

inductive caller_step ::
  "'w sock_os \<Rightarrow> (Operation \<Rightarrow> go_error + 'a) \<Rightarrow> ('a, 'l) bsys \<Rightarrow> ('a, 'l) bsys \<Rightarrow> bool"
  for os peer where
  call: "call_step (bs_srv s) c' \<Longrightarrow> caller_step os peer s (s\<lparr>bs_srv := c'\<rparr>)"
| io_receive: "bs_calls s = xs @ (j, side_cb d i, ev) # ys \<Longrightarrow> \<not> busy j xs \<Longrightarrow> v = bs_srv s \<Longrightarrow>
     i < length (cs_conns v) \<Longrightarrow> c = cs_conns v ! i \<Longrightarrow> lock_of d c = Waiting ud \<Longrightarrow>
     caller_step os peer s (s\<lparr>bs_srv := v\<lparr>cs_conns := (cs_conns v)[i := snd (io_end d ev c)],
       cs_log := cs_log v @ [(side_cb d i, ud, ev)]\<rparr>, bs_calls := xs @ ys\<rparr>)"
| accept_receive: "bs_calls s = xs @ (j, AcceptCb, ev) # ys \<Longrightarrow> \<not> busy j xs \<Longrightarrow> v = bs_srv s \<Longrightarrow>
     l = cs_lst v \<Longrightarrow> l_calls l = as @ Waiting ud # bs \<Longrightarrow>
     Accept_end os peer ev l w = (res, w') \<Longrightarrow>
     caller_step os peer s (s\<lparr>bs_srv := v\<lparr>cs_lst := l\<lparr>l_calls := as @ bs\<rparr>,
       cs_conns := cs_conns v @ (case res of Inl _ \<Rightarrow> [] | Inr c \<Rightarrow> [c]),
       cs_log := cs_log v @ [(AcceptCb, ud, ev)]\<rparr>, bs_calls := xs @ ys\<rparr>)"

inductive block_step ::
  "'w sock_os \<Rightarrow> (Operation \<Rightarrow> go_error + 'a) \<Rightarrow> ('a, 'l) bsys \<Rightarrow> ('a, 'l) bsys \<Rightarrow> bool"
  for os peer where
  background: "background_step (cs_net (bs_srv s)) n' \<Longrightarrow>
     block_step os peer s (s\<lparr>bs_srv := (bs_srv s)\<lparr>cs_net := n'\<rparr>\<rparr>)"
| caller: "caller_step os peer s s' \<Longrightarrow> block_step os peer s s'"
| consume: "\<not> busy j (bs_calls s) \<Longrightarrow> consumer_step j calls (cs_net (bs_srv s)) n' \<Longrightarrow>
     block_step os peer s (s\<lparr>bs_srv := (bs_srv s)\<lparr>cs_net := n'\<rparr>, bs_calls := bs_calls s @ map (Pair j) calls\<rparr>)"

inductive_cases caller_stepE: "caller_step os peer s s'"
inductive_cases block_stepE: "block_step os peer s s'"

section \<open>The abstraction\<close>

text \<open>The channels of a server, filled with the events that \<open>Q\<close> gives for each callback.\<close>

definition fill_conn :: "(conn_cb \<Rightarrow> CQEvent list) \<Rightarrow> nat \<Rightarrow> 'a Conn \<Rightarrow> 'a Conn" where
  "fill_conn Q i c = set_chan ReadSide (Q (ReadCb i)) (set_chan WriteSide (Q (WriteCb i)) c)"

definition fill_chans :: "(conn_cb \<Rightarrow> CQEvent list) \<Rightarrow> ('a, 'l) csys \<Rightarrow> ('a, 'l) csys" where
  "fill_chans Q s = s\<lparr>cs_conns := map (\<lambda>i. fill_conn Q i (cs_conns s ! i)) [0..<length (cs_conns s)],
     cs_lst := (cs_lst s)\<lparr>l_acceptChan := Q AcceptCb\<rparr>\<rparr>"

definition events :: "(nat \<times> conn_cb \<times> CQEvent) list \<Rightarrow> conn_cb \<Rightarrow> CQEvent list" where
  "events calls cb = map (\<lambda>x. snd (snd x)) (filter (\<lambda>x. fst (snd x) = cb) calls)"

definition unblocked :: "('a, 'l) bsys \<Rightarrow> ('a, 'l) csys" where
  "unblocked s = fill_chans (events (bs_calls s)) (bs_srv s)"

lemma fill_conn_fields [simp]:
  "lock_of d (fill_conn Q i c) = lock_of d c" "chan_of d (fill_conn Q i c) = Q (side_cb d i)"
  "last_of d (fill_conn Q i c) = last_of d c" "c_fd (fill_conn Q i c) = c_fd c"
  by (cases d; simp add: fill_conn_def)+

lemma fill_fields [simp]:
  "cs_net (fill_chans Q s) = cs_net s" "cs_log (fill_chans Q s) = cs_log s"
  "length (cs_conns (fill_chans Q s)) = length (cs_conns s)"
  "i < length (cs_conns s) \<Longrightarrow> cs_conns (fill_chans Q s) ! i = fill_conn Q i (cs_conns s ! i)"
  "cs_lst (fill_chans Q s) = (cs_lst s)\<lparr>l_acceptChan := Q AcceptCb\<rparr>"
  by (simp_all add: fill_chans_def)

lemma unblocked_fields [simp]:
  "cs_net (unblocked s) = cs_net (bs_srv s)" "cs_log (unblocked s) = cs_log (bs_srv s)"
  "length (cs_conns (unblocked s)) = length (cs_conns (bs_srv s))"
  by (simp_all add: unblocked_def)

lemma events_simps [simp]:
  "events [] cb = []" "events (xs @ ys) cb = events xs cb @ events ys cb"
  "events ((j, cb', ev) # xs) cb = (if cb' = cb then ev # events xs cb else events xs cb)"
  by (simp_all add: events_def)

lemma events_map [simp]: "events (map (Pair j) calls) cb = map snd (filter (\<lambda>x. fst x = cb) calls)"
  by (induction calls) auto

text \<open>Every way to change a server commutes with filling its channels.\<close>

lemma csys_eqI:
  assumes "cs_net s = cs_net t" and "cs_lst s = cs_lst t" and "cs_log s = cs_log t"
    and "length (cs_conns s) = length (cs_conns t)" and "\<And>i. i < length (cs_conns t) \<Longrightarrow> cs_conns s ! i = cs_conns t ! i"
  shows "s = (t :: ('a, 'l) csys)"
  using assms nth_equalityI [of "cs_conns s" "cs_conns t"] by (cases s; cases t) simp

lemma fill_update:
  assumes "i < length (cs_conns s)"
  shows "fill_chans Q (s\<lparr>cs_conns := (cs_conns s)[i := c]\<rparr>)
     = (fill_chans Q s)\<lparr>cs_conns := (cs_conns (fill_chans Q s))[i := fill_conn Q i c]\<rparr>"
  using assms by (intro csys_eqI) (auto simp: fill_chans_def nth_list_update)

lemma fill_commutes [simp]:
  "fill_chans Q (s\<lparr>cs_net := n\<rparr>) = (fill_chans Q s)\<lparr>cs_net := n\<rparr>"
  "fill_chans Q (s\<lparr>cs_log := h\<rparr>) = (fill_chans Q s)\<lparr>cs_log := h\<rparr>"
  "fill_chans Q (s\<lparr>cs_lst := l\<rparr>) = (fill_chans Q s)\<lparr>cs_lst := l\<lparr>l_acceptChan := Q AcceptCb\<rparr>\<rparr>"
  by (simp_all add: fill_chans_def)

lemma offer_fill: "offer (cb, ev) (fill_chans Q s) = fill_chans (Q(cb := Q cb @ [ev])) s"
proof (rule conn_cb_cases [of cb])
  fix d i assume "cb = side_cb d i"
  then show ?thesis
    by (cases d; intro csys_eqI) (auto simp: offer_side_def Let_def nth_list_update fill_conn_def)
next
  assume "cb = AcceptCb"
  then show ?thesis by (intro csys_eqI) (auto simp: fill_conn_def)
qed

lemma offers_fill: "offers calls (fill_chans Q s) = fill_chans (\<lambda>cb. Q cb @ map snd (filter (\<lambda>x. fst x = cb) calls)) s"
proof (induction calls arbitrary: Q)
  case (Cons x calls)
  obtain cb ev where x: "x = (cb, ev)" by (cases x)
  have "offers (x # calls) (fill_chans Q s) = offers calls (fill_chans (Q(cb := Q cb @ [ev])) s)"
    by (simp add: offers_def x offer_fill)
  also have "\<dots> = fill_chans (\<lambda>cb'. (Q(cb := Q cb @ [ev])) cb' @ map snd (filter (\<lambda>x. fst x = cb') calls)) s"
    by (rule Cons.IH)
  finally show ?case by (simp add: x) (rule arg_cong [where f = "\<lambda>Q. fill_chans Q s"], auto)
qed (simp add: offers_def)

lemma fill_conn_commutes:
  "fill_conn Q i (set_lock d pc c) = set_lock d pc (fill_conn Q i c)"
  "fill_conn Q i (io_id d ud c) = io_id d ud (fill_conn Q i c)"
  by (cases d; simp add: fill_conn_def Conn_Read_id_def Conn_Write_id_def)+

lemma fill_conn_end:
  "fill_conn (Q(side_cb d i := evs)) i (snd (io_end d ev c)) = snd (io_end d ev (set_chan d evs (fill_conn Q i c)))"
  by (cases d; simp add: fill_conn_def Conn_Read_end_def Conn_Write_end_def)

lemma fill_conn_begin:
  "io_begin d self now b c r = Ok (c', ud, li, req, r') \<Longrightarrow>
     io_begin d self now b (fill_conn Q i c) r = Ok (fill_conn Q i c', ud, li, req, r')"
  by (cases d) (auto simp: fill_conn_def Conn_Read_begin_def Conn_Write_begin_def Let_def go_outcome)

lemma fill_conn_deadline:
  "set_deadline d now t c r = Ok (Some (c', r')) \<Longrightarrow>
     set_deadline d now t (fill_conn Q i c) r = Ok (Some (fill_conn Q i c', r'))"
  by (cases d) (auto simp: fill_conn_def SetReadDeadline_def SetWriteDeadline_def go_outcome)

lemma fill_begin:
  "Accept_begin l r = Ok (l', ud, li, req, r') \<Longrightarrow>
     Accept_begin (l\<lparr>l_acceptChan := evs\<rparr>) r = Ok (l'\<lparr>l_acceptChan := evs\<rparr>, ud, li, req, r')"
  by (auto simp: Accept_begin_def go_outcome)

lemma listener_updates: "l\<lparr>l_acceptChan := evs, l_calls := pcs\<rparr> = l\<lparr>l_calls := pcs, l_acceptChan := evs\<rparr>"
  by simp

lemma call_step_fill:
  assumes "call_step s s'"
  shows "call_step (fill_chans Q s) (fill_chans Q s')"
  using assms
proof (cases rule: call_step.cases)
  case (io_queue i c d n now b c' ud li req r')
  then show ?thesis
    using call_step.io_queue [of i "fill_chans Q s" "fill_conn Q i c" d n now b "fill_conn Q i c'" ud li req r']
    by (simp add: fill_update fill_conn_begin)
next
  case (io_sent i c d ud li req n xs ys r')
  then show ?thesis
    using call_step.io_sent [of i "fill_chans Q s" "fill_conn Q i c" d ud li req n xs ys r']
    by (simp add: fill_update fill_conn_commutes)
next
  case (io_stored i c d ud)
  then show ?thesis
    using call_step.io_stored [of i "fill_chans Q s" "fill_conn Q i c" d ud]
    by (simp add: fill_update fill_conn_commutes)
next
  case (deadline i c n d now t c' r')
  then show ?thesis
    using call_step.deadline [of i "fill_chans Q s" "fill_conn Q i c" n d now t "fill_conn Q i c'" r']
    by (simp add: fill_update fill_conn_deadline)
next
  case (accept_queue l n l' ud li req r')
  then show ?thesis
    using call_step.accept_queue [of "cs_lst (fill_chans Q s)" "fill_chans Q s" n "l'\<lparr>l_acceptChan := Q AcceptCb\<rparr>" ud li req r']
    by (simp add: fill_begin)
next
  case (accept_sent l n as ud li req bs xs ys r')
  then show ?thesis
    using call_step.accept_sent [of "cs_lst (fill_chans Q s)" "fill_chans Q s" n as ud li req bs xs ys r']
    by (simp add: listener_updates)
qed

section \<open>Refinement\<close>

definition block_inv :: "('a, 'l) bsys \<Rightarrow> bool" where
  "block_inv s \<longleftrightarrow> conn_inv (unblocked s) \<and> (\<forall>x\<in>set (bs_calls s). cb_exists (cs_conns (bs_srv s)) (fst (snd x)))"

lemma block_invD:
  assumes "block_inv s"
  shows "conn_inv (unblocked s)" and "(j, cb, ev) \<in> set (bs_calls s) \<Longrightarrow> cb_exists (cs_conns (bs_srv s)) cb"
  using assms by (auto simp: block_inv_def)

lemma events_remove:
  "events (xs @ ys) = (events (xs @ (j, cb, ev) # ys))(cb := events xs cb @ events ys cb)"
  by (simp add: fun_eq_iff)

lemma events_outside:
  "(\<And>j ev. (j, cb, ev) \<notin> set calls) \<Longrightarrow> events calls cb = []"
  by (force simp: events_def filter_empty_conv)

text \<open>A call that waits is offered one event at most.\<close>

lemma waiting_event:
  assumes "block_inv s" and c: "bs_calls s = xs @ (j, side_cb d i, ev) # ys" and i: "i < length (cs_conns (bs_srv s))"
    and "lock_of d (cs_conns (bs_srv s) ! i) \<noteq> Unlocked"
  shows "events xs (side_cb d i) = []" and "events ys (side_cb d i) = []"
    and "cqe_UserData ev = call_id (lock_of d (cs_conns (bs_srv s) ! i))"
    and "\<not> is_sending (lock_of d (cs_conns (bs_srv s) ! i))"
proof -
  let ?u = "unblocked s" let ?cb = "side_cb d i"
  have u: "i < length (cs_conns ?u)" "lock_of d (cs_conns ?u ! i) = lock_of d (cs_conns (bs_srv s) ! i)"
    "chan_of d (cs_conns ?u ! i) = events xs ?cb @ ev # events ys ?cb"
    using i c by (simp_all add: unblocked_def)
  then obtain e es where es: "chan_of d (cs_conns ?u ! i) = e # es" by (cases "events xs ?cb") auto
  note own = own_event [OF block_invD(1) [OF assms(1)] u(1) _ es]
  have "es = []" using own(1) u(2) assms(4) by simp
  with es u(3) have "events xs ?cb = []" "events ys ?cb = []" "e = ev" by (auto simp: append_eq_Cons_conv)
  with own(2,3) u(2) assms(4) show "events xs ?cb = []" "events ys ?cb = []"
    "cqe_UserData ev = call_id (lock_of d (cs_conns (bs_srv s) ! i))"
    "\<not> is_sending (lock_of d (cs_conns (bs_srv s) ! i))" by simp_all
qed

text \<open>A new connection has nothing on its channels.\<close>

lemma fill_conn_fresh:
  assumes "\<And>d. chan_of d c = []" and "\<And>d. Q (side_cb d i) = []"
  shows "fill_conn Q i c = c"
  using assms(1) [of ReadSide] assms(1) [of WriteSide] assms(2) [of ReadSide] assms(2) [of WriteSide]
  by (simp add: fill_conn_def)

lemma refines_io_receive:
  assumes inv: "block_inv s" and c: "bs_calls s = xs @ (j, side_cb d i, ev) # ys" and v: "v = bs_srv s"
    and i: "i < length (cs_conns v)" and cc: "c = cs_conns v ! i" and lock: "lock_of d c = Waiting ud"
  shows "conn_step os peer (unblocked s) (unblocked (s\<lparr>bs_srv := v\<lparr>cs_conns := (cs_conns v)[i := snd (io_end d ev c)],
       cs_log := cs_log v @ [(side_cb d i, ud, ev)]\<rparr>, bs_calls := xs @ ys\<rparr>))"
proof -
  let ?Q = "events (bs_calls s)" let ?cb = "side_cb d i"
  note w = waiting_event [OF inv c, of, folded v]
  have Q: "?Q ?cb = [ev]" "events (xs @ ys) = ?Q(?cb := [])"
    using w(1,2) i lock cc events_remove [of xs ys j ?cb ev] c by simp_all
  have step: "conn_step os peer (unblocked s) ((unblocked s)\<lparr>
      cs_conns := (cs_conns (unblocked s))[i := snd (io_end d ev (set_chan d [] (fill_conn ?Q i c)))],
      cs_log := cs_log (unblocked s) @ [(?cb, ud, ev)]\<rparr>)"
    by (rule conn_step.io_return) (use i cc lock Q(1) v in \<open>simp_all add: unblocked_def\<close>)
  have other: "fill_conn (?Q(?cb := [])) m x = fill_conn ?Q m x" if "m \<noteq> i" for m x
    using that by (cases d) (simp_all add: fill_conn_def)
  have "fill_chans (?Q(?cb := [])) (v\<lparr>cs_conns := (cs_conns v)[i := snd (io_end d ev c)]\<rparr>)
      = (fill_chans ?Q v)\<lparr>cs_conns := (cs_conns (fill_chans ?Q v))[i := snd (io_end d ev (set_chan d [] (fill_conn ?Q i c)))]\<rparr>"
    using i by (intro csys_eqI) (auto simp: nth_list_update fill_conn_end other)
  with step Q(2) v show ?thesis by (simp add: unblocked_def)
qed

lemma Accept_end_chan: "Accept_end os peer ev (l\<lparr>l_acceptChan := evs\<rparr>) w = Accept_end os peer ev l w"
  by (simp add: Accept_end_def Let_def split: option.split)

lemma refines_accept_receive:
  assumes inv: "block_inv s" and c: "bs_calls s = xs @ (j, AcceptCb, ev) # ys" and v: "v = bs_srv s"
    and l: "l = cs_lst v" and calls: "l_calls l = as @ Waiting ud # bs"
    and res: "Accept_end os peer ev l w = (res, w')"
  shows "conn_step os peer (unblocked s) (unblocked (s\<lparr>bs_srv := v\<lparr>cs_lst := l\<lparr>l_calls := as @ bs\<rparr>,
       cs_conns := cs_conns v @ (case res of Inl _ \<Rightarrow> [] | Inr c \<Rightarrow> [c]),
       cs_log := cs_log v @ [(AcceptCb, ud, ev)]\<rparr>, bs_calls := xs @ ys\<rparr>))"
proof -
  let ?Q = "events (bs_calls s)" let ?Q' = "events (xs @ ys)"
  let ?new = "case res of Inl _ \<Rightarrow> [] | Inr c \<Rightarrow> [c]"
  have res': "Accept_end os peer ev (cs_lst (unblocked s)) w = (res, w')"
    using res l v by (simp add: unblocked_def Accept_end_chan)
  have step: "conn_step os peer (unblocked s) ((unblocked s)\<lparr>
      cs_lst := (cs_lst (unblocked s))\<lparr>l_calls := as @ bs, l_acceptChan := ?Q' AcceptCb\<rparr>,
      cs_conns := cs_conns (unblocked s) @ ?new, cs_log := cs_log (unblocked s) @ [(AcceptCb, ud, ev)]\<rparr>)"
    unfolding events_simps(2)
    by (rule conn_step.accept_return [OF refl _ _ res'])
      (use c calls l v in \<open>simp_all add: unblocked_def\<close>)
  have old: "(m, side_cb d n, e) \<notin> set (bs_calls s)" if "length (cs_conns v) \<le> n" for m d n e
    using block_invD(2) [OF inv, of m "side_cb d n" e] that v by auto
  have none: "?Q' (side_cb d (length (cs_conns v))) = []" for d
    by (rule events_outside) (use old c in fastforce)
  have same: "fill_conn ?Q' m x = fill_conn ?Q m x" for m x
    by (simp add: c fill_conn_def)
  have fresh: "chan_of d x = []" if "res = Inr x" for d x
    using that res Accept_end_conn [of os peer ev l w] by (cases d; auto simp: newConn_def split: if_splits)
  have conns: "cs_conns (fill_chans ?Q' (v\<lparr>cs_conns := cs_conns v @ ?new\<rparr>)) = cs_conns (fill_chans ?Q v) @ ?new"
  proof (cases res)
    case (Inr x)
    with fill_conn_fresh [of x ?Q' "length (cs_conns v)"] none fresh
    have "fill_conn ?Q (length (cs_conns v)) x = x" unfolding same by blast
    with Inr show ?thesis by (simp add: fill_chans_def same nth_append del: events_simps)
  qed (simp add: fill_chans_def same del: events_simps)
  have "unblocked (s\<lparr>bs_srv := v\<lparr>cs_lst := l\<lparr>l_calls := as @ bs\<rparr>, cs_conns := cs_conns v @ ?new,
       cs_log := cs_log v @ [(AcceptCb, ud, ev)]\<rparr>, bs_calls := xs @ ys\<rparr>)
     = (unblocked s)\<lparr>cs_lst := (cs_lst (unblocked s))\<lparr>l_calls := as @ bs, l_acceptChan := ?Q' AcceptCb\<rparr>,
      cs_conns := cs_conns (unblocked s) @ ?new, cs_log := cs_log (unblocked s) @ [(AcceptCb, ud, ev)]\<rparr>"
    using conns l v by (intro csys_eqI) (simp_all add: unblocked_def fill_chans_def)
  with step show ?thesis by simp
qed

lemma caller_step_refines:
  assumes "caller_step os peer s s'" and inv: "block_inv s"
  shows "conn_step os peer (unblocked s) (unblocked s')"
  using assms(1)
proof (cases rule: caller_step.cases)
  case (call c')
  then show ?thesis using conn_step.call [OF call_step_fill [OF call(2)]] by (simp add: unblocked_def)
next
  case (io_receive xs j d i ev ys v c ud)
  then show ?thesis using refines_io_receive [OF inv io_receive(2,4-7)] by simp
next
  case (accept_receive xs j ev ys v l as ud bs w res w')
  then show ?thesis using refines_accept_receive [OF inv accept_receive(2,4-7)] by simp
qed

lemma block_step_refines:
  assumes "block_step os peer s s'" and inv: "block_inv s"
  shows "conn_step os peer (unblocked s) (unblocked s')"
  using assms(1)
proof (cases rule: block_step.cases)
  case (background n')
  then have "conn_step os peer (unblocked s) (offers [] ((unblocked s)\<lparr>cs_net := n'\<rparr>))"
    using background_history by (intro conn_step.reactor net_step.background) auto
  then show ?thesis using background(1) by (simp add: unblocked_def offers_def)
next
  case caller
  then show ?thesis using caller_step_refines inv by blast
next
  case (consume j calls n')
  then have "conn_step os peer (unblocked s) (offers calls ((unblocked s)\<lparr>cs_net := n'\<rparr>))"
    using consumer_history by (intro conn_step.reactor net_step.consume) auto
  moreover have "events (bs_calls s') = (\<lambda>cb. events (bs_calls s) cb @ map snd (filter (\<lambda>x. fst x = cb) calls))"
    using consume(1) by (simp add: fun_eq_iff)
  then have "offers calls ((unblocked s)\<lparr>cs_net := n'\<rparr>) = unblocked s'"
    using consume(1) offers_fill [of calls "events (bs_calls s)" "(bs_srv s)\<lparr>cs_net := n'\<rparr>"]
    by (simp add: unblocked_def del: events_simps)
  ultimately show ?thesis by simp
qed

lemma accepted_exist:
  assumes "block_inv s" and "(ud, cb) \<in> set (ns_accepted (cs_net (bs_srv s)))"
  shows "cb_exists (cs_conns (bs_srv s)) cb"
  using conn_invD(3) [OF block_invD(1) [OF assms(1)]] assms(2) cb_exists_length [of "cs_conns (unblocked s)"]
  by (metis unblocked_fields(1,3))

lemma call_step_length: "call_step s s' \<Longrightarrow> length (cs_conns s') = length (cs_conns s)"
  by (auto elim!: call_stepE)

lemma cb_exists_append: "cb_exists cs cb \<Longrightarrow> cb_exists (cs @ ds) cb"
  by (cases cb) auto

lemma caller_step_torn: "caller_step os peer s s' \<Longrightarrow> ns_torn (cs_net (bs_srv s)) \<Longrightarrow> ns_torn (cs_net (bs_srv s'))"
  by (auto elim!: caller_stepE dest: call_step_torn)

lemma block_step_torn: "block_step os peer s s' \<Longrightarrow> ns_torn (cs_net (bs_srv s)) \<Longrightarrow> ns_torn (cs_net (bs_srv s'))"
  by (auto elim!: block_stepE dest: background_step_torn caller_step_torn consumer_history(4))

text \<open>What callers do adds connections and takes calls away.\<close>

definition calls_exist :: "('a, 'l) bsys \<Rightarrow> bool" where
  "calls_exist s \<longleftrightarrow> (\<forall>x\<in>set (bs_calls s). cb_exists (cs_conns (bs_srv s)) (fst (snd x)))"

lemma caller_step_exist: "caller_step os peer s s' \<Longrightarrow> calls_exist s \<Longrightarrow> calls_exist s'"
proof (induction rule: caller_step.induct)
  case (call s c')
  then show ?case
    using cb_exists_length [OF call_step_length [OF call(1)]] by (auto simp: calls_exist_def)
next
  case (io_receive s xs j d i ev ys v c ud)
  have "cb_exists ((cs_conns v)[i := snd (io_end d ev c)]) cb = cb_exists (cs_conns v) cb" for cb
    by (rule cb_exists_length) simp
  with io_receive show ?case by (auto simp: calls_exist_def)
next
  case (accept_receive s xs j ev ys v l as ud bs w res w')
  then show ?case by (auto simp: calls_exist_def intro!: cb_exists_append)
qed

lemma block_step_inv:
  assumes step: "block_step os peer s s'" and inv: "block_inv s" and whole: "\<not> ns_torn (cs_net (bs_srv s'))"
  shows "block_inv s'"
proof -
  have u: "conn_inv (unblocked s')"
    using conn_step_inv [OF block_step_refines [OF step inv] block_invD(1) [OF inv]] whole by simp
  have ex: "calls_exist s" using inv by (simp add: block_inv_def calls_exist_def)
  from step have "calls_exist s'"
  proof (cases rule: block_step.cases)
    case (consume j calls n')
    have n': "net_inv n'" using conn_invD(1) [OF u] consume(1) by simp
    have "cb_exists (cs_conns (bs_srv s)) cb" if "(cb, ev) \<in> set calls" for cb ev
      using done_accepted [OF n', of cb ev] that consumer_history(2,3) [OF consume(3)] accepted_exist [OF inv] by auto
    with ex consume(1) show ?thesis by (auto simp: calls_exist_def)
  next
    case caller
    then show ?thesis using ex by (rule caller_step_exist)
  qed (use ex in \<open>simp add: calls_exist_def\<close>)
  with u show ?thesis by (simp add: block_inv_def calls_exist_def)
qed

interpretation block_runs: simulation "block_step os peer" "\<lambda>s. \<not> ns_torn (cs_net (bs_srv s))" block_inv
    "conn_step os peer" unblocked for os peer
proof (unfold_locales, goal_cases)
  case (1 s s')
  then show ?case using block_step_torn by blast
next
  case (2 s s')
  then show ?case using block_step_inv by blast
next
  case (3 s s')
  then show ?case using block_step_refines by blast
qed

section \<open>No consumer is held up for good\<close>

text \<open>\<open>awaited\<close>: some call has sent its request and takes this event; for \<^verbatim>\<open>Read\<close> and \<^verbatim>\<open>Write\<close>, the call that the event is for.\<close>

definition awaited :: "('a, 'l) csys \<Rightarrow> conn_cb \<Rightarrow> CQEvent \<Rightarrow> bool" where
  "awaited v cb ev \<longleftrightarrow> cb_exists (cs_conns v) cb \<and>
     (if cb = AcceptCb then \<exists>u. Waiting u \<in> set (l_calls (cs_lst v))
      else \<exists>pc\<in>set (calls_of (cs_conns v) (cs_lst v) cb). call_id pc = cqe_UserData ev \<and> \<not> is_sending pc)"

lemma block_awaited:
  assumes "block_inv s" and "(j, cb, ev) \<in> set (bs_calls s)"
  shows "awaited (bs_srv s) cb ev"
proof -
  let ?u = "unblocked s"
  note d = conn_invD [OF block_invD(1) [OF assms(1)]]
  have cb: "cb_exists (cs_conns (bs_srv s)) cb" by (rule block_invD(2) [OF assms])
  have "ev \<in> set (events (bs_calls s) cb)" using assms(2) by (force simp: events_def)
  moreover have "chan_at (cs_conns ?u) (cs_lst ?u) cb = events (bs_calls s) cb"
    using cb by (rule_tac conn_cb_cases [of cb]) (auto simp: unblocked_def side_chan_def)
  ultimately have ev: "ev \<in> set (chan_at (cs_conns ?u) (cs_lst ?u) cb)" by simp
  obtain pcs where pcs: "renamed (l_calls (cs_lst ?u)) pcs" "mail (cs_net ?u) (calls_as (cs_conns ?u) (cs_lst ?u) pcs) (chan_at (cs_conns ?u) (cs_lst ?u))"
    using booked_names [OF block_invD(1) [OF assms(1)]] .
  from mail_receiver [OF pcs(2) d(1) ev] obtain pc where
    pc: "pc \<in> set (calls_as (cs_conns ?u) (cs_lst ?u) pcs cb)" "call_id pc = cqe_UserData ev" "\<not> is_sending pc" by blast
  show ?thesis
  proof (rule conn_cb_cases [of cb])
    fix e i assume "cb = side_cb e i"
    with pc cb show ?thesis by (auto simp: awaited_def unblocked_def side_calls_def)
  next
    assume "cb = AcceptCb"
    with renamed_waiting [OF pcs(1) _ pc(3)] pc(1) show ?thesis by (simp add: awaited_def unblocked_def)
  qed
qed

lemma awaited_side:
  "awaited v (side_cb d i) ev \<Longrightarrow> lock_of d (cs_conns v ! i) \<in> {Sent (cqe_UserData ev), Waiting (cqe_UserData ev)}"
  by (cases "lock_of d (cs_conns v ! i)") (auto simp: awaited_def side_calls_def split: if_splits)

text \<open>The next call of a consumer is made by steps of the caller it is for.\<close>

lemma deliver_side:
  assumes aw: "awaited (bs_srv s) (side_cb d i) ev" and c: "bs_calls s = xs @ (j, side_cb d i, ev) # ys" "\<not> busy j xs"
  shows "\<exists>s'. (caller_step os peer)\<^sup>*\<^sup>* s s' \<and> bs_calls s' = xs @ ys \<and> cs_net (bs_srv s') = cs_net (bs_srv s) \<and>
     cs_log (bs_srv s') = cs_log (bs_srv s) @ [(side_cb d i, cqe_UserData ev, ev)]"
proof -
  let ?v = "bs_srv s" let ?c = "cs_conns (bs_srv s) ! i" let ?ud = "cqe_UserData ev"
  have i: "i < length (cs_conns ?v)" using aw by (simp add: awaited_def)
  have receive: "\<exists>s'. caller_step os peer t s' \<and> bs_calls s' = xs @ ys \<and> cs_net (bs_srv s') = cs_net (bs_srv t) \<and>
     cs_log (bs_srv s') = cs_log (bs_srv t) @ [(side_cb d i, ?ud, ev)]"
    if "bs_calls t = bs_calls s" "i < length (cs_conns (bs_srv t))"
      "lock_of d (cs_conns (bs_srv t) ! i) = Waiting ?ud" for t :: "('a, 'b) bsys"
    by (rule exI, rule conjI [OF caller_step.io_receive [OF c(1) [folded that(1)] c(2) refl that(2) refl that(3)]]) simp
  consider "lock_of d ?c = Waiting ?ud" | "lock_of d ?c = Sent ?ud" using awaited_side [OF aw] by blast
  then show ?thesis
  proof cases
    case 1
    with receive [of s] i show ?thesis by blast
  next
    case 2
    let ?t = "s\<lparr>bs_srv := ?v\<lparr>cs_conns := (cs_conns ?v)[i := io_id d ?ud ?c]\<rparr>\<rparr>"
    have "caller_step os peer s ?t" by (rule caller_step.call, rule call_step.io_stored [OF i refl 2])
    moreover obtain s' where "caller_step os peer ?t s'" "bs_calls s' = xs @ ys" "cs_net (bs_srv s') = cs_net ?v"
      "cs_log (bs_srv s') = cs_log ?v @ [(side_cb d i, ?ud, ev)]"
      using receive [of ?t] i by auto
    ultimately show ?thesis by (intro exI [of _ s'] conjI converse_rtranclp_into_rtranclp [of _ s ?t]) auto
  qed
qed

lemma deliver_accept:
  assumes aw: "awaited (bs_srv s) AcceptCb ev" and c: "bs_calls s = xs @ (j, AcceptCb, ev) # ys" "\<not> busy j xs"
  shows "\<exists>s' ud. caller_step os peer s s' \<and> bs_calls s' = xs @ ys \<and> cs_net (bs_srv s') = cs_net (bs_srv s) \<and>
     cs_log (bs_srv s') = cs_log (bs_srv s) @ [(AcceptCb, ud, ev)]"
proof -
  let ?l = "cs_lst (bs_srv s)"
  obtain ud as bs where l: "l_calls ?l = as @ Waiting ud # bs" using aw by (auto simp: awaited_def dest: split_list)
  obtain res w' where e: "Accept_end os peer ev ?l undefined = (res, w')" by (metis surj_pair)
  show ?thesis
    by (rule exI, rule exI, rule conjI [OF caller_step.accept_receive [OF c refl refl l e]]) simp
qed

lemma deliver_call:
  assumes "awaited (bs_srv s) cb ev" and "bs_calls s = xs @ (j, cb, ev) # ys" and "\<not> busy j xs"
  shows "\<exists>s' ud. (caller_step os peer)\<^sup>*\<^sup>* s s' \<and> bs_calls s' = xs @ ys \<and> cs_net (bs_srv s') = cs_net (bs_srv s) \<and>
     cs_log (bs_srv s') = cs_log (bs_srv s) @ [(cb, ud, ev)]"
proof (rule conn_cb_cases [of cb])
  fix d i assume "cb = side_cb d i"
  with deliver_side assms show ?thesis by blast
next
  assume "cb = AcceptCb"
  with deliver_accept [of s ev xs j ys os peer] assms show ?thesis by (metis r_into_rtranclp)
qed

lemma caller_run_block: "(caller_step os peer)\<^sup>*\<^sup>* s s' \<Longrightarrow> (block_step os peer)\<^sup>*\<^sup>* s s'"
  using block_step.caller by (metis mono_rtranclp)

text \<open>\<open>deliveries calls log\<close>: a piece of a log in which the given calls of callbacks have been received.\<close>

definition deliveries :: "(nat \<times> conn_cb \<times> CQEvent) list \<Rightarrow> (conn_cb \<times> u64 \<times> CQEvent) list \<Rightarrow> bool" where
  "deliveries calls log \<longleftrightarrow> map (\<lambda>(cb, ud, ev). (cb, ev)) log = map snd calls"

lemma deliveries_simps [simp]:
  "deliveries [] [] = True" "deliveries (x # calls) ((cb, ud, ev) # log) = (snd x = (cb, ev) \<and> deliveries calls log)"
  by (auto simp: deliveries_def)

lemma deliver_all:
  assumes "block_inv s" and "\<not> ns_torn (cs_net (bs_srv s))"
  shows "\<exists>s' new. (caller_step os peer)\<^sup>*\<^sup>* s s' \<and> bs_calls s' = [] \<and> cs_net (bs_srv s') = cs_net (bs_srv s) \<and>
     cs_log (bs_srv s') = cs_log (bs_srv s) @ new \<and> deliveries (bs_calls s) new"
  using assms
proof (induction "bs_calls s" arbitrary: s)
  case Nil
  then show ?case by (intro exI [of _ s] exI [of _ "[]"]) simp
next
  case (Cons x ys)
  obtain j cb ev where x: "x = (j, cb, ev)" by (cases x)
  then have c: "bs_calls s = [] @ (j, cb, ev) # ys" using Cons.hyps(2) by simp
  have "awaited (bs_srv s) cb ev" by (rule block_awaited [OF Cons.prems(1), of j]) (simp add: c)
  from deliver_call [OF this c, of os peer]
  obtain t ud where t: "(caller_step os peer)\<^sup>*\<^sup>* s t" "bs_calls t = ys" "cs_net (bs_srv t) = cs_net (bs_srv s)"
    "cs_log (bs_srv t) = cs_log (bs_srv s) @ [(cb, ud, ev)]" by (auto simp: busy_def)
  have "block_inv t" using block_runs.run_keeps [OF caller_run_block [OF t(1)]] Cons.prems t(3) by simp
  with Cons.hyps(1) [of t] t Cons.prems(2) obtain s' new where s': "(caller_step os peer)\<^sup>*\<^sup>* t s'" "bs_calls s' = []"
    "cs_net (bs_srv s') = cs_net (bs_srv s)" "cs_log (bs_srv s') = cs_log (bs_srv t) @ new" "deliveries ys new" by auto
  have "(caller_step os peer)\<^sup>*\<^sup>* s s'" using t(1) s'(1) by (rule rtranclp_trans)
  with t s' c show ?case by (intro exI [of _ s'] exI [of _ "(cb, ud, ev) # new"]) simp
qed

lemma block_init_inv:
  assumes "conn_inv (serve_init r l)" and "l_calls l = []" and "l_acceptChan l = []"
  shows "block_inv (block_init r l)" and "unblocked (block_init r l) = serve_init r l"
proof -
  show "unblocked (block_init r l) = serve_init r l"
    using assms(3) by (intro csys_eqI) (simp_all add: block_init_def unblocked_def serve_init_def fill_chans_def)
  with assms(1) show "block_inv (block_init r l)"
    by (simp add: block_inv_def) (simp add: block_init_def serve_init_def)
qed

text \<open>A consumer about to hand the event of a \<^verbatim>\<open>Read\<close> to its caller.\<close>

definition ex_block :: "(kring, conn_cb, unit) NetworkReactor \<Rightarrow> (TCPAddr, unit) bsys" where
  "ex_block r = \<lparr>bs_srv = (ex_state True r)\<lparr>cs_conns := [ex_conn []]\<rparr>, bs_calls = [(0, ReadCb 0, ex_data)]\<rparr>"

lemma ex_block_inv: "conn_inv (ex_state True r) \<Longrightarrow> block_inv (ex_block r)"
proof -
  assume inv: "conn_inv (ex_state True r)"
  have "fill_conn (events [(0, ReadCb 0, ex_data)]) 0 (ex_conn []) = ex_conn [ex_data]"
    by (simp add: fill_conn_def ex_conn_def newConn_def)
  then have "unblocked (ex_block r) = ex_state True r"
    by (intro csys_eqI) (simp_all add: unblocked_def ex_block_def fill_chans_def ex_state_def ex_listener_def)
  with inv show ?thesis by (simp add: block_inv_def) (simp add: ex_block_def)
qed

section \<open>Properties\<close>

text \<open>
  C8. Consumers that block implement the server of the other theorems. In every run in which each
  consumer waits for the receiver of an event before it calls its next callback, as long as no
  request was torn: with the calls that are still to be made put on their channels, the state is
  reached by a run of the server in which consumers do not wait; with the same reactor, the same
  connections up to their channels and the same history of returned calls. An event that a consumer is
  still to hand over has a receiver that has sent its request: the call of \<^verbatim>\<open>Read\<close> or \<^verbatim>\<open>Write\<close> it is for, some
  call of \<^verbatim>\<open>Accept\<close> at the channel.
\<close>

theorem blocking_refines:
  assumes "NewNet rings opts = Ok (Inr r)" and "\<forall>x\<in>set rings. kring_wf x \<and> live x = []" and "rings \<noteq> []"
    and "NewListener sos resolve raw len ka addr w = (Inr l, w')" and "0 \<le> l_sockFd l" and "l_sockFd l < 2 ^ 31"
    and "(block_step os peer)\<^sup>*\<^sup>* (block_init r l) s" and "\<not> ns_torn (cs_net (bs_srv s))"
  shows "(conn_step os peer)\<^sup>*\<^sup>* (serve_init r l) (unblocked s) \<and> block_inv s \<and>
     cs_log (unblocked s) = cs_log (bs_srv s) \<and> cs_net (unblocked s) = cs_net (bs_srv s) \<and>
     (\<forall>j ev d i. (j, side_cb d i, ev) \<in> set (bs_calls s) \<longrightarrow>
        lock_of d (cs_conns (bs_srv s) ! i) \<in> {Sent (cqe_UserData ev), Waiting (cqe_UserData ev)}) \<and>
     (\<forall>j ev. (j, AcceptCb, ev) \<in> set (bs_calls s) \<longrightarrow> (\<exists>ud. Waiting ud \<in> set (l_calls (cs_lst (bs_srv s)))))"
proof -
  note l = NewListener_op [OF assms(4-6)]
  have "conn_inv (serve_init r l)" by (rule serve_init_inv [OF NewNet_inv(1) [OF assms(1-3)] l(1) assms(5,6) l(2,3)])
  note init = block_init_inv [OF this l(2,3)]
  have inv: "block_inv s" using block_runs.run_keeps [OF assms(7,8)] init(1) by simp
  have "lock_of d (cs_conns (bs_srv s) ! i) \<in> {Sent (cqe_UserData ev), Waiting (cqe_UserData ev)}"
    if "(j, side_cb d i, ev) \<in> set (bs_calls s)" for j ev d i
    by (rule awaited_side [OF block_awaited [OF inv that]])
  moreover have "\<exists>ud. Waiting ud \<in> set (l_calls (cs_lst (bs_srv s)))" if "(j, AcceptCb, ev) \<in> set (bs_calls s)" for j ev
    using block_awaited [OF inv that] by (simp add: awaited_def)
  ultimately show ?thesis using block_runs.run_simulated [OF assms(7,8)] init inv by auto
qed

theorem blocking_refines_witness:
  "\<exists>(r :: (kring, conn_cb, unit) NetworkReactor) (s :: (TCPAddr, unit) bsys) u. ns_accepted (cs_net (bs_srv s)) = [(u, AcceptCb)] \<and>
     (conn_step ex_sock (\<lambda>_. Inr ex_addr))\<^sup>*\<^sup>* (serve_init r ex_listener) (unblocked s)"
proof -
  obtain r :: "(kring, conn_cb, unit) NetworkReactor" and c :: "(TCPAddr, unit) csys" and u where
    c: "NewNet [ex_kring] [] = Ok (Inr r)" "call_step (serve_init r ex_listener) c"
    "ns_accepted (cs_net c) = [(u, AcceptCb)]" "\<not> ns_torn (cs_net c)"
    using ex_call_step by blast
  let ?s = "(block_init r ex_listener)\<lparr>bs_srv := c\<rparr>"
  have "block_step ex_sock (\<lambda>_. Inr ex_addr) (block_init r ex_listener) ?s"
    by (rule block_step.caller, rule caller_step.call) (simp add: block_init_def c(2))
  then have run: "(block_step ex_sock (\<lambda>_. Inr ex_addr))\<^sup>*\<^sup>* (block_init r ex_listener) ?s" by blast
  from blocking_refines [OF c(1) _ _ ex_NewListener _ _ run] c(3,4) show ?thesis
    using ex_kring_wf by (intro exI [of _ r] exI [of _ ?s] exI [of _ u]) (auto simp: ex_listener_def)
qed

text \<open>
  No consumer is held up for good. In every state of a run, whatever calls of callbacks the
  consumers still have to make, the callers they are for receive them, in the order in which each
  consumer makes them, by steps of their own: no step of the reactor or of the kernel is needed.
  Afterwards every consumer is free, and each event has ended a call of its callback.
\<close>

theorem deliveries_complete:
  assumes "block_inv s" and "\<not> ns_torn (cs_net (bs_srv s))"
  shows "\<exists>s' new. (caller_step os peer)\<^sup>*\<^sup>* s s' \<and> (\<forall>j. \<not> busy j (bs_calls s')) \<and> cs_net (bs_srv s') = cs_net (bs_srv s) \<and>
     cs_log (bs_srv s') = cs_log (bs_srv s) @ new \<and> map (\<lambda>(cb, ud, ev). (cb, ev)) new = map snd (bs_calls s)"
  using deliver_all [OF assms, of os peer] unfolding deliveries_def busy_def by fastforce

theorem deliveries_complete_witness:
  "\<exists>(s :: (TCPAddr, unit) bsys) s' ud. busy 0 (bs_calls s) \<and> (caller_step ex_sock (\<lambda>_. Inr ex_addr))\<^sup>*\<^sup>* s s' \<and> \<not> busy 0 (bs_calls s') \<and>
     cs_log (bs_srv s') = cs_log (bs_srv s) @ [(ReadCb 0, ud, ex_data)]"
proof -
  obtain r :: "(kring, conn_cb, unit) NetworkReactor" where r: "conn_inv (ex_state True r)" using ex_serve by blast
  have "\<not> ns_torn (cs_net (bs_srv (ex_block r)))" by (simp add: ex_block_def ex_state_def net_init_def)
  from deliveries_complete [OF ex_block_inv [OF r] this, of ex_sock "\<lambda>_. Inr ex_addr"]
  have "\<exists>s' ud. (caller_step ex_sock (\<lambda>_. Inr ex_addr))\<^sup>*\<^sup>* (ex_block r) s' \<and> \<not> busy 0 (bs_calls s') \<and>
     cs_log (bs_srv s') = cs_log (bs_srv (ex_block r)) @ [(ReadCb 0, ud, ex_data)]"
    by (auto simp: ex_block_def)
  moreover have "busy 0 (bs_calls (ex_block r))" by (simp add: ex_block_def busy_def)
  ultimately show ?thesis by blast
qed

end
