(* ===== verification/Reactor_Batch.thy ===== *)
theory Reactor_Batch
  imports Reactor_Net
begin

text \<open>
  A consumer in the middle of a batch. \<^verbatim>\<open>runConsumer\<close> of \<^verbatim>\<open>src/reactor/net.go\<close> fills a buffer with pointers
  into the completion queue, handles the events one after the other, and moves the head of the queue
  only when it is through; meanwhile the publisher queues and submits, and the kernel takes entries
  and posts events. Until then the head of the queue is behind what was already handled. This theory
  shows that everything the others do to a ring does not depend on where the head is, and that the
  pointers in the buffer keep pointing to the events they were made for.
\<close>

section \<open>Moving the head of a completion queue\<close>

lemma AdvanceCQ_kring [simp]:
  "ring_fd (AdvanceCQ n r) = ring_fd r" "inflight (AdvanceCQ n (r' :: kring)) = inflight r'"
  "cq_cap (cqRing (AdvanceCQ n r)) = cq_cap (cqRing r)"
  by (simp_all add: AdvanceCQ_def Let_def cq_cap_def)

lemma AdvanceCQ_inject [simp]: "AdvanceCQ n r = AdvanceCQ n r' \<longleftrightarrow> r = r'"
  by (metis AdvanceCQ_0 AdvanceCQ_add add.right_inverse)

lemma AdvanceCQ_sq: "AdvanceCQ n (r\<lparr>sqRing := s\<rparr>) = (AdvanceCQ n r)\<lparr>sqRing := s\<rparr>"
  by (simp add: AdvanceCQ_def Let_def)

lemma AdvanceCQ_inflight: "AdvanceCQ n (r\<lparr>inflight := us\<rparr>) = (AdvanceCQ n r)\<lparr>inflight := us\<rparr>"
  by (simp add: AdvanceCQ_def Let_def)

lemma AdvanceCQ_post: "AdvanceCQ n (kernel_post ev r) = kernel_post ev (AdvanceCQ n r)"
  by (simp add: AdvanceCQ_def kernel_post_def Let_def)

lemma AdvanceCQ_consume: "AdvanceCQ n (kernel_consume m r) = kernel_consume m (AdvanceCQ n r)"
  by (simp add: kernel_consume_def AdvanceCQ_sq)

lemmas AdvanceCQ_commutes = AdvanceCQ_sq AdvanceCQ_inflight AdvanceCQ_post AdvanceCQ_consume

text \<open>The kernel does the same with a head that is further on: there is only more room.\<close>

lemma kernel_step_advance:
  assumes "kernel_step r r'" and wf: "kring_wf r" and n: "n \<le> length (cq_ready (cqRing r))"
  shows "kernel_step (AdvanceCQ (of_nat n) r) (AdvanceCQ (of_nat n) r')"
  using assms(1)
proof (cases rule: kernel_step.cases)
  case (take_sqes m)
  then show ?thesis
    using kernel_step.take_sqes [of m "AdvanceCQ (of_nat n) r"] by (simp add: AdvanceCQ_commutes del: length_sq_published)
next
  case (complete ev)
  have "cq_wf (cqRing r)" using wf by (simp add: kring_wf_def)
  from AdvanceCQ_ok(2) [OF this n] complete(3)
  have "length (cq_ready (cqRing (AdvanceCQ (of_nat n) r))) < cq_cap (cqRing (AdvanceCQ (of_nat n) r))"
    by (simp del: length_cq_ready)
  with complete(1,2) show ?thesis
    using kernel_step.complete [of ev "AdvanceCQ (of_nat n) r"] by (simp add: AdvanceCQ_commutes del: length_cq_ready)
next
  case (set_flags f)
  then show ?thesis using kernel_step.set_flags [of "AdvanceCQ (of_nat n) r" f] by (simp add: AdvanceCQ_commutes)
qed

lemma kernel_steps_advance:
  assumes "kernel_step\<^sup>*\<^sup>* r r'" and wf: "kring_wf r" and n: "n \<le> length (cq_ready (cqRing r))"
  shows "kernel_step\<^sup>*\<^sup>* (AdvanceCQ (of_nat n) r) (AdvanceCQ (of_nat n) r')"
  using assms(1)
proof (induction rule: rtranclp_induct)
  case (step s t)
  have "kernel_frame r s" by (rule kernel_steps_frame [OF step.hyps(1) wf])
  then obtain new where "kring_wf s" "cq_ready (cqRing s) = cq_ready (cqRing r) @ new" by (auto simp: kernel_frame_def)
  with kernel_step_advance [OF step.hyps(2)] n
  have "kernel_step (AdvanceCQ (of_nat n) s) (AdvanceCQ (of_nat n) t)" by (simp del: length_cq_ready)
  with step.IH show ?case by (rule rtranclp.rtrancl_into_rtrancl)
qed simp

text \<open>Queueing and flushing use the other queue only.\<close>

lemma NextSQE_advance:
  "NextSQE r = Ok (i, err, r') \<Longrightarrow> NextSQE (AdvanceCQ n r) = Ok (i, err, AdvanceCQ n r')"
  by (auto simp: NextSQE_def Let_def AdvanceCQ_sq split: if_splits)

lemma NextSQE_same_cq: "NextSQE r = Ok (i, err, r') \<Longrightarrow> cqRing r' = cqRing r"
  by (auto simp: NextSQE_def Let_def split: if_splits)

lemma QueueSQE_advance:
  assumes "QueueSQE spec op fl ud r = Ok (err, r')"
  shows "QueueSQE spec op fl ud (AdvanceCQ n r) = Ok (err, AdvanceCQ n r')" and "cqRing r' = cqRing r"
proof -
  from assms obtain i e r1 where nx: "NextSQE r = Ok (i, e, r1)"
    by (auto simp: QueueSQE_def split: outcome.splits)
  with assms NextSQE_advance [OF nx, of n] show "QueueSQE spec op fl ud (AdvanceCQ n r) = Ok (err, AdvanceCQ n r')"
    by (auto simp: QueueSQE_def write_sqe_def AdvanceCQ_sq go_outcome split: option.splits)
  from assms nx NextSQE_same_cq [OF nx] show "cqRing r' = cqRing r"
    by (auto simp: QueueSQE_def write_sqe_def go_outcome split: option.splits)
qed

lemma flushSQ_advance:
  "flushSQ r = Ok (c, r') \<Longrightarrow> flushSQ (AdvanceCQ n r) = Ok (c, AdvanceCQ n r')"
  by (auto simp: flushSQ_def Let_def AdvanceCQ_sq go_outcome split: if_splits)

text \<open>The part of \<open>publish_request\<close> that uses the ring.\<close>

definition queue_request :: "u64 \<Rightarrow> u64 \<Rightarrow> subSqeRequest \<Rightarrow> 'k Ring_scheme \<Rightarrow> (go_error option \<times> 'k Ring_scheme) outcome" where
  "queue_request spec spec2 req r =
     (if rq_timeout req = 0 then QueueSQE spec (rq_op req) (rq_flags req) (rq_userData req) r
      else obind (QueueSQE spec (rq_op req) (rq_flags req OR SqeIOLinkFlag) (rq_userData req) r) (\<lambda>(err, r1).
        if err = None then QueueSQE spec2 (LinkTimeout (rq_timeout req)) 0 timeoutNonce r1 else Ok (err, r1)))"

lemma publish_request_ring:
  "publish_request spec spec2 req l reg = obind (queue_request spec spec2 req (nl_ring l)) (\<lambda>(err, r').
     let l' = l\<lparr>nl_submitAllowed := 1, nl_ring := r'\<rparr>
     in if err \<noteq> None
        then obind (registry_pop (RequestID_fd (rq_userData req)) (RequestID_nonce (rq_userData req)) reg)
               (\<lambda>(_, reg'). Ok (err, l', reg'))
        else Ok (None, l', reg))"
  by (cases "rq_timeout req = 0") (simp_all add: publish_request_def queue_request_def Let_def)

lemma queue_request_advance:
  assumes "queue_request spec spec2 req r = Ok (err, r')"
  shows "queue_request spec spec2 req (AdvanceCQ n r) = Ok (err, AdvanceCQ n r')" and "cqRing r' = cqRing r"
proof -
  have "queue_request spec spec2 req (AdvanceCQ n r) = Ok (err, AdvanceCQ n r') \<and> cqRing r' = cqRing r"
  proof (cases "rq_timeout req = 0")
    case True
    with assms QueueSQE_advance [of spec _ _ _ r err r'] show ?thesis by (simp add: queue_request_def)
  next
    case False
    with assms obtain e1 r1 where one:
      "QueueSQE spec (rq_op req) (rq_flags req OR SqeIOLinkFlag) (rq_userData req) r = Ok (e1, r1)"
      "(if e1 = None then QueueSQE spec2 (LinkTimeout (rq_timeout req)) 0 timeoutNonce r1 else Ok (e1, r1)) = Ok (err, r')"
      by (auto simp: queue_request_def go_outcome)
    with False QueueSQE_advance [OF one(1)] QueueSQE_advance [of spec2 _ _ _ r1 err r'] show ?thesis
      by (auto simp: queue_request_def split: if_splits)
  qed
  then show "queue_request spec spec2 req (AdvanceCQ n r) = Ok (err, AdvanceCQ n r')" and "cqRing r' = cqRing r"
    by simp_all
qed

lemma publish_request_advance:
  assumes p: "publish_request spec spec2 req l reg = Ok (err, l', reg')"
  shows "publish_request spec spec2 req (l\<lparr>nl_ring := AdvanceCQ n (nl_ring l)\<rparr>) reg
      = Ok (err, l'\<lparr>nl_ring := AdvanceCQ n (nl_ring l')\<rparr>, reg')"
    and "cqRing (nl_ring l') = cqRing (nl_ring l)"
proof -
  obtain e r' where q: "queue_request spec spec2 req (nl_ring l) = Ok (e, r')"
    using p by (auto simp: publish_request_ring go_outcome)
  note a = queue_request_advance [OF q]
  show "publish_request spec spec2 req (l\<lparr>nl_ring := AdvanceCQ n (nl_ring l)\<rparr>) reg
      = Ok (err, l'\<lparr>nl_ring := AdvanceCQ n (nl_ring l')\<rparr>, reg')"
    using p by (auto simp: publish_request_ring q a(1) Let_def go_outcome split: if_splits)
  show "cqRing (nl_ring l') = cqRing (nl_ring l)"
    using p a(2) by (auto simp: publish_request_ring q Let_def go_outcome split: if_splits)
qed

section \<open>Submitting with another head\<close>

text \<open>
  A kernel that does with one ring what another kernel does with the same ring and another head, and
  nothing otherwise. It conforms when the other does.
\<close>

definition moved_kernel :: "kring kernel \<Rightarrow> nat \<Rightarrow> kring \<Rightarrow> kring kernel" where
  "moved_kernel k n r trap args x =
     (if x = AdvanceCQ (of_nat n) r then case k trap args r of (c, e, r') \<Rightarrow> (c, e, AdvanceCQ (of_nat n) r')
      else (0, 0, x))"

lemma moved_kernel_conforms:
  assumes k: "kernel_conforms k" and wf: "kring_wf r" and n: "n \<le> length (cq_ready (cqRing r))"
  shows "kernel_conforms (moved_kernel k n r)"
  unfolding kernel_conforms_def
proof (intro allI)
  fix trap args x
  obtain c e r' where q: "k trap args r = (c, e, r')" by (metis prod_cases3)
  have "kernel_step\<^sup>*\<^sup>* r r'" using k q unfolding kernel_conforms_def by (metis snd_conv)
  then show "kernel_step\<^sup>*\<^sup>* x (snd (snd (moved_kernel k n r trap args x)))"
    using kernel_steps_advance [OF _ wf n] q by (simp add: moved_kernel_def)
qed

lemma Submit_advance:
  assumes k: "kernel_conforms k" and wf: "kring_wf r" and n: "n \<le> length (cq_ready (cqRing r))"
    and s: "Submit k r = Ok (c, err, r')"
  shows "\<exists>k'. kernel_conforms k' \<and> Submit k' (AdvanceCQ (of_nat n) r) = Ok (c, err, AdvanceCQ (of_nat n) r')"
proof -
  obtain cnt s' where fl: "flushSQ r = Ok (cnt, r\<lparr>sqRing := s'\<rparr>)" "sq_wf s'"
    using flushSQ_ok [of r] wf by (auto simp: kring_wf_def)
  let ?r1 = "r\<lparr>sqRing := s'\<rparr>"
  have r1: "kring_wf ?r1" "n \<le> length (cq_ready (cqRing ?r1))"
    using wf fl(2) n by (simp_all add: kring_wf_def)
  have en: "sysEnter (moved_kernel k n ?r1) fd a b f m z (AdvanceCQ (of_nat n) ?r1)
      = (case sysEnter k fd a b f m z ?r1 of (c, e, r2) \<Rightarrow> (c, e, AdvanceCQ (of_nat n) r2))" for fd a b f m z
    by (simp add: sysEnter_def sysEnter2_def RawSyscall6_def Syscall6_def moved_kernel_def Let_def split: prod.split)
  have ne: "needsEnter (AdvanceCQ (of_nat n) ?r1) 0 = needsEnter ?r1 0" by (simp add: needsEnter_def)
  have "Submit (moved_kernel k n ?r1) (AdvanceCQ (of_nat n) r) = Ok (c, err, AdvanceCQ (of_nat n) r')"
    using s fl(1) flushSQ_advance [OF fl(1), of "of_nat n"] ne en
    by (auto simp: Submit_def Let_def split: prod.splits if_splits)
  then show ?thesis using moved_kernel_conforms [OF k r1] by blast
qed

lemma net_submit_advance:
  assumes k: "kernel_conforms k" and wf: "kring_wf (nl_ring l)" and n: "n \<le> length (cq_ready (cqRing (nl_ring l)))"
    and s: "net_submit k l = Ok (err, l')"
  shows "\<exists>k'. kernel_conforms k' \<and> net_submit k' (l\<lparr>nl_ring := AdvanceCQ (of_nat n) (nl_ring l)\<rparr>)
     = Ok (err, l'\<lparr>nl_ring := AdvanceCQ (of_nat n) (nl_ring l')\<rparr>)"
proof (cases "nl_submitAllowed l = 1")
  case False
  with s k show ?thesis by (auto simp: net_submit_def)
next
  case True
  with s obtain c e r' where q: "Submit k (nl_ring l) = Ok (c, e, r')"
    by (auto simp: net_submit_def go_outcome)
  from Submit_advance [OF k wf n q] obtain k' where k': "kernel_conforms k'"
    "Submit k' (AdvanceCQ (of_nat n) (nl_ring l)) = Ok (c, e, AdvanceCQ (of_nat n) r')" by blast
  with True s q have "net_submit k' (l\<lparr>nl_ring := AdvanceCQ (of_nat n) (nl_ring l)\<rparr>)
      = Ok (err, l'\<lparr>nl_ring := AdvanceCQ (of_nat n) (nl_ring l')\<rparr>)"
    by (auto simp: net_submit_def Let_def split: if_splits)
  with k'(1) show ?thesis by blast
qed

section \<open>Where a consumer is\<close>

text \<open>
  \<open>Between\<close>: the consumer has no events. \<open>InBatch n i buff\<close>: \<^verbatim>\<open>PeekCQEventBatch\<close> has put \<open>n\<close> pointers into
  the buffer, and the consumer is about to handle the one at \<open>i\<close>.
\<close>

datatype batch_pos = Between | InBatch nat nat "cqe_ptr option list"

fun handled_events :: "batch_pos \<Rightarrow> nat" where
  "handled_events Between = 0"
| "handled_events (InBatch n i buff) = i"

fun batch_ok :: "kring \<Rightarrow> batch_pos \<Rightarrow> bool" where
  "batch_ok r Between = kring_wf r"
| "batch_ok r (InBatch n i buff) =
     (kring_wf r \<and> i \<le> n \<and> n \<le> length (cq_ready (cqRing r)) \<and> n \<le> length buff \<and>
      take n buff = map (\<lambda>m. Some (cqe_ptr_of (cq_kHead (cqRing r) + of_nat m) (cq_kRingMask (cqRing r)))) [0..<n])"

lemma batch_ok_wf: "batch_ok r pos \<Longrightarrow> kring_wf r"
  and batch_ok_handled: "batch_ok r pos \<Longrightarrow> handled_events pos \<le> length (cq_ready (cqRing r))"
  by (cases pos; simp)+

lemma batch_ok_extends:
  assumes "batch_ok r pos" and "kring_wf r'" and "cq_kHead (cqRing r') = cq_kHead (cqRing r)"
    and "cq_kRingMask (cqRing r') = cq_kRingMask (cqRing r)" and "cq_ready (cqRing r') = cq_ready (cqRing r) @ new"
  shows "batch_ok r' pos"
proof -
  have "length (cq_ready (cqRing r)) \<le> length (cq_ready (cqRing r'))" by (simp only: assms(5) length_append)
  with assms(1-4) show ?thesis by (cases pos) (auto simp del: length_cq_ready)
qed

lemma batch_ok_frame: "batch_ok r pos \<Longrightarrow> kernel_frame r r' \<Longrightarrow> batch_ok r' pos"
  by (auto simp: kernel_frame_def intro: batch_ok_extends)

text \<open>The pointer at \<open>i\<close> reads the event \<open>i\<close> places behind the head, whatever was posted since.\<close>

lemma batch_pointer:
  assumes "batch_ok r (InBatch n i buff)" and "m < n"
  shows "\<exists>q. buff ! m = Some q \<and> q = cqe_ptr_of (cq_kHead (cqRing r) + of_nat m) (cq_kRingMask (cqRing r)) \<and>
     cqe_at r q = Ok (cq_ready (cqRing r) ! m)"
proof -
  have "buff ! m = take n buff ! m" using assms(2) by simp
  also have "\<dots> = Some (cqe_ptr_of (cq_kHead (cqRing r) + of_nat m) (cq_kRingMask (cqRing r)))"
    using assms by simp
  finally have b: "buff ! m = \<dots>" .
  have "cq_wf (cqRing r)" using assms(1) by (simp add: kring_wf_def)
  moreover have "m < length (cq_ready (cqRing r))" using assms by (simp del: length_cq_ready)
  ultimately show ?thesis using b cqe_at_ptr [of r] cq_ready_nth by metis
qed

text \<open>What a look at the queue gives.\<close>

lemma peek_position:
  assumes wf: "kring_wf r" and k: "kernel_conforms k" and len: "length buff = cqeBuffSize"
    and p: "PeekCQEventBatch k r buff = Ok (n, buff', r')"
  shows "kernel_step\<^sup>*\<^sup>* r r'" and "0 \<le> n" and "0 < n \<Longrightarrow> batch_ok r' (InBatch (nat n) 0 buff')"
    and "length buff' = cqeBuffSize"
proof -
  have l: "length buff < 2 ^ 32" using len by (simp add: cqeBuffSize_def)
  have *: "\<exists>m. n = int m \<and> length b' = length b \<and> batch_ok x (InBatch m 0 b')"
    if "kring_wf x" "length b < 2 ^ 32" "peekCQEventBatch x b = Ok (n, b')" for x b b' and n :: int
    using peekCQEventBatch_ok [OF _ that(2) refl, of x] that by (auto simp: kring_wf_def)
  obtain n1 b1 where p1: "peekCQEventBatch r buff = Ok (n1, b1)"
    using p by (auto simp: PeekCQEventBatch_def go_outcome)
  have "kernel_step\<^sup>*\<^sup>* r r' \<and> 0 \<le> n \<and> (0 < n \<longrightarrow> batch_ok r' (InBatch (nat n) 0 buff')) \<and> length buff' = cqeBuffSize"
  proof (cases "n1 = 0 \<and> cqNeedFlush (sqRing r)")
    case False
    with p p1 have "n = n1" "buff' = b1" "r' = r" by (auto simp: PeekCQEventBatch_def)
    with * [OF wf l p1] len show ?thesis by auto
  next
    case True
    obtain c err r1 where se: "sysEnter k (ring_fd r) 0 0 sysRingEnterGetEvents 0 False r = (c, err, r1)"
      by (metis prod_cases3)
    have steps: "kernel_step\<^sup>*\<^sup>* r r1"
      using k sysEnter2_cases [OF se [unfolded sysEnter_def]] unfolding kernel_conforms_def by (metis snd_conv)
    then have wf1: "kring_wf r1" using kernel_steps_frame [OF steps wf] by (simp add: kernel_frame_def)
    have b1: "length b1 < 2 ^ 32" "length b1 = length buff" using * [OF wf l p1] l by auto
    from p p1 True se have "r' = r1" "peekCQEventBatch r1 b1 = Ok (n, buff')"
      by (auto simp: PeekCQEventBatch_def go_outcome)
    with * [OF wf1 b1(1)] b1(2) len steps show ?thesis by auto
  qed
  then show "kernel_step\<^sup>*\<^sup>* r r'" "0 \<le> n" "0 < n \<Longrightarrow> batch_ok r' (InBatch (nat n) 0 buff')" "length buff' = cqeBuffSize"
    by blast+
qed

section \<open>A reactor whose consumers are in batches\<close>

text \<open>
  \<open>passed ps r\<close>: the reactor as it would be if every consumer moved the head of its queue with each event
  it handles. \<open>passed_sys\<close>: the same for the state of a run.
\<close>

definition pass_loop :: "nat \<Rightarrow> kring ringNetEventLoop \<Rightarrow> kring ringNetEventLoop" where
  "pass_loop n l = l\<lparr>nl_ring := AdvanceCQ (of_nat n) (nl_ring l)\<rparr>"

definition passed :: "batch_pos list \<Rightarrow> (kring, 'cb, 'l) NetworkReactor \<Rightarrow> (kring, 'cb, 'l) NetworkReactor" where
  "passed ps r = r\<lparr>nr_loops := map2 (\<lambda>p l. pass_loop (handled_events p) l) ps (nr_loops r)\<rparr>"

definition passed_sys :: "batch_pos list \<Rightarrow> ('cb, 'l) nsys \<Rightarrow> ('cb, 'l) nsys" where
  "passed_sys ps n = n\<lparr>ns_net := passed ps (ns_net n)\<rparr>"

definition pos_ok :: "(kring, 'cb, 'l) NetworkReactor \<Rightarrow> batch_pos list \<Rightarrow> bool" where
  "pos_ok r ps \<longleftrightarrow> length ps = length (nr_loops r) \<and>
     (\<forall>j < length (nr_loops r). batch_ok (nl_ring (nr_loops r ! j)) (ps ! j))"

lemma pos_okD:
  assumes "pos_ok r ps" and "j < length (nr_loops r)"
  shows "batch_ok (nl_ring (nr_loops r ! j)) (ps ! j)" and "j < length ps" and "length ps = length (nr_loops r)"
  using assms by (simp_all add: pos_ok_def)

lemma pass_loop_fields [simp]:
  "nl_ring (pass_loop n l) = AdvanceCQ (of_nat n) (nl_ring l)" "nl_reqBuss (pass_loop n l) = nl_reqBuss l"
  "nl_submitAllowed (pass_loop n l) = nl_submitAllowed l"
  "pass_loop n (l\<lparr>nl_reqBuss := q\<rparr>) = (pass_loop n l)\<lparr>nl_reqBuss := q\<rparr>"
  "pass_loop n (l\<lparr>nl_ring := r\<rparr>) = l\<lparr>nl_ring := AdvanceCQ (of_nat n) r\<rparr>"
  "(pass_loop n l)\<lparr>nl_ring := r\<rparr> = l\<lparr>nl_ring := r\<rparr>"
  by (simp_all add: pass_loop_def)

lemma pass_loop_request: "(pass_loop n l)\<lparr>nl_reqBuss := q\<rparr> = (l\<lparr>nl_reqBuss := q\<rparr>)\<lparr>nl_ring := AdvanceCQ (of_nat n) (nl_ring l)\<rparr>"
  by (simp add: pass_loop_def)

lemma pass_loop_0 [simp]: "pass_loop 0 l = l"
  by (simp add: pass_loop_def)

lemma passed_fields [simp]:
  "nr_registry (passed ps r) = nr_registry r" "nr_config (passed ps r) = nr_config r"
  "passed ps (r\<lparr>nr_registry := reg\<rparr>) = (passed ps r)\<lparr>nr_registry := reg\<rparr>"
  by (simp_all add: passed_def)

lemma passed_loops [simp]:
  assumes "length ps = length (nr_loops r)"
  shows "length (nr_loops (passed ps r)) = length (nr_loops r)"
    and "j < length (nr_loops r) \<Longrightarrow> nr_loops (passed ps r) ! j = pass_loop (handled_events (ps ! j)) (nr_loops r ! j)"
  using assms by (simp_all add: passed_def)

lemma map2_update: "j < length ps \<Longrightarrow> map2 f ps (xs[j := x]) = (map2 f ps xs)[j := f (ps ! j) x]"
  by (cases "j < length xs") (auto intro!: nth_equalityI simp: nth_list_update)

lemma passed_with_loop:
  "j < length ps \<Longrightarrow> passed ps (with_loop j l r) = with_loop j (pass_loop (handled_events (ps ! j)) l) (passed ps r)"
  by (simp add: passed_def with_loop_def map2_update)

lemma passed_update:
  assumes "length ps = length (nr_loops r)" and "j < length (nr_loops r)"
  shows "passed (ps[j := p]) r = with_loop j (pass_loop (handled_events p) (nr_loops r ! j)) (passed ps r)"
proof -
  have "map2 f (ps[j := p]) (nr_loops r) = (map2 f ps (nr_loops r))[j := f p (nr_loops r ! j)]" for f :: "batch_pos \<Rightarrow> _ \<Rightarrow> kring ringNetEventLoop"
    using assms by (intro nth_equalityI) (auto simp: nth_list_update)
  then show ?thesis by (simp add: passed_def with_loop_def)
qed

lemma passed_sys_fields [simp]:
  "ns_net (passed_sys ps n) = passed ps (ns_net n)" "ns_sending (passed_sys ps n) = ns_sending n"
  "ns_accepted (passed_sys ps n) = ns_accepted n" "ns_done (passed_sys ps n) = ns_done n"
  "ns_dropped (passed_sys ps n) = ns_dropped n" "ns_torn (passed_sys ps n) = ns_torn n"
  "passed_sys ps (n\<lparr>ns_net := r\<rparr>) = n\<lparr>ns_net := passed ps r\<rparr>" "(passed_sys ps n)\<lparr>ns_net := r\<rparr> = n\<lparr>ns_net := r\<rparr>"
  "passed_sys ps (n\<lparr>ns_sending := xs\<rparr>) = (passed_sys ps n)\<lparr>ns_sending := xs\<rparr>"
  "passed_sys ps (n\<lparr>ns_accepted := ys\<rparr>) = (passed_sys ps n)\<lparr>ns_accepted := ys\<rparr>"
  "passed_sys ps (n\<lparr>ns_done := zs\<rparr>) = (passed_sys ps n)\<lparr>ns_done := zs\<rparr>"
  "passed_sys ps (n\<lparr>ns_dropped := ys\<rparr>) = (passed_sys ps n)\<lparr>ns_dropped := ys\<rparr>"
  "passed_sys ps (n\<lparr>ns_torn := b\<rparr>) = (passed_sys ps n)\<lparr>ns_torn := b\<rparr>"
  by (simp_all add: passed_sys_def)

lemma pos_ok_with_loop:
  assumes "pos_ok r ps" and "j < length (nr_loops r)" and "batch_ok (nl_ring l) p"
  shows "pos_ok ((with_loop j l r)\<lparr>nr_registry := reg\<rparr>) (ps[j := p])"
  using assms by (auto simp: pos_ok_def with_loop_def nth_list_update)

lemma pos_ok_loop:
  assumes "pos_ok r ps" and "j < length (nr_loops r)" and "batch_ok (nl_ring l) (ps ! j)"
  shows "pos_ok ((with_loop j l r)\<lparr>nr_registry := reg\<rparr>) ps" and "pos_ok (with_loop j l r) ps"
  using pos_ok_with_loop [OF assms] by (simp_all add: pos_ok_def)

text \<open>What publishers and the kernel do is the same for both.\<close>

lemma queue_request_wf:
  assumes wf: "kring_wf r" and q: "queue_request spec spec2 req r = Ok (err, r')"
  shows "kring_wf r'"
proof (cases "rq_timeout req = 0")
  case True
  with q QueueSQE_live [OF wf] show ?thesis unfolding queue_request_def by (metis (no_types))
next
  case False
  with q obtain e1 r1 where one:
    "QueueSQE spec (rq_op req) (rq_flags req OR SqeIOLinkFlag) (rq_userData req) r = Ok (e1, r1)"
    "(if e1 = None then QueueSQE spec2 (LinkTimeout (rq_timeout req)) 0 timeoutNonce r1 else Ok (e1, r1)) = Ok (err, r')"
    by (auto simp: queue_request_def go_outcome)
  then have "kring_wf r1" using QueueSQE_live [OF wf] by blast
  with one(2) QueueSQE_live [of r1] show ?thesis by (metis Pair_inject outcome.inject(1))
qed

lemma publish_keeps_batch:
  assumes ok: "batch_ok (nl_ring l) pos" and p: "publish_request spec spec2 req l reg = Ok (err, l', reg')"
  shows "batch_ok (nl_ring l') pos"
proof -
  from p obtain e where "queue_request spec spec2 req (nl_ring l) = Ok (e, nl_ring l')"
    by (auto simp: publish_request_ring Let_def go_outcome split: if_splits)
  then have "kring_wf (nl_ring l')" by (rule queue_request_wf [OF batch_ok_wf [OF ok]])
  with publish_request_advance(2) [OF p] show ?thesis by (intro batch_ok_extends [OF ok, where new = "[]"]) simp_all
qed

lemma Submit_batch:
  assumes ok: "batch_ok r pos" and k: "kernel_conforms k" and s: "Submit k r = Ok (c, err, r')"
  shows "batch_ok r' pos"
proof -
  note wf = batch_ok_wf [OF ok]
  obtain cnt s' where fl: "flushSQ r = Ok (cnt, r\<lparr>sqRing := s'\<rparr>)" "sq_wf s'"
    using flushSQ_ok [of r] wf by (auto simp: kring_wf_def)
  let ?r1 = "r\<lparr>sqRing := s'\<rparr>"
  have wf1: "kring_wf ?r1" using wf fl(2) by (simp add: kring_wf_def)
  have "r' = ?r1 \<or> (\<exists>fd a b f m z. sysEnter k fd a b f m z ?r1 = (c, err, r'))"
    using s fl(1) by (auto simp: Submit_def Let_def split: prod.splits if_splits)
  then have "kernel_frame ?r1 r'"
    using kernel_frame_refl [OF wf1] sysEnter2_frame [OF k wf1] unfolding sysEnter_def by metis
  moreover have "batch_ok ?r1 pos" by (rule batch_ok_extends [OF ok wf1, where new = "[]"]) simp_all
  ultimately show ?thesis by (rule batch_ok_frame [rotated])
qed

lemma submit_keeps_batch:
  assumes ok: "batch_ok (nl_ring l) pos" and k: "kernel_conforms k" and s: "net_submit k l = Ok (err, l')"
  shows "batch_ok (nl_ring l') pos"
proof (cases "nl_submitAllowed l = 1")
  case False
  with s ok show ?thesis by (simp add: net_submit_def)
next
  case True
  with s obtain c e where q: "Submit k (nl_ring l) = Ok (c, e, nl_ring l')"
    by (auto simp: net_submit_def Let_def go_outcome split: if_splits)
  show ?thesis using Submit_batch [OF ok k q] .
qed

lemma background_passed:
  assumes "background_step n n'" and ok: "pos_ok (ns_net n) ps"
  shows "background_step (passed_sys ps n) (passed_sys ps n')" and "pos_ok (ns_net n') ps"
proof -
  have "background_step (passed_sys ps n) (passed_sys ps n') \<and> pos_ok (ns_net n') ps"
    using assms(1)
  proof (cases rule: background_step.cases)
    case (receive i l req rest reg spec spec2 err l' reg')
    note i = pos_okD [OF ok receive(2)]
    let ?h = "handled_events (ps ! i)"
    have p: "publish_request spec spec2 req ((pass_loop ?h l)\<lparr>nl_reqBuss := rest\<rparr>) reg = Ok (err, pass_loop ?h l', reg')"
      using publish_request_advance(1) [OF receive(6), of "of_nat ?h"]
      unfolding pass_loop_request by (simp add: pass_loop_def)
    have "background_step (passed_sys ps n) (passed_sys ps n')"
      using background_step.receive [of i "passed_sys ps n" "pass_loop ?h l" req rest reg spec spec2 err "pass_loop ?h l'" reg']
        p receive i by (simp add: passed_with_loop)
    moreover have "batch_ok (nl_ring l') (ps ! i)"
      using publish_keeps_batch [OF _ receive(6)] i(1) receive(3) by simp
    then have "pos_ok (ns_net n') ps" using pos_ok_loop(1) [OF ok receive(2)] receive(1) by simp
    ultimately show ?thesis by simp
  next
    case (submit k i err l')
    note i = pos_okD [OF ok submit(3)]
    let ?h = "handled_events (ps ! i)" let ?l = "nr_loops (ns_net n) ! i"
    obtain k' where "kernel_conforms k'" "net_submit k' (pass_loop ?h ?l) = Ok (err, pass_loop ?h l')"
      using net_submit_advance [OF submit(2) batch_ok_wf [OF i(1)] batch_ok_handled [OF i(1)] submit(4)]
      by (auto simp: pass_loop_def)
    then have "background_step (passed_sys ps n) (passed_sys ps n')"
      using background_step.submit [of k' i "passed_sys ps n" err "pass_loop ?h l'"] submit(1,3) i
      by (simp add: passed_with_loop)
    moreover have "pos_ok (ns_net n') ps"
      using pos_ok_loop(2) [OF ok submit(3) submit_keeps_batch [OF i(1) submit(2,4)]] submit(1) by simp
    ultimately show ?thesis by simp
  next
    case (kernel i l r')
    note i = pos_okD [OF ok kernel(2)]
    let ?h = "handled_events (ps ! i)"
    have "kernel_step (nl_ring (pass_loop ?h l)) (AdvanceCQ (of_nat ?h) r')"
      using kernel_step_advance [OF kernel(4)] batch_ok_wf [OF i(1)] batch_ok_handled [OF i(1)] kernel(3) by simp
    then have "background_step (passed_sys ps n) (passed_sys ps n')"
      using background_step.kernel [of i "passed_sys ps n" "pass_loop ?h l" "AdvanceCQ (of_nat ?h) r'"] kernel(1,2,3) i
      by (simp add: passed_with_loop)
    moreover have "batch_ok r' (ps ! i)"
      using batch_ok_frame [OF i(1) kernel_step_frame] kernel(3,4) batch_ok_wf [OF i(1)] by blast
    then have "pos_ok (ns_net n') ps" using pos_ok_loop(2) [OF ok kernel(2)] kernel(1) by simp
    ultimately show ?thesis by simp
  qed
  then show "background_step (passed_sys ps n) (passed_sys ps n')" and "pos_ok (ns_net n') ps" by simp_all
qed

section \<open>The steps of a consumer\<close>

text \<open>
  The loop over batches of \<^verbatim>\<open>runConsumer\<close>, statement by statement, with the calls each step makes: \<open>peek\<close> is
  \<^verbatim>\<open>PeekCQEventBatch\<close> (the contents of the buffer before it are those of earlier batches and do not
  matter), \<open>event\<close> the body of the inner loop for one event, \<open>advance\<close> is \<^verbatim>\<open>AdvanceCQ\<close>.
\<close>

inductive batch_step ::
  "nat \<Rightarrow> ('cb \<times> CQEvent) list \<Rightarrow> ('cb, 'l) nsys \<Rightarrow> batch_pos list \<Rightarrow> ('cb, 'l) nsys \<Rightarrow> batch_pos list \<Rightarrow> bool" for j where
  peek: "kernel_conforms k \<Longrightarrow> j < length (nr_loops (ns_net s)) \<Longrightarrow> l = nr_loops (ns_net s) ! j \<Longrightarrow>
     ps ! j = Between \<Longrightarrow> length buff = cqeBuffSize \<Longrightarrow> PeekCQEventBatch k (nl_ring l) buff = Ok (n, buff', r') \<Longrightarrow>
     batch_step j [] s ps (s\<lparr>ns_net := with_loop j (l\<lparr>nl_ring := r'\<rparr>) (ns_net s)\<rparr>)
       (ps[j := if 0 < n then InBatch (nat n) 0 buff' else Between])"
| event: "j < length (nr_loops (ns_net s)) \<Longrightarrow> l = nr_loops (ns_net s) ! j \<Longrightarrow>
     ps ! j = InBatch n i buff \<Longrightarrow> i < n \<Longrightarrow>
     dispatch take_registered (nl_ring l) [buff ! i] (nr_registry (ns_net s)) = Ok (reg', calls) \<Longrightarrow>
     batch_step j calls s ps (s\<lparr>ns_net := (ns_net s)\<lparr>nr_registry := reg'\<rparr>, ns_done := ns_done s @ calls\<rparr>)
       (ps[j := InBatch n (Suc i) buff])"
| advance: "j < length (nr_loops (ns_net s)) \<Longrightarrow> l = nr_loops (ns_net s) ! j \<Longrightarrow> ps ! j = InBatch n n buff \<Longrightarrow>
     batch_step j [] s ps
       (s\<lparr>ns_net := with_loop j (l\<lparr>nl_ring := AdvanceCQ (of_nat n) (nl_ring l)\<rparr>) (ns_net s)\<rparr>) (ps[j := Between])"

inductive_cases batch_stepE: "batch_step j calls s ps s' ps'"

lemma dispatch_ring: "(\<And>q. cqe_at r q = cqe_at r' q) \<Longrightarrow> dispatch tk r qs s = dispatch tk r' qs s"
  by (induction tk r qs s rule: dispatch.induct) (auto simp: Let_def split: option.split intro!: arg_cong2 [where f = obind] ext)

lemma cqe_at_AdvanceCQ [simp]: "cqe_at (AdvanceCQ n r) q = cqe_at r q"
  by (simp add: cqe_at_def Let_def)

text \<open>Handling one event is a batch of one on the queue that has passed the events before it.\<close>

lemma consume_one:
  assumes ok: "batch_ok r (InBatch n i buff)" and i: "i < n"
    and d: "dispatch tk r [buff ! i] reg = Ok (reg', calls)"
  shows "\<exists>b. consume_batch k tk [None] (AdvanceCQ (of_nat i) r) reg
     = Ok (AdvanceCQ (of_nat (Suc i)) r, Some (reg', calls, b))"
proof -
  let ?r = "AdvanceCQ (of_nat i) r"
  obtain q where q: "buff ! i = Some q" "q = cqe_ptr_of (cq_kHead (cqRing r) + of_nat i) (cq_kRingMask (cqRing r))"
    using batch_pointer [OF ok i] by blast
  have len: "i < length (cq_ready (cqRing r))" and cq: "cq_wf (cqRing r)"
    using ok i by (simp_all add: kring_wf_def del: length_cq_ready)
  note a = AdvanceCQ_ok [OF cq less_imp_le [OF len]]
  have "min (length [None :: cqe_ptr option]) (length (cq_ready (cqRing ?r))) = 1"
    using len by (simp add: a(2) del: length_cq_ready)
  from peekCQEventBatch_ok [OF a(1) _ this [symmetric]]
  have "peekCQEventBatch ?r [None] = Ok (1, [Some q])" using q(2) by simp
  then have p: "PeekCQEventBatch k ?r [None] = Ok (1, [Some q], ?r)" by (simp add: PeekCQEventBatch_def)
  have "dispatch tk ?r [Some q] reg = Ok (reg', calls)"
    using d q(1) dispatch_ring [of ?r r tk "[Some q]" reg] by simp
  moreover have "AdvanceCQ 1 ?r = AdvanceCQ (of_nat (Suc i)) r" by (simp add: AdvanceCQ_add add.commute)
  ultimately show ?thesis using p by (simp add: consume_batch_def del: of_nat_Suc)
qed

lemma event_passed:
  assumes ok: "pos_ok (ns_net s) ps" and j: "j < length (nr_loops (ns_net s))" and l: "l = nr_loops (ns_net s) ! j"
    and ps: "ps ! j = InBatch n i buff" "i < n"
    and d: "dispatch take_registered (nl_ring l) [buff ! i] (nr_registry (ns_net s)) = Ok (reg', calls)"
  shows "consumer_step j calls (passed_sys ps s)
     (passed_sys (ps[j := InBatch n (Suc i) buff]) (s\<lparr>ns_net := (ns_net s)\<lparr>nr_registry := reg'\<rparr>, ns_done := ns_done s @ calls\<rparr>))"
proof -
  note o = pos_okD [OF ok j]
  have "batch_ok (nl_ring l) (InBatch n i buff)" using o(1) ps(1) l by simp
  from consume_one [OF this ps(2) d] obtain b where
    b: "consume_batch ex_intr take_registered [None] (AdvanceCQ (of_nat i) (nl_ring l)) (nr_registry (ns_net s))
      = Ok (AdvanceCQ (of_nat (Suc i)) (nl_ring l), Some (reg', calls, b))" by blast
  let ?ps = "ps[j := InBatch n (Suc i) buff]"
  have p: "passed ?ps (ns_net s) = with_loop j ((pass_loop i l)\<lparr>nl_ring := AdvanceCQ (of_nat (Suc i)) (nl_ring l)\<rparr>) (passed ps (ns_net s))"
    using passed_update [OF o(3) j, of "InBatch n (Suc i) buff"] l by (simp add: pass_loop_def)
  have "consumer_step j calls (passed_sys ps s) ((passed_sys ps s)\<lparr>
      ns_net := (with_loop j ((pass_loop i l)\<lparr>nl_ring := AdvanceCQ (of_nat (Suc i)) (nl_ring l)\<rparr>) (ns_net (passed_sys ps s)))\<lparr>nr_registry := reg'\<rparr>,
      ns_done := ns_done (passed_sys ps s) @ calls\<rparr>)"
    by (rule consumer_step.batch [OF ex_intr_ok(1), where buff = "[None]" and buff' = b])
      (use b j o ps(1) l in \<open>simp_all add: cqeBuffSize_def\<close>)
  then show ?thesis using p by simp
qed

lemma peek_passed:
  assumes ok: "pos_ok (ns_net s) ps" and k: "kernel_conforms k" and j: "j < length (nr_loops (ns_net s))"
    and l: "l = nr_loops (ns_net s) ! j" and ps: "ps ! j = Between" and len: "length buff = cqeBuffSize"
    and p: "PeekCQEventBatch k (nl_ring l) buff = Ok (n, buff', r')"
  shows "pos_ok (with_loop j (l\<lparr>nl_ring := r'\<rparr>) (ns_net s)) (ps[j := if 0 < n then InBatch (nat n) 0 buff' else Between])"
    and "background_step\<^sup>*\<^sup>* (passed_sys ps s)
       (passed_sys (ps[j := if 0 < n then InBatch (nat n) 0 buff' else Between]) (s\<lparr>ns_net := with_loop j (l\<lparr>nl_ring := r'\<rparr>) (ns_net s)\<rparr>))"
proof -
  note o = pos_okD [OF ok j]
  let ?p = "if 0 < n then InBatch (nat n) 0 buff' else Between" let ?r = "with_loop j (l\<lparr>nl_ring := r'\<rparr>) (ns_net s)"
  have wf: "kring_wf (nl_ring l)" using batch_ok_wf [OF o(1)] l by simp
  note q = peek_position [OF wf k len p]
  have "kring_wf r'" using kernel_steps_frame [OF q(1) wf] by (simp add: kernel_frame_def)
  then have "batch_ok r' ?p" using q(3) by simp
  with pos_ok_with_loop [OF ok j, of "l\<lparr>nl_ring := r'\<rparr>" ?p "nr_registry (ns_net s)"] show "pos_ok ?r (ps[j := ?p])"
    by (simp add: pos_ok_def)
  have "passed (ps[j := ?p]) ?r = with_loop j (l\<lparr>nl_ring := r'\<rparr>) (passed ps (ns_net s))"
    using passed_with_loop [of j "ps[j := ?p]" "l\<lparr>nl_ring := r'\<rparr>" "ns_net s"] passed_update [OF o(3) j, of ?p] o
    by (simp add: with_loop_def)
  then have "passed_sys (ps[j := ?p]) (s\<lparr>ns_net := ?r\<rparr>) = (passed_sys ps s)\<lparr>ns_net := with_loop j (l\<lparr>nl_ring := r'\<rparr>) (passed ps (ns_net s))\<rparr>"
    by (simp add: passed_sys_def)
  with background_kernel_run [OF q(1), of j "passed_sys ps s" l] o j l ps
  show "background_step\<^sup>*\<^sup>* (passed_sys ps s) (passed_sys (ps[j := ?p]) (s\<lparr>ns_net := ?r\<rparr>))" by simp
qed

lemma advance_passed:
  assumes ok: "pos_ok (ns_net s) ps" and j: "j < length (nr_loops (ns_net s))" and l: "l = nr_loops (ns_net s) ! j"
    and ps: "ps ! j = InBatch n n buff"
  shows "pos_ok (with_loop j (pass_loop n l) (ns_net s)) (ps[j := Between])"
    and "passed_sys (ps[j := Between]) (s\<lparr>ns_net := with_loop j (pass_loop n l) (ns_net s)\<rparr>) = passed_sys ps s"
proof -
  note o = pos_okD [OF ok j]
  have "kring_wf (nl_ring (pass_loop n l))" using o(1) ps l AdvanceCQ_live(1) [of "nl_ring l" n] by simp
  with pos_ok_with_loop [OF ok j, of "pass_loop n l" Between "nr_registry (ns_net s)"]
  show "pos_ok (with_loop j (pass_loop n l) (ns_net s)) (ps[j := Between])" by (simp add: pos_ok_def)
  have "passed (ps[j := Between]) (with_loop j (pass_loop n l) (ns_net s)) = with_loop j (pass_loop n l) (passed ps (ns_net s))"
    using passed_with_loop [of j "ps[j := Between]" "pass_loop n l" "ns_net s"] passed_update [OF o(3) j, of Between] o by (simp add: with_loop_def)
  also have "\<dots> = passed ps (ns_net s)"
    using passed_update [OF o(3) j, of "ps ! j"] ps l unfolding list_update_id by simp
  finally show "passed_sys (ps[j := Between]) (s\<lparr>ns_net := with_loop j (pass_loop n l) (ns_net s)\<rparr>) = passed_sys ps s"
    by (simp add: passed_sys_def)
qed

text \<open>
  Every step of a consumer inside a batch is, for the queues that have passed the events already handled,
  a batch of one, or something the kernel does, or nothing.
\<close>

lemma batch_step_passed:
  assumes "batch_step j calls s ps s' ps'" and ok: "pos_ok (ns_net s) ps"
  shows "pos_ok (ns_net s') ps' \<and> (consumer_step j calls (passed_sys ps s) (passed_sys ps' s') \<or>
       calls = [] \<and> background_step\<^sup>*\<^sup>* (passed_sys ps s) (passed_sys ps' s'))"
  using assms(1)
proof (cases rule: batch_step.cases)
  case (peek k l buff n buff' r')
  with peek_passed [OF ok peek(4-9)] show ?thesis by simp
next
  case (event l n i buff reg')
  have "batch_ok (nl_ring l) (InBatch n (Suc i) buff)" using pos_okD(1) [OF ok event(3)] event(4-6) by simp
  with pos_ok_with_loop [OF ok event(3), of l] event(4) have "pos_ok (ns_net s') ps'"
    using event(1,2) by (simp add: with_loop_def)
  with event_passed [OF ok event(3-7)] event(1,2) show ?thesis by simp
next
  case (advance l n buff)
  with advance_passed [OF ok advance(4-6)] show ?thesis by (simp add: pass_loop_def)
qed

end
