(* ===== verification/Net_Batch.thy ===== *)
theory Net_Batch
  imports Net_Block Reactor_Batch
begin

text \<open>
  A server whose consumers take one step at a time. In \<open>Net_Block\<close> a consumer reads a batch, takes its
  callbacks from the registry and moves the head of the queue in one step; here it does what
  \<^verbatim>\<open>runConsumer\<close> of \<^verbatim>\<open>src/reactor/net.go\<close> does: look at the queue, handle one event, wait for the
  receiver of its callback, handle the next, and move the head when the batch is done. In between
  everything else goes on: clients register callbacks and send requests, publishers queue, submit and
  drop, other consumers take callbacks, the kernel posts into the queue the buffer points into.

  This machine implements that of \<open>Net_Block\<close>, and so that of \<open>Net_Serve\<close>: the queues are those in which
  the handled events are already passed. The invariant has what makes the pointers in a buffer safe,
  and every batch can be completed.
\<close>

section \<open>The machine\<close>

record ('a, 'l) fsys =
  fs_blk :: "('a, 'l) bsys"
  fs_pos :: "batch_pos list"

abbreviation fs_net :: "('a, 'l) fsys \<Rightarrow> (conn_cb, 'l) nsys" where
  "fs_net s \<equiv> cs_net (bs_srv (fs_blk s))"

definition batch_init :: "(kring, conn_cb, 'l) NetworkReactor \<Rightarrow> 'a Listener \<Rightarrow> ('a, 'l) fsys" where
  "batch_init r l = \<lparr>fs_blk = block_init r l, fs_pos = replicate (length (nr_loops r)) Between\<rparr>"

text \<open>A consumer that waits in a callback has a call in \<open>bs_calls\<close> and no step.\<close>

inductive serve_step ::
  "'w sock_os \<Rightarrow> (Operation \<Rightarrow> go_error + 'a) \<Rightarrow> ('a, 'l) fsys \<Rightarrow> ('a, 'l) fsys \<Rightarrow> bool"
  for os peer where
  background: "b = fs_blk s \<Longrightarrow> background_step (fs_net s) n' \<Longrightarrow>
     serve_step os peer s (s\<lparr>fs_blk := b\<lparr>bs_srv := (bs_srv b)\<lparr>cs_net := n'\<rparr>\<rparr>\<rparr>)"
| caller: "caller_step os peer (fs_blk s) b' \<Longrightarrow> serve_step os peer s (s\<lparr>fs_blk := b'\<rparr>)"
| consumer: "b = fs_blk s \<Longrightarrow> \<not> busy j (bs_calls b) \<Longrightarrow> batch_step j calls (fs_net s) (fs_pos s) n' ps' \<Longrightarrow>
     serve_step os peer s (s\<lparr>fs_blk := b\<lparr>bs_srv := (bs_srv b)\<lparr>cs_net := n'\<rparr>, bs_calls := bs_calls b @ map (Pair j) calls\<rparr>,
       fs_pos := ps'\<rparr>)"

text \<open>The steps of the consumer of one loop and of callers: nothing else moves.\<close>

inductive serve_by ::
  "'w sock_os \<Rightarrow> (Operation \<Rightarrow> go_error + 'a) \<Rightarrow> nat \<Rightarrow> ('a, 'l) fsys \<Rightarrow> ('a, 'l) fsys \<Rightarrow> bool"
  for os peer j where
  caller: "caller_step os peer (fs_blk s) b' \<Longrightarrow> serve_by os peer j s (s\<lparr>fs_blk := b'\<rparr>)"
| consumer: "b = fs_blk s \<Longrightarrow> \<not> busy j (bs_calls b) \<Longrightarrow> batch_step j calls (fs_net s) (fs_pos s) n' ps' \<Longrightarrow>
     serve_by os peer j s (s\<lparr>fs_blk := b\<lparr>bs_srv := (bs_srv b)\<lparr>cs_net := n'\<rparr>, bs_calls := bs_calls b @ map (Pair j) calls\<rparr>,
       fs_pos := ps'\<rparr>)"

lemma serve_by_step: "serve_by os peer j s s' \<Longrightarrow> serve_step os peer s s'"
  by (induction rule: serve_by.induct) (rule serve_step.caller serve_step.consumer; assumption)+

lemma serve_by_run: "(serve_by os peer j)\<^sup>*\<^sup>* s s' \<Longrightarrow> (serve_step os peer)\<^sup>*\<^sup>* s s'"
  using serve_by_step by (metis mono_rtranclp)

section \<open>The abstraction\<close>

definition pass_srv :: "batch_pos list \<Rightarrow> ('a, 'l) csys \<Rightarrow> ('a, 'l) csys" where
  "pass_srv ps v = v\<lparr>cs_net := passed_sys ps (cs_net v)\<rparr>"

definition served :: "('a, 'l) fsys \<Rightarrow> ('a, 'l) bsys" where
  "served s = (fs_blk s)\<lparr>bs_srv := pass_srv (fs_pos s) (bs_srv (fs_blk s))\<rparr>"

lemma pass_srv_fields [simp]:
  "cs_net (pass_srv ps v) = passed_sys ps (cs_net v)" "cs_conns (pass_srv ps v) = cs_conns v"
  "cs_lst (pass_srv ps v) = cs_lst v" "cs_log (pass_srv ps v) = cs_log v"
  "pass_srv ps (v\<lparr>cs_net := n\<rparr>) = v\<lparr>cs_net := passed_sys ps n\<rparr>"
  "pass_srv ps (v\<lparr>cs_conns := cs\<rparr>) = (pass_srv ps v)\<lparr>cs_conns := cs\<rparr>"
  "pass_srv ps (v\<lparr>cs_lst := l\<rparr>) = (pass_srv ps v)\<lparr>cs_lst := l\<rparr>"
  "pass_srv ps (v\<lparr>cs_log := h\<rparr>) = (pass_srv ps v)\<lparr>cs_log := h\<rparr>"
  "(pass_srv ps v)\<lparr>cs_net := n\<rparr> = v\<lparr>cs_net := n\<rparr>"
  "(pass_srv ps v)\<lparr>cs_conns := cs, cs_net := n\<rparr> = v\<lparr>cs_conns := cs, cs_net := n\<rparr>"
  "(pass_srv ps v)\<lparr>cs_lst := l, cs_net := n\<rparr> = v\<lparr>cs_lst := l, cs_net := n\<rparr>"
  by (simp_all add: pass_srv_def)

lemma served_fields [simp]:
  "bs_srv (served s) = pass_srv (fs_pos s) (bs_srv (fs_blk s))" "bs_calls (served s) = bs_calls (fs_blk s)"
  by (simp_all add: served_def)

text \<open>What callers do to the reactor does not depend on the queues.\<close>

lemma loopForFd_passed: "length ps = length (nr_loops r) \<Longrightarrow> loopForFd (passed ps r) fd = loopForFd r fd"
  by (simp add: loopForFd_def)

lemma net_register_passed:
  assumes "net_register op fd cb t r = Ok (ud, i, req, r')" and "pos_ok r ps"
  shows "net_register op fd cb t (passed ps r) = Ok (ud, i, req, passed ps r')" and "pos_ok r' ps"
proof -
  have len: "length ps = length (nr_loops r)" using assms(2) by (simp add: pos_ok_def)
  obtain n reg where "registry_add fd cb (nr_registry r) = Ok (n, reg)" "r' = r\<lparr>nr_registry := reg\<rparr>"
    using assms(1) by (auto simp: net_register_def Let_def go_outcome)
  moreover have "loopForFd ((passed ps r)\<lparr>nr_registry := g\<rparr>) fd = loopForFd (r\<lparr>nr_registry := g\<rparr>) fd" for g
    using len by (simp add: loopForFd_def)
  ultimately show "net_register op fd cb t (passed ps r) = Ok (ud, i, req, passed ps r')" "pos_ok r' ps"
    using assms by (auto simp: net_register_def Let_def go_outcome pos_ok_def)
qed

lemma chan_send_passed:
  assumes "chan_send i req r = Some r'" and "pos_ok r ps" and "i < length (nr_loops r)"
  shows "chan_send i req (passed ps r) = Some (passed ps r')" and "pos_ok r' ps"
proof -
  let ?l = "(nr_loops r ! i)\<lparr>nl_reqBuss := nl_reqBuss (nr_loops r ! i) @ [req]\<rparr>"
  have len: "length ps = length (nr_loops r)" using assms(2) by (simp add: pos_ok_def)
  have r': "r' = with_loop i ?l r" "length (nl_reqBuss (nr_loops r ! i)) < reqBussSize"
    using assms(1) by (auto simp: chan_send_def with_loop_def Let_def split: if_splits)
  then show "chan_send i req (passed ps r) = Some (passed ps r')"
    using assms(3) len by (simp add: passed_with_loop chan_send_def Let_def) (simp add: with_loop_def)
  show "pos_ok r' ps" using pos_ok_loop(2) [OF assms(2,3), of ?l] pos_okD(1) [OF assms(2,3)] r'(1) by simp
qed

lemma Net_Cancel_passed:
  assumes "Net_Cancel ud r = Ok (Some r')" and "pos_ok r ps"
  shows "Net_Cancel ud (passed ps r) = Ok (Some (passed ps r'))" and "pos_ok r' ps"
proof -
  have len: "length ps = length (nr_loops r)" using assms(2) by (simp add: pos_ok_def)
  from assms(1) obtain i where i: "loopForFd r (RequestID_fd ud) = Ok i"
    "chan_send i \<lparr>rq_op = Cancel ud 0, rq_flags = 0, rq_userData = cancelNonce, rq_timeout = 0\<rparr> r = Some r'"
    by (auto simp: Net_Cancel_def go_outcome)
  from chan_send_passed [OF i(2) assms(2) loopForFd_bound [OF i(1)]] i(1) loopForFd_passed [OF len]
  show "Net_Cancel ud (passed ps r) = Ok (Some (passed ps r'))" "pos_ok r' ps" by (simp_all add: Net_Cancel_def)
qed

lemma queue_begin_passed:
  assumes "queue_begin op cb t r = Ok (ud, i, req, r')" and "pos_ok r ps"
  shows "queue_begin op cb t (passed ps r) = Ok (ud, i, req, passed ps r')" and "pos_ok r' ps"
  using assms net_register_passed [of op _ "Some cb" t r ud i req r' ps]
  by (auto simp: queue_begin_def split: option.splits)

lemma io_begin_passed:
  assumes "io_begin d self now b c r = Ok (c', ud, i, req, r')" and "pos_ok r ps"
  shows "io_begin d self now b c (passed ps r) = Ok (c', ud, i, req, passed ps r')" and "pos_ok r' ps"
proof -
  have "io_begin d self now b c (passed ps r) = Ok (c', ud, i, req, passed ps r') \<and> pos_ok r' ps"
    using assms by (cases d)
      (auto simp: Conn_Read_begin_def Conn_Write_begin_def Let_def go_outcome intro: queue_begin_passed(1) [OF _ assms(2)]
        dest: queue_begin_passed(2) [OF _ assms(2)])
  then show "io_begin d self now b c (passed ps r) = Ok (c', ud, i, req, passed ps r')" "pos_ok r' ps" by simp_all
qed

lemma Accept_begin_passed:
  assumes "Accept_begin l r = Ok (l', ud, i, req, r')" and "pos_ok r ps"
  shows "Accept_begin l (passed ps r) = Ok (l', ud, i, req, passed ps r')" and "pos_ok r' ps"
proof -
  have "Accept_begin l (passed ps r) = Ok (l', ud, i, req, passed ps r') \<and> pos_ok r' ps"
    using assms by (auto simp: Accept_begin_def go_outcome intro: queue_begin_passed(1) [OF _ assms(2)]
        dest: queue_begin_passed(2) [OF _ assms(2)])
  then show "Accept_begin l (passed ps r) = Ok (l', ud, i, req, passed ps r')" "pos_ok r' ps" by simp_all
qed

lemma set_deadline_passed:
  assumes "set_deadline d now t c r = Ok (Some (c', r'))" and "pos_ok r ps"
  shows "set_deadline d now t c (passed ps r) = Ok (Some (c', passed ps r'))" and "pos_ok r' ps"
proof -
  have "set_deadline d now t c (passed ps r) = Ok (Some (c', passed ps r')) \<and> pos_ok r' ps"
  proof (cases "past now t")
    case False
    with assms show ?thesis by (cases d) (auto simp: SetReadDeadline_def SetWriteDeadline_def)
  next
    case True
    with assms obtain ud where "Net_Cancel ud r = Ok (Some r')" "ud = last_of d c"
      by (cases d) (auto simp: SetReadDeadline_def SetWriteDeadline_def go_outcome)
    from Net_Cancel_passed [OF this(1) assms(2)] this(2) True assms(1) show ?thesis
      by (cases d) (auto simp: SetReadDeadline_def SetWriteDeadline_def go_outcome)
  qed
  then show "set_deadline d now t c (passed ps r) = Ok (Some (c', passed ps r'))" "pos_ok r' ps" by simp_all
qed

lemma call_step_passed:
  assumes "call_step v v'" and ok: "pos_ok (ns_net (cs_net v)) ps"
    and send: "\<forall>x\<in>set (ns_sending (cs_net v)). fst x < length (nr_loops (ns_net (cs_net v)))"
  shows "call_step (pass_srv ps v) (pass_srv ps v') \<and> pos_ok (ns_net (cs_net v')) ps"
  using assms(1)
proof (cases rule: call_step.cases)
  case (io_queue i c d n now b c' ud li req r')
  note q = io_begin_passed [OF io_queue(6), of ps]
  show ?thesis
    using call_step.io_queue [of i "pass_srv ps v" c d "passed_sys ps n" now b c' ud li req "passed ps r'"] q ok io_queue
    by simp
next
  case (io_sent i c d ud li req n xs ys r')
  have "li < length (nr_loops (ns_net n))" using send io_sent(5,6) by simp
  note q = chan_send_passed [OF io_sent(7) _ this, of ps]
  show ?thesis
    using call_step.io_sent [of i "pass_srv ps v" c d ud li req "passed_sys ps n" xs ys "passed ps r'"] q ok io_sent
    by simp
next
  case (io_stored i c d ud)
  then show ?thesis using call_step.io_stored [of i "pass_srv ps v" c d ud] ok by simp
next
  case (deadline i c n d now t c' r')
  note q = set_deadline_passed [OF deadline(5), of ps]
  show ?thesis
    using call_step.deadline [of i "pass_srv ps v" c "passed_sys ps n" d now t c' "passed ps r'"] q ok deadline by simp
next
  case (accept_queue l n l' ud li req r')
  note q = Accept_begin_passed [OF accept_queue(4), of ps]
  show ?thesis
    using call_step.accept_queue [of l "pass_srv ps v" "passed_sys ps n" l' ud li req "passed ps r'"] q ok accept_queue by simp
next
  case (accept_sent l n as ud li req bs xs ys r')
  have "li < length (nr_loops (ns_net n))" using send accept_sent(3,5) by simp
  note q = chan_send_passed [OF accept_sent(6) _ this, of ps]
  show ?thesis
    using call_step.accept_sent [of l "pass_srv ps v" "passed_sys ps n" as ud li req bs xs ys "passed ps r'"] q ok accept_sent
    by simp
qed

definition pass_blk :: "batch_pos list \<Rightarrow> ('a, 'l) bsys \<Rightarrow> ('a, 'l) bsys" where
  "pass_blk ps b = b\<lparr>bs_srv := pass_srv ps (bs_srv b)\<rparr>"

lemma pass_blk_fields [simp]:
  "bs_srv (pass_blk ps b) = pass_srv ps (bs_srv b)" "bs_calls (pass_blk ps b) = bs_calls b"
  "pass_blk ps (b\<lparr>bs_srv := v\<rparr>) = b\<lparr>bs_srv := pass_srv ps v\<rparr>"
  "pass_blk ps (b\<lparr>bs_calls := cs\<rparr>) = (pass_blk ps b)\<lparr>bs_calls := cs\<rparr>"
  "(pass_blk ps b)\<lparr>bs_srv := v\<rparr> = b\<lparr>bs_srv := v\<rparr>"
  by (simp_all add: pass_blk_def)

lemma served_pass: "served s = pass_blk (fs_pos s) (fs_blk s)"
  by (simp add: served_def pass_blk_def)

lemma caller_step_passed:
  assumes "caller_step os peer b b'" and ok: "pos_ok (ns_net (cs_net (bs_srv b))) ps"
    and send: "\<forall>x\<in>set (ns_sending (cs_net (bs_srv b))). fst x < length (nr_loops (ns_net (cs_net (bs_srv b))))"
  shows "caller_step os peer (pass_blk ps b) (pass_blk ps b') \<and> pos_ok (ns_net (cs_net (bs_srv b'))) ps"
  using assms(1)
proof (cases rule: caller_step.cases)
  case (call c')
  with call_step_passed [OF call(2) ok send] show ?thesis
    using caller_step.call [of "pass_blk ps b" "pass_srv ps c'"] by simp
next
  case (io_receive xs j d i ev ys v c ud)
  then show ?thesis
    using caller_step.io_receive [of "pass_blk ps b" xs j d i ev ys "pass_srv ps v" c ud] ok by simp
next
  case (accept_receive xs j ev ys v l as ud bs w res w')
  then show ?thesis
    using caller_step.accept_receive [of "pass_blk ps b" xs j ev ys "pass_srv ps v" l as ud bs] ok by simp
qed

section \<open>Refinement\<close>

definition batch_inv :: "('a, 'l) fsys \<Rightarrow> bool" where
  "batch_inv s \<longleftrightarrow> block_inv (served s) \<and> pos_ok (ns_net (fs_net s)) (fs_pos s)"

lemma batch_inv_sending:
  assumes "batch_inv s"
  shows "\<forall>x\<in>set (ns_sending (fs_net s)). fst x < length (nr_loops (ns_net (fs_net s)))"
proof -
  have "net_inv (cs_net (bs_srv (served s)))"
    using conn_invD(1) [OF block_invD(1)] assms unblocked_fields(1) unfolding batch_inv_def by metis
  then show ?thesis using assms by (simp add: net_inv_def batch_inv_def pos_ok_def)
qed

lemma background_run_block:
  "background_step\<^sup>*\<^sup>* (cs_net (bs_srv b)) n' \<Longrightarrow> (block_step os peer)\<^sup>*\<^sup>* b (b\<lparr>bs_srv := (bs_srv b)\<lparr>cs_net := n'\<rparr>\<rparr>)"
proof (induction rule: rtranclp_induct)
  case (step n m)
  let ?b = "\<lambda>n. b\<lparr>bs_srv := (bs_srv b)\<lparr>cs_net := n\<rparr>\<rparr>"
  have "block_step os peer (?b n) (?b m)" using block_step.background [of "?b n" m] step.hyps(2) by simp
  with step.IH show ?case by (rule rtranclp.rtrancl_into_rtrancl)
qed simp

lemma serve_step_passed:
  assumes "serve_step os peer s s'" and inv: "batch_inv s"
  shows "(block_step os peer)\<^sup>*\<^sup>* (served s) (served s') \<and> pos_ok (ns_net (fs_net s')) (fs_pos s')"
  using assms(1)
proof (cases rule: serve_step.cases)
  case (background b n')
  have ok: "pos_ok (ns_net (fs_net s)) (fs_pos s)" using inv by (simp add: batch_inv_def)
  note p = background_passed [OF background(3) ok]
  then have "block_step os peer (served s) (served s')"
    using block_step.background [of "served s" "passed_sys (fs_pos s) n'"] background(1,2)
    by (simp add: served_pass)
  with p(2) background(1) show ?thesis by auto
next
  case (caller b')
  have ok: "pos_ok (ns_net (fs_net s)) (fs_pos s)" using inv by (simp add: batch_inv_def)
  note p = caller_step_passed [OF caller(2) ok batch_inv_sending [OF inv]]
  then have "block_step os peer (served s) (served s')"
    using caller(1) block_step.caller [of os peer "served s"] by (simp add: served_pass)
  with p caller(1) show ?thesis by auto
next
  case (consumer b j calls n' ps')
  have ok: "pos_ok (ns_net (fs_net s)) (fs_pos s)" using inv by (simp add: batch_inv_def)
  note p = batch_step_passed [OF consumer(4) ok]
  have "(block_step os peer)\<^sup>*\<^sup>* (served s) (served s')"
  proof (cases "calls = [] \<and> background_step\<^sup>*\<^sup>* (passed_sys (fs_pos s) (fs_net s)) (passed_sys ps' n')")
    case True
    then show ?thesis
      using background_run_block [of "served s" "passed_sys ps' n'" os peer] consumer(1,2) by (simp add: served_pass)
  next
    case False
    with p have "consumer_step j calls (passed_sys (fs_pos s) (fs_net s)) (passed_sys ps' n')" by blast
    then have "block_step os peer (served s) (served s')"
      using block_step.consume [of j "served s" calls "passed_sys ps' n'"] consumer(1-3) by (simp add: served_pass)
    then show ?thesis by blast
  qed
  with p consumer(1) show ?thesis by simp
qed

inductive_cases serve_stepE: "serve_step os peer s s'"

lemma serve_step_torn: "serve_step os peer s s' \<Longrightarrow> ns_torn (fs_net s) \<Longrightarrow> ns_torn (fs_net s')"
  by (auto elim!: serve_stepE batch_stepE dest: background_step_torn caller_step_torn)

interpretation batch_runs: simulation "serve_step os peer" "\<lambda>s. \<not> ns_torn (fs_net s)" batch_inv
    "block_step os peer" served for os peer
proof (unfold_locales, goal_cases)
  case (1 s s')
  then show ?case using serve_step_torn by blast
next
  case (2 s s')
  with serve_step_passed [OF 2(1,4)] show ?case
    using block_runs.run_keeps [of os peer "served s" "served s'"] by (simp add: batch_inv_def)
next
  case (3 s s')
  then show ?case using serve_step_passed by blast
qed

section \<open>The next event\<close>

lemma batch_inv_net: "batch_inv s \<Longrightarrow> net_inv (passed_sys (fs_pos s) (fs_net s))"
  using conn_invD(1) [OF block_invD(1), of "served s"] by (simp add: batch_inv_def)

text \<open>The events that are for clients, and those of a history of returned calls.\<close>

definition user_events :: "CQEvent list \<Rightarrow> CQEvent list" where
  "user_events evs = filter (\<lambda>ev. user_nonce (cqe_UserData ev)) evs"

definition log_events :: "(conn_cb \<times> u64 \<times> CQEvent) list \<Rightarrow> CQEvent list" where
  "log_events log = map (\<lambda>(cb, ud, ev). ev) log"

lemma user_events_append: "user_events (xs @ ys) = user_events xs @ user_events ys"
  by (simp add: user_events_def)

lemma log_events_deliveries: "deliveries calls log \<Longrightarrow> log_events log = map (\<lambda>x. snd (snd x)) calls"
  unfolding deliveries_def log_events_def
  by (drule arg_cong [where f = "map snd"]) (simp add: case_prod_beta' comp_def)

lemma dispatch_one:
  assumes "cqe_at r q = Ok ev" and "dispatch tk r [Some q] s = Ok (s', calls)"
  shows "map snd calls = user_events [ev]"
  using assms by (auto simp: user_events_def user_nonce_def Let_def go_outcome split: if_splits option.splits)

text \<open>The pointer of the next event reads it, its callback is in the registry, and the call can be made.\<close>

lemma next_event:
  assumes inv: "batch_inv s" and j: "j < length (nr_loops (ns_net (fs_net s)))"
    and l: "l = nr_loops (ns_net (fs_net s)) ! j" and pos: "fs_pos s ! j = InBatch n i buff" and i: "i < n"
  shows "\<exists>reg' calls. dispatch take_registered (nl_ring l) [buff ! i] (nr_registry (ns_net (fs_net s))) = Ok (reg', calls) \<and>
     map snd calls = user_events [cq_ready (cqRing (nl_ring l)) ! i]"
proof -
  let ?reg = "nr_registry (ns_net (fs_net s))" let ?ev = "cq_ready (cqRing (nl_ring l)) ! i"
  have ok: "pos_ok (ns_net (fs_net s)) (fs_pos s)" using inv by (simp add: batch_inv_def)
  note o = pos_okD [OF ok j]
  have b: "batch_ok (nl_ring l) (InBatch n i buff)" using o(1) l pos by simp
  then obtain q where q: "buff ! i = Some q" "cqe_at (nl_ring l) q = Ok ?ev" using batch_pointer [OF b i] by blast
  have "cq_wf (cqRing (nl_ring l))" "i < length (cq_ready (cqRing (nl_ring l)))"
    using b i by (simp_all add: kring_wf_def del: length_cq_ready)
  then have "cq_ready (cqRing (AdvanceCQ (of_nat i) (nl_ring l))) = ?ev # drop (Suc i) (cq_ready (cqRing (nl_ring l)))"
    using AdvanceCQ_ok(2) [of "nl_ring l" i] by (simp add: Cons_nth_drop_Suc del: length_cq_ready)
  then have lv: "cqe_UserData ?ev \<in> set (live (AdvanceCQ (of_nat i) (nl_ring l)))" by (simp add: live_def)
  have net: "net_inv (passed_sys (fs_pos s) (fs_net s))" by (rule batch_inv_net [OF inv])
  have "registered ?reg (cqe_UserData ?ev) \<noteq> None" if "user_nonce (cqe_UserData ?ev)"
    using net_live(2) [OF net, of j] lv that j o(3) l pos by simp
  then have cb: "registered ?reg u \<noteq> None" if "u \<in> set (users [?ev])" for u using that by (auto simp: users_def split: if_splits)
  have "distinct (users [?ev])" by (simp add: users_def)
  with cb q(2) obtain reg' calls where "dispatch take_registered (nl_ring l) (map Some [q]) ?reg = Ok (reg', calls)"
    using rgc.dispatch_ok [OF net_registry_of [OF net], of "nl_ring l" "[q]" "[?ev]"] by (auto simp del: dispatch.simps)
  then have "dispatch take_registered (nl_ring l) [buff ! i] ?reg = Ok (reg', calls)" using q(1) by (simp del: dispatch.simps)
  with dispatch_one [OF q(2)] show ?thesis using q(1) by metis
qed

section \<open>Every batch is completed\<close>

lemma serve_callers: "(caller_step os peer)\<^sup>*\<^sup>* (fs_blk s) b \<Longrightarrow> (serve_by os peer j)\<^sup>*\<^sup>* s (s\<lparr>fs_blk := b\<rparr>)"
  using run_lift [of "caller_step os peer" "fs_blk s" b "serve_by os peer j" "\<lambda>b. s\<lparr>fs_blk := b\<rparr>"]
    serve_by.caller [of os peer "s\<lparr>fs_blk := _\<rparr>"] by simp

lemma serve_calls:
  assumes "call_step\<^sup>*\<^sup>* (bs_srv (fs_blk s)) v"
  shows "(serve_step os peer)\<^sup>*\<^sup>* s (s\<lparr>fs_blk := (fs_blk s)\<lparr>bs_srv := v\<rparr>\<rparr>)"
  using run_lift [OF assms, of "caller_step os peer" "\<lambda>v. (fs_blk s)\<lparr>bs_srv := v\<rparr>"]
    caller_step.call [of "(fs_blk s)\<lparr>bs_srv := _\<rparr>" _ os peer]
  by (intro serve_by_run [of _ _ 0] serve_callers) simp

lemma serve_background:
  assumes "background_step\<^sup>*\<^sup>* (fs_net s) n"
  shows "(serve_step os peer)\<^sup>*\<^sup>* s (s\<lparr>fs_blk := (fs_blk s)\<lparr>bs_srv := (bs_srv (fs_blk s))\<lparr>cs_net := n\<rparr>\<rparr>\<rparr>)"
  using run_lift [OF assms, of "serve_step os peer" "\<lambda>n. s\<lparr>fs_blk := (fs_blk s)\<lparr>bs_srv := (bs_srv (fs_blk s))\<lparr>cs_net := n\<rparr>\<rparr>\<rparr>"]
    serve_step.background [of _ "s\<lparr>fs_blk := (fs_blk s)\<lparr>bs_srv := (bs_srv (fs_blk s))\<lparr>cs_net := _\<rparr>\<rparr>\<rparr>" _ os peer] by simp

lemma serve_deliver:
  assumes "batch_inv s" and "\<not> ns_torn (fs_net s)"
  shows "\<exists>s' new. (serve_by os peer j)\<^sup>*\<^sup>* s s' \<and> bs_calls (fs_blk s') = [] \<and> fs_net s' = fs_net s \<and> fs_pos s' = fs_pos s \<and>
     batch_inv s' \<and> cs_log (bs_srv (fs_blk s')) = cs_log (bs_srv (fs_blk s)) @ new \<and> deliveries (bs_calls (fs_blk s)) new"
  using assms
proof (induction "bs_calls (fs_blk s)" arbitrary: s)
  case Nil
  then show ?case by (intro exI [of _ s] exI [of _ "[]"]) simp
next
  case (Cons x ys)
  obtain k cb ev where x: "x = (k, cb, ev)" by (cases x)
  then have c: "bs_calls (fs_blk s) = [] @ (k, cb, ev) # ys" using Cons.hyps(2) by simp
  have "awaited (bs_srv (served s)) cb ev"
    by (rule block_awaited [of _ k]) (use Cons.prems(1) c in \<open>simp_all add: batch_inv_def\<close>)
  then have "awaited (bs_srv (fs_blk s)) cb ev" unfolding awaited_def served_fields pass_srv_fields .
  from deliver_call [OF this c, of os peer] obtain b ud where
    b: "(caller_step os peer)\<^sup>*\<^sup>* (fs_blk s) b" "bs_calls b = ys" "cs_net (bs_srv b) = fs_net s"
    "cs_log (bs_srv b) = cs_log (bs_srv (fs_blk s)) @ [(cb, ud, ev)]" by (auto simp: busy_def)
  let ?t = "s\<lparr>fs_blk := b\<rparr>"
  have run: "(serve_by os peer j)\<^sup>*\<^sup>* s ?t" by (rule serve_callers [OF b(1)])
  have "batch_inv ?t" using batch_runs.run_keeps [OF serve_by_run [OF run]] Cons.prems b(3) by simp
  with Cons.hyps(1) [of ?t] b Cons.prems(2) obtain s' new where s': "(serve_by os peer j)\<^sup>*\<^sup>* ?t s'" "bs_calls (fs_blk s') = []"
    "fs_net s' = fs_net s" "fs_pos s' = fs_pos s" "batch_inv s'" "cs_log (bs_srv (fs_blk s')) = cs_log (bs_srv b) @ new"
    "deliveries ys new" by auto
  have "(serve_by os peer j)\<^sup>*\<^sup>* s s'" using run s'(1) by (rule rtranclp_trans)
  with s' b(4) c show ?case by (intro exI [of _ s'] exI [of _ "(cb, ud, ev) # new"]) simp
qed

text \<open>One event: the consumer makes the call, and the caller it is for receives.\<close>

lemma serve_event:
  assumes inv: "batch_inv s" and whole: "\<not> ns_torn (fs_net s)" and idle: "bs_calls (fs_blk s) = []"
    and j: "j < length (nr_loops (ns_net (fs_net s)))" and pos: "fs_pos s ! j = InBatch n i buff" and i: "i < n"
  shows "\<exists>s' new. (serve_by os peer j)\<^sup>*\<^sup>* s s' \<and> batch_inv s' \<and> \<not> ns_torn (fs_net s') \<and> bs_calls (fs_blk s') = [] \<and>
     nr_loops (ns_net (fs_net s')) = nr_loops (ns_net (fs_net s)) \<and> fs_pos s' ! j = InBatch n (Suc i) buff \<and>
     cs_log (bs_srv (fs_blk s')) = cs_log (bs_srv (fs_blk s)) @ new \<and>
     log_events new = user_events [cq_ready (cqRing (nl_ring (nr_loops (ns_net (fs_net s)) ! j))) ! i]"
proof -
  let ?n = "fs_net s" let ?l = "nr_loops (ns_net (fs_net s)) ! j" let ?b = "fs_blk s"
  have jp: "j < length (fs_pos s)" using pos_okD(2) [OF _ j] inv by (simp add: batch_inv_def)
  obtain reg' calls where d: "dispatch take_registered (nl_ring ?l) [buff ! i] (nr_registry (ns_net ?n)) = Ok (reg', calls)"
    "map snd calls = user_events [cq_ready (cqRing (nl_ring ?l)) ! i]"
    using next_event [OF inv j refl pos i] by blast
  let ?n' = "?n\<lparr>ns_net := (ns_net ?n)\<lparr>nr_registry := reg'\<rparr>, ns_done := ns_done ?n @ calls\<rparr>"
  let ?t = "s\<lparr>fs_blk := ?b\<lparr>bs_srv := (bs_srv ?b)\<lparr>cs_net := ?n'\<rparr>, bs_calls := bs_calls ?b @ map (Pair j) calls\<rparr>,
     fs_pos := (fs_pos s)[j := InBatch n (Suc i) buff]\<rparr>"
  have step: "serve_by os peer j s ?t"
    by (rule serve_by.consumer [OF refl]) (use idle batch_step.event [OF j refl pos i d(1)] in \<open>simp_all add: busy_def\<close>)
  have "batch_inv ?t" using batch_runs.step_keeps [OF serve_by_step [OF step]] inv whole by simp
  from serve_deliver [OF this, of os peer j] whole obtain s' new where
    s': "(serve_by os peer j)\<^sup>*\<^sup>* ?t s'" "bs_calls (fs_blk s') = []" "fs_net s' = ?n'" "fs_pos s' = fs_pos ?t" "batch_inv s'"
    "cs_log (bs_srv (fs_blk s')) = cs_log (bs_srv ?b) @ new" "deliveries (map (Pair j) calls) new" using idle by auto
  have "(serve_by os peer j)\<^sup>*\<^sup>* s s'" using step s'(1) by (rule converse_rtranclp_into_rtranclp)
  moreover have "log_events new = map snd calls" using log_events_deliveries [OF s'(7)] by (simp add: comp_def)
  ultimately show ?thesis using s' d(2) whole jp by (intro exI [of _ s'] exI [of _ new]) simp
qed

lemma serve_rest:
  assumes "batch_inv s" and "\<not> ns_torn (fs_net s)" and "bs_calls (fs_blk s) = []"
    and "j < length (nr_loops (ns_net (fs_net s)))" and "l = nr_loops (ns_net (fs_net s)) ! j"
    and "fs_pos s ! j = InBatch n i buff" and "i \<le> n"
  shows "\<exists>s' new. (serve_by os peer j)\<^sup>*\<^sup>* s s' \<and> batch_inv s' \<and> \<not> ns_torn (fs_net s') \<and> bs_calls (fs_blk s') = [] \<and>
     nr_loops (ns_net (fs_net s')) = nr_loops (ns_net (fs_net s)) \<and> fs_pos s' ! j = InBatch n n buff \<and>
     cs_log (bs_srv (fs_blk s')) = cs_log (bs_srv (fs_blk s)) @ new \<and>
     log_events new = user_events (drop i (take n (cq_ready (cqRing (nl_ring l)))))"
  using assms
proof (induction "n - i" arbitrary: s i)
  case 0
  then show ?case by (intro exI [of _ s] exI [of _ "[]"]) (simp add: log_events_def user_events_def)
next
  case (Suc m)
  let ?evs = "cq_ready (cqRing (nl_ring l))"
  have i: "i < n" using Suc.hyps(2) by simp
  obtain t new where t: "(serve_by os peer j)\<^sup>*\<^sup>* s t" "batch_inv t" "\<not> ns_torn (fs_net t)" "bs_calls (fs_blk t) = []"
    "nr_loops (ns_net (fs_net t)) = nr_loops (ns_net (fs_net s))" "fs_pos t ! j = InBatch n (Suc i) buff"
    "cs_log (bs_srv (fs_blk t)) = cs_log (bs_srv (fs_blk s)) @ new" "log_events new = user_events [?evs ! i]"
    using serve_event [OF Suc.prems(1-4,6) i, of os peer, folded Suc.prems(5)] by (elim exE conjE) (rule that)
  have m: "m = n - Suc i" "Suc i \<le> n" using Suc.hyps(2) i by simp_all
  have l: "j < length (nr_loops (ns_net (fs_net t)))" "l = nr_loops (ns_net (fs_net t)) ! j"
    using t(5) Suc.prems(4,5) by simp_all
  obtain s' new' where
    s': "(serve_by os peer j)\<^sup>*\<^sup>* t s'" "batch_inv s'" "\<not> ns_torn (fs_net s')" "bs_calls (fs_blk s') = []"
    "nr_loops (ns_net (fs_net s')) = nr_loops (ns_net (fs_net t))" "fs_pos s' ! j = InBatch n n buff"
    "cs_log (bs_srv (fs_blk s')) = cs_log (bs_srv (fs_blk t)) @ new'" "log_events new' = user_events (drop (Suc i) (take n ?evs))"
    using Suc.hyps(1) [OF m(1) t(2-4) l t(6) m(2)] by (elim exE conjE) (rule that)
  have "n \<le> length ?evs"
    using pos_okD(1) [of "ns_net (fs_net s)" "fs_pos s" j] Suc.prems by (simp add: batch_inv_def del: length_cq_ready)
  then have evs: "drop i (take n ?evs) = [?evs ! i] @ drop (Suc i) (take n ?evs)"
    using i Cons_nth_drop_Suc [of i "take n ?evs"] by (simp del: length_cq_ready)
  have "log_events (new @ new') = log_events new @ log_events new'" by (simp add: log_events_def)
  also have "\<dots> = user_events (drop i (take n ?evs))" unfolding t(8) s'(8) evs user_events_append ..
  finally have "log_events (new @ new') = user_events (drop i (take n ?evs))" .
  with t(5,7) s'(2-7) rtranclp_trans [OF t(1) s'(1)] show ?case
    by (intro exI [of _ s'] exI [of _ "new @ new'"]) simp
qed

lemma batch_init_inv:
  assumes "conn_inv (serve_init r l)" and "l_calls l = []" and "l_acceptChan l = []"
  shows "batch_inv (batch_init r l)" and "unblocked (served (batch_init r l)) = serve_init r l"
proof -
  let ?ps = "replicate (length (nr_loops r)) Between"
  have "map2 (\<lambda>p l. pass_loop (handled_events p) l) ?ps (nr_loops r) = nr_loops r"
    by (rule nth_equalityI) simp_all
  then have "passed ?ps r = r" by (simp add: passed_def)
  then have "served (batch_init r l) = block_init r l"
    by (simp add: served_pass batch_init_def pass_blk_def pass_srv_def passed_sys_def block_init_def serve_init_def net_init_def)
  moreover note block_init_inv [OF assms]
  moreover have "\<forall>j<length (nr_loops r). kring_wf (nl_ring (nr_loops r ! j))"
    using net_inv_wf(2) [OF conn_invD(1) [OF assms(1)]] by (simp add: serve_init_def net_init_def)
  then have "pos_ok (ns_net (fs_net (batch_init r l))) (fs_pos (batch_init r l))"
    by (simp add: pos_ok_def batch_init_def block_init_def serve_init_def net_init_def)
  ultimately show "batch_inv (batch_init r l)" and "unblocked (served (batch_init r l)) = serve_init r l"
    by (simp_all add: batch_inv_def)
qed

text \<open>A consumer inside a batch, and the callers it serves, get through it.\<close>

lemma batch_done:
  assumes "batch_inv s" and "\<not> ns_torn (fs_net s)" and "j < length (nr_loops (ns_net (fs_net s)))"
    and "l = nr_loops (ns_net (fs_net s)) ! j" and "fs_pos s ! j = InBatch n i buff"
  shows "\<exists>s' old new. (serve_by os peer j)\<^sup>*\<^sup>* s s' \<and> \<not> ns_torn (fs_net s') \<and> fs_pos s' ! j = Between \<and>
     bs_calls (fs_blk s') = [] \<and>
     nl_ring (nr_loops (ns_net (fs_net s')) ! j) = AdvanceCQ (of_nat n) (nl_ring l) \<and>
     cs_log (bs_srv (fs_blk s')) = cs_log (bs_srv (fs_blk s)) @ old @ new \<and> deliveries (bs_calls (fs_blk s)) old \<and>
     log_events new = user_events (drop i (take n (cq_ready (cqRing (nl_ring l)))))"
proof -
  obtain t old where t: "(serve_by os peer j)\<^sup>*\<^sup>* s t" "bs_calls (fs_blk t) = []" "fs_net t = fs_net s" "fs_pos t = fs_pos s"
    "batch_inv t" "cs_log (bs_srv (fs_blk t)) = cs_log (bs_srv (fs_blk s)) @ old" "deliveries (bs_calls (fs_blk s)) old"
    using serve_deliver [OF assms(1,2), of os peer j] by (elim exE conjE) (rule that)
  have "batch_ok (nl_ring l) (fs_pos s ! j)" using pos_okD(1) [OF _ assms(3)] assms(1,4) by (simp add: batch_inv_def)
  then have "i \<le> n" using assms(5) by simp
  then obtain u new where u: "(serve_by os peer j)\<^sup>*\<^sup>* t u" "batch_inv u" "\<not> ns_torn (fs_net u)" "bs_calls (fs_blk u) = []"
    "nr_loops (ns_net (fs_net u)) = nr_loops (ns_net (fs_net t))" "fs_pos u ! j = InBatch n n buff"
    "cs_log (bs_srv (fs_blk u)) = cs_log (bs_srv (fs_blk t)) @ new"
    "log_events new = user_events (drop i (take n (cq_ready (cqRing (nl_ring l)))))"
    using serve_rest [of t j l n i buff os peer] t assms by auto
  have ju: "j < length (nr_loops (ns_net (fs_net u)))" "l = nr_loops (ns_net (fs_net u)) ! j" using u(5) t(3) assms(3,4) by simp_all
  have jp: "j < length (fs_pos u)" using pos_okD(2) [OF _ ju(1)] u(2) by (simp add: batch_inv_def)
  let ?n' = "(fs_net u)\<lparr>ns_net := with_loop j (l\<lparr>nl_ring := AdvanceCQ (of_nat n) (nl_ring l)\<rparr>) (ns_net (fs_net u))\<rparr>"
  let ?b = "fs_blk u"
  let ?s' = "u\<lparr>fs_blk := ?b\<lparr>bs_srv := (bs_srv ?b)\<lparr>cs_net := ?n'\<rparr>, bs_calls := bs_calls ?b @ map (Pair j) []\<rparr>, fs_pos := (fs_pos u)[j := Between]\<rparr>"
  have "serve_by os peer j u ?s'"
    by (rule serve_by.consumer [OF refl]) (use u(4) batch_step.advance [OF ju u(6)] in \<open>simp_all add: busy_def\<close>)
  with rtranclp_trans [OF t(1) u(1)] have "(serve_by os peer j)\<^sup>*\<^sup>* s ?s'" by (rule rtranclp.rtrancl_into_rtrancl)
  with u(3,4,7,8) t(6,7) ju jp show ?thesis
    by (intro exI [of _ ?s'] exI [of _ old] exI [of _ new]) (simp add: with_loop_def)
qed

text \<open>What holds of every run, and the run of \<open>Net_Serve\<close> that it implements.\<close>

lemma batch_reached:
  assumes "NewNet rings opts = Ok (Inr r)" and "\<forall>x\<in>set rings. kring_wf x \<and> live x = []" and "rings \<noteq> []"
    and "NewListener sos resolve raw len ka addr w = (Inr l, w')" and "0 \<le> l_sockFd l" and "l_sockFd l < 2 ^ 31"
    and "(serve_step os peer)\<^sup>*\<^sup>* (batch_init r l) s" and "\<not> ns_torn (fs_net s)"
  shows "batch_inv s" and "(conn_step os peer)\<^sup>*\<^sup>* (serve_init r l) (unblocked (served s))"
    and "conn_inv (unblocked (served s))"
proof -
  note l = NewListener_op [OF assms(4-6)]
  have start: "conn_inv (serve_init r l)" by (rule serve_init_inv [OF NewNet_inv(1) [OF assms(1-3)] l(1) assms(5,6) l(2,3)])
  note init = batch_init_inv [OF this l(2,3)]
  show "batch_inv s" by (rule batch_runs.run_keeps [OF assms(7,8) init(1)])
  have "(block_step os peer)\<^sup>*\<^sup>* (served (batch_init r l)) (served s)"
    by (rule batch_runs.run_simulated [OF assms(7,8) init(1)])
  then show run: "(conn_step os peer)\<^sup>*\<^sup>* (serve_init r l) (unblocked (served s))"
    using block_runs.run_simulated [of os peer "served (batch_init r l)" "served s"] init assms(8) by (simp add: batch_inv_def)
  show "conn_inv (unblocked (served s))" by (rule serve_runs.run_keeps [OF run _ start]) (use assms(8) in simp)
qed

section \<open>A run of a small server\<close>

lemma ex_start:
  "\<forall>x\<in>set [ex_kring]. kring_wf x \<and> live x = []" "[ex_kring] \<noteq> []"
  "NewListener ex_sock (\<lambda>_. Inr ex_addr) 64 200 0 ''127.0.0.1:8080'' 0 = (Inr ex_listener, 5)"
  "0 \<le> l_sockFd ex_listener" "l_sockFd ex_listener < 2 ^ 31"
  using ex_kring_wf ex_NewListener by (simp_all add: ex_listener_def)

text \<open>\<^verbatim>\<open>Accept\<close> is called and its request is in the channel of the loop.\<close>

lemma ex_accept_sent:
  "\<exists>(r :: (kring, conn_cb, unit) NetworkReactor) (v :: (TCPAddr, unit) csys) req.
     NewNet [ex_kring] [] = Ok (Inr r) \<and> length (nr_loops r) = 1 \<and> call_step\<^sup>*\<^sup>* (serve_init r ex_listener) v \<and> \<not> ns_torn (cs_net v) \<and>
     nr_loops (ns_net (cs_net v)) = [(newRingNetEventLoop ex_kring)\<lparr>nl_reqBuss := [req]\<rparr>] \<and> rq_op req = l_acceptOp ex_listener \<and>
     rq_timeout req = 0 \<and> user_nonce (rq_userData req) \<and> cs_log v = []"
proof -
  obtain r :: "(kring, conn_cb, unit) NetworkReactor" where
    r: "NewNet [ex_kring] [] = Ok (Inr r)" "conn_inv (ex_state True r)" "nr_loops r = [newRingNetEventLoop ex_kring]"
    using ex_serve by blast
  have "net_inv (net_init r)" using NewNet_inv(1) [OF r(1)] ex_kring_wf by simp
  then have b: "registry_inv (nr_registry r)" "\<forall>u. registered (nr_registry r) u = None"
    using r(3) ex_kring_wf(2)
    by (simp_all add: net_inv_def net_init_def books_def owed_def finished_def sending_owed_def loop_owed_def newRingNetEventLoop_def)
  obtain n reg where a: "registry_add 3 (Some AcceptCb) (nr_registry r) = Ok (n, reg)"
    using add_registered [of "nr_registry r" 3 "Some AcceptCb"] b by auto
  let ?ud = "packRequestID 3 n"
  let ?req = "\<lparr>rq_op = l_acceptOp ex_listener, rq_flags = 0, rq_userData = ?ud, rq_timeout = 0\<rparr>"
  let ?r1 = "r\<lparr>nr_registry := reg\<rparr>" let ?l1 = "ex_listener\<lparr>l_calls := [Sending ?ud 0 ?req]\<rparr>"
  have q: "Accept_begin ex_listener (ns_net (net_init r)) = Ok (?l1, ?ud, 0, ?req, ?r1)"
    using a r(3) by (simp add: Accept_begin_def queue_begin_def ex_listener_def net_register_def net_init_def loopForFd_def
        fdPerGranule_def Let_def)
  let ?n1 = "(net_init r)\<lparr>ns_net := ?r1, ns_sending := [(0, ?req)], ns_accepted := [(?ud, AcceptCb)]\<rparr>"
  let ?v1 = "(serve_init r ex_listener)\<lparr>cs_lst := ?l1, cs_net := ?n1\<rparr>"
  have one: "call_step (serve_init r ex_listener) ?v1"
    using call_step.accept_queue [of ex_listener "serve_init r ex_listener" "net_init r" ?l1 ?ud 0 ?req ?r1] q b
    by (simp add: serve_init_def net_init_def)
  let ?r2 = "r\<lparr>nr_registry := reg, nr_loops := [(newRingNetEventLoop ex_kring)\<lparr>nl_reqBuss := [?req]\<rparr>]\<rparr>"
  have "chan_send 0 ?req ?r1 = Some ?r2" using r(3) by (simp add: chan_send_def newRingNetEventLoop_def reqBussSize_def)
  then have two: "call_step ?v1 (?v1\<lparr>cs_lst := ?l1\<lparr>l_calls := [Waiting ?ud]\<rparr>, cs_net := ?n1\<lparr>ns_net := ?r2, ns_sending := []\<rparr>\<rparr>)"
    using call_step.accept_sent [of ?l1 ?v1 ?n1 "[]" ?ud 0 ?req "[]" "[]" "[]" ?r2] by (simp add: serve_init_def)
  have "user_nonce ?ud" by (rule packRequestID_user) simp_all
  with one two r(1,3) show ?thesis
    by (intro exI [of _ r] exI [of _ "?v1\<lparr>cs_lst := ?l1\<lparr>l_calls := [Waiting ?ud]\<rparr>, cs_net := ?n1\<lparr>ns_net := ?r2, ns_sending := []\<rparr>\<rparr>"]
        exI [of _ ?req]) (simp add: net_init_def serve_init_def)
qed

text \<open>The request is answered, and the consumer has its event in a batch.\<close>

lemma ex_accept_batch:
  "\<exists>(r :: (kring, conn_cb, unit) NetworkReactor) (s :: (TCPAddr, unit) fsys) buff ev. NewNet [ex_kring] [] = Ok (Inr r) \<and>
     (serve_step ex_sock peer)\<^sup>*\<^sup>* (batch_init r ex_listener) s \<and> \<not> ns_torn (fs_net s) \<and> length (nr_loops (ns_net (fs_net s))) = 1 \<and>
     fs_pos s ! 0 = InBatch 1 0 buff \<and> cq_ready (cqRing (nl_ring (nr_loops (ns_net (fs_net s)) ! 0))) = [ev] \<and>
     user_nonce (cqe_UserData ev) \<and> cqe_Res ev = 4 \<and> cs_log (bs_srv (fs_blk s)) = [] \<and> bs_calls (fs_blk s) = []"
proof -
  obtain r :: "(kring, conn_cb, unit) NetworkReactor" and v :: "(TCPAddr, unit) csys" and req where
    v: "NewNet [ex_kring] [] = Ok (Inr r)" "length (nr_loops r) = 1" "call_step\<^sup>*\<^sup>* (serve_init r ex_listener) v" "\<not> ns_torn (cs_net v)"
    "nr_loops (ns_net (cs_net v)) = [(newRingNetEventLoop ex_kring)\<lparr>nl_reqBuss := [req]\<rparr>]" "rq_op req = l_acceptOp ex_listener"
    "rq_timeout req = 0" "user_nonce (rq_userData req)" "cs_log v = []"
    using ex_accept_sent by blast
  have "\<exists>e. uop.entry 0 (rq_op req) (rq_flags req) (rq_userData req) = Ok e"
    by (simp add: uop.entry_def v(6) ex_listener_def)
  then obtain l' where l': "background_step\<^sup>*\<^sup>* (cs_net v) ((cs_net v)\<lparr>ns_net := with_loop 0 l' (ns_net (cs_net v))\<rparr>)"
    "kring_wf (nl_ring l')" "cq_ready (cqRing (nl_ring l')) = [\<lparr>cqe_UserData = rq_userData req, cqe_Res = 4, cqe_Flags = 0\<rparr>]"
    using request_answered [of 0 "cs_net v" "nr_loops (ns_net (cs_net v)) ! 0" req 0 _ 4] v(5,7) ex_kring_wf(1,2)
    by (auto simp: newRingNetEventLoop_def)
  let ?b = "\<lambda>n. (block_init r ex_listener)\<lparr>bs_srv := v\<lparr>cs_net := n\<rparr>\<rparr>"
  let ?n = "(cs_net v)\<lparr>ns_net := with_loop 0 l' (ns_net (cs_net v))\<rparr>"
  let ?s = "(batch_init r ex_listener)\<lparr>fs_blk := ?b ?n\<rparr>"
  have "(serve_step ex_sock peer)\<^sup>*\<^sup>* (batch_init r ex_listener) ((batch_init r ex_listener)\<lparr>fs_blk := ?b (cs_net v)\<rparr>)"
    using serve_calls [of "batch_init r ex_listener" v ex_sock peer] v(3) by (simp add: batch_init_def block_init_def)
  moreover have "(serve_step ex_sock peer)\<^sup>*\<^sup>* ((batch_init r ex_listener)\<lparr>fs_blk := ?b (cs_net v)\<rparr>) ?s"
    using serve_background [of "(batch_init r ex_listener)\<lparr>fs_blk := ?b (cs_net v)\<rparr>" ?n ex_sock peer] l'(1) by simp
  ultimately have run: "(serve_step ex_sock peer)\<^sup>*\<^sup>* (batch_init r ex_listener) ?s" by (rule rtranclp_trans)
  have l: "nr_loops (ns_net ?n) = [l']" using v(5) by (simp add: with_loop_def)
  have pos: "fs_pos ?s = [Between]" using v(2) by (simp add: batch_init_def)
  let ?z = "replicate cqeBuffSize None"
  obtain buff where p: "peekCQEventBatch (nl_ring l') ?z = Ok (1, buff)"
    using peekCQEventBatch_ok [of "nl_ring l'" ?z 1] l'(2,3) by (auto simp: kring_wf_def cqeBuffSize_def simp del: length_cq_ready)
  then have "PeekCQEventBatch ex_intr (nl_ring l') ?z = Ok (1, buff, nl_ring l')" by (simp add: PeekCQEventBatch_def)
  then have "batch_step 0 [] ?n [Between] (?n\<lparr>ns_net := with_loop 0 (l'\<lparr>nl_ring := nl_ring l'\<rparr>) (ns_net ?n)\<rparr>) [InBatch 1 0 buff]"
    using batch_step.peek [OF ex_intr_ok(1), of 0 ?n l' "[Between]" ?z 1 buff "nl_ring l'"] l by simp
  moreover have "?n\<lparr>ns_net := with_loop 0 (l'\<lparr>nl_ring := nl_ring l'\<rparr>) (ns_net ?n)\<rparr> = ?n" by (simp add: with_loop_def)
  ultimately have "batch_step 0 [] (fs_net ?s) (fs_pos ?s) ?n [InBatch 1 0 buff]" using pos by simp
  from serve_step.consumer [OF refl _ this, of ex_sock peer]
  have "serve_step ex_sock peer ?s (?s\<lparr>fs_pos := [InBatch 1 0 buff]\<rparr>)" by (simp add: block_init_def busy_def)
  with run have "(serve_step ex_sock peer)\<^sup>*\<^sup>* (batch_init r ex_listener) (?s\<lparr>fs_pos := [InBatch 1 0 buff]\<rparr>)"
    by (rule rtranclp.rtrancl_into_rtrancl)
  with v l l'(3) show ?thesis
    by (intro exI [of _ r] exI [of _ "?s\<lparr>fs_pos := [InBatch 1 0 buff]\<rparr>"] exI [of _ buff] exI) (auto simp: block_init_def)
qed

text \<open>\<^verbatim>\<open>Accept\<close> has returned with the descriptor 4.\<close>

lemma ex_accepted:
  "\<exists>(r :: (kring, conn_cb, unit) NetworkReactor) (s :: (TCPAddr, unit) csys) ud ev. NewNet [ex_kring] [] = Ok (Inr r) \<and>
     (conn_step ex_sock peer)\<^sup>*\<^sup>* (serve_init r ex_listener) s \<and> \<not> ns_torn (cs_net s) \<and>
     cs_log s = [(AcceptCb, ud, ev)] \<and> cqe_Res ev = 4"
proof -
  obtain r :: "(kring, conn_cb, unit) NetworkReactor" and s :: "(TCPAddr, unit) fsys" and buff ev where
    s: "NewNet [ex_kring] [] = Ok (Inr r)" "(serve_step ex_sock peer)\<^sup>*\<^sup>* (batch_init r ex_listener) s" "\<not> ns_torn (fs_net s)"
    "length (nr_loops (ns_net (fs_net s))) = 1" "fs_pos s ! 0 = InBatch 1 0 buff"
    "cq_ready (cqRing (nl_ring (nr_loops (ns_net (fs_net s)) ! 0))) = [ev]" "user_nonce (cqe_UserData ev)" "cqe_Res ev = 4"
    "cs_log (bs_srv (fs_blk s)) = []" "bs_calls (fs_blk s) = []"
    using ex_accept_batch [of peer] by (elim exE conjE) (rule that)
  note reached = batch_reached [OF s(1) ex_start]
  have "batch_inv s" by (rule reached(1) [OF s(2,3)])
  from batch_done [OF this s(3) _ refl s(5), of ex_sock peer] s(4,6,7,9,10) obtain s' new where
    s': "(serve_by ex_sock peer 0)\<^sup>*\<^sup>* s s'" "\<not> ns_torn (fs_net s')" "cs_log (bs_srv (fs_blk s')) = new" "log_events new = [ev]"
    by (auto simp: user_events_def deliveries_def)
  note run = reached(2,3) [OF rtranclp_trans [OF s(2) serve_by_run [OF s'(1)]] s'(2)]
  let ?v = "unblocked (served s')"
  obtain cb ud where log: "cs_log ?v = [(cb, ud, ev)]" using s'(3,4) by (auto simp: log_events_def)
  have "(cb, ev) \<in> set (ns_done (cs_net ?v))" using history_log(2) [OF conn_invD(9) [OF run(2)], of cb ud ev] log by simp
  then have "(cqe_UserData ev, cb) \<in> set (ns_accepted (cs_net ?v))" by (rule done_accepted [OF conn_invD(1) [OF run(2)]])
  then have "cb_exists (cs_conns ?v) cb" by (rule conn_invD(3) [OF run(2)])
  moreover have "map c_fd (cs_conns ?v) = accepted_conns [(cb, ud, ev)]" using conn_invD(8) [OF run(2)] log by metis
  then have "cb \<noteq> AcceptCb \<Longrightarrow> cs_conns ?v = []" by (simp add: accepted_conns_def)
  ultimately have "cb = AcceptCb" by (cases cb) auto
  with log run(1) s(1,8) s'(2) show ?thesis by (intro exI [of _ r] exI [of _ ?v] exI [of _ ud] exI [of _ ev]) simp
qed

text \<open>The theorems of \<open>Net_Serve\<close> on this run: the event is that of the request, the connection has descriptor 4.\<close>

theorem server_events_witness:
  "\<exists>(s :: (TCPAddr, unit) csys) ud ev. cs_log s = [(AcceptCb, ud, ev)] \<and> cqe_Res ev = 4 \<and>
     (ud, AcceptCb) \<in> set (ns_accepted (cs_net s)) \<and> (cqe_UserData ev, AcceptCb) \<in> set (ns_accepted (cs_net s)) \<and>
     mset (called_with AcceptCb (ns_done (cs_net s))) = {#ev#} + mset (l_acceptChan (cs_lst s))"
proof -
  obtain r :: "(kring, conn_cb, unit) NetworkReactor" and s :: "(TCPAddr, unit) csys" and ud ev where
    s: "NewNet [ex_kring] [] = Ok (Inr r)" "(conn_step ex_sock (\<lambda>_. Inr ex_addr))\<^sup>*\<^sup>* (serve_init r ex_listener) s" "\<not> ns_torn (cs_net s)"
    "cs_log s = [(AcceptCb, ud, ev)]" "cqe_Res ev = 4"
    using ex_accepted [of "\<lambda>_. Inr ex_addr"] by (elim exE conjE) (rule that)
  note e = server_events [OF s(1) ex_start s(2,3)]
  have "mset (taken AcceptCb (cs_log s)) + mset (chan_at (cs_conns s) (cs_lst s) AcceptCb) = mset (called_with AcceptCb (ns_done (cs_net s)))"
    using conjunct1 [OF conjunct2 [OF e]] by blast
  with conjunct1 [OF e] s(4,5) show ?thesis
    by (intro exI [of _ s] exI [of _ ud] exI [of _ ev]) simp
qed

theorem server_conns_witness:
  "\<exists>(s :: (TCPAddr, unit) csys) c. cs_conns s = [c] \<and> c_fd c = 4 \<and> op_Fd (c_readOp c) = Some 4 \<and> op_Fd (c_sendOp c) = Some 4"
proof -
  obtain r :: "(kring, conn_cb, unit) NetworkReactor" and s :: "(TCPAddr, unit) csys" and ud ev where
    s: "NewNet [ex_kring] [] = Ok (Inr r)" "(conn_step ex_sock (\<lambda>_. Inr ex_addr))\<^sup>*\<^sup>* (serve_init r ex_listener) s" "\<not> ns_torn (cs_net s)"
    "cs_log s = [(AcceptCb, ud, ev)]" "cqe_Res ev = 4"
    using ex_accepted [of "\<lambda>_. Inr ex_addr"] by (elim exE conjE) (rule that)
  have "CQEvent_Error ev = None" using s(5) by (simp add: CQEvent_Error_def)
  with server_conns [OF s(1) ex_start s(2,3)] s(4,5) show ?thesis by (intro exI [of _ s]) auto
qed

section \<open>Properties\<close>

text \<open>
  C9. Consumers that take one step at a time implement the server of the other theorems. In every run in
  which looking at the queue, handling one event, waiting for its receiver and moving the head are
  steps of their own, interleaved with everything else, as long as no request was torn: with the
  handled events passed and the pending call put on its channel, the state is reached by a run of the
  server in which a batch is one step. For every consumer inside a batch: all pointers of its buffer
  still read the events they were made for, although the kernel has been posting; and if there is an
  event left, the consumer finds its callback and handles it without a panic.
\<close>

theorem batches_refine:
  assumes "NewNet rings opts = Ok (Inr r)" and "\<forall>x\<in>set rings. kring_wf x \<and> live x = []" and "rings \<noteq> []"
    and "NewListener sos resolve raw len ka addr w = (Inr l, w')" and "0 \<le> l_sockFd l" and "l_sockFd l < 2 ^ 31"
    and "(serve_step os peer)\<^sup>*\<^sup>* (batch_init r l) s" and "\<not> ns_torn (fs_net s)"
  shows "(conn_step os peer)\<^sup>*\<^sup>* (serve_init r l) (unblocked (served s)) \<and>
     cs_log (unblocked (served s)) = cs_log (bs_srv (fs_blk s)) \<and>
     (\<forall>j n i buff. j < length (nr_loops (ns_net (fs_net s))) \<longrightarrow> fs_pos s ! j = InBatch n i buff \<longrightarrow>
        (let ring = nl_ring (nr_loops (ns_net (fs_net s)) ! j) in
         i \<le> n \<and> n \<le> length (cq_ready (cqRing ring)) \<and>
         (\<forall>m<n. \<exists>q. buff ! m = Some q \<and> cqe_at ring q = Ok (cq_ready (cqRing ring) ! m)) \<and>
         (i < n \<longrightarrow> (\<exists>reg' calls. dispatch take_registered ring [buff ! i] (nr_registry (ns_net (fs_net s))) = Ok (reg', calls) \<and>
            map snd calls = user_events [cq_ready (cqRing ring) ! i]))))"
proof -
  note inv = batch_reached(1) [OF assms]
  have "let ring = nl_ring (nr_loops (ns_net (fs_net s)) ! j) in
         i \<le> n \<and> n \<le> length (cq_ready (cqRing ring)) \<and>
         (\<forall>m<n. \<exists>q. buff ! m = Some q \<and> cqe_at ring q = Ok (cq_ready (cqRing ring) ! m)) \<and>
         (i < n \<longrightarrow> (\<exists>reg' calls. dispatch take_registered ring [buff ! i] (nr_registry (ns_net (fs_net s))) = Ok (reg', calls) \<and>
            map snd calls = user_events [cq_ready (cqRing ring) ! i]))"
    if j: "j < length (nr_loops (ns_net (fs_net s)))" and pos: "fs_pos s ! j = InBatch n i buff" for j n i buff
  proof -
    have b: "batch_ok (nl_ring (nr_loops (ns_net (fs_net s)) ! j)) (InBatch n i buff)"
      using pos_okD(1) [OF _ j] inv pos unfolding batch_inv_def by metis
    then have "i \<le> n" "n \<le> length (cq_ready (cqRing (nl_ring (nr_loops (ns_net (fs_net s)) ! j))))"
      by (simp_all del: length_cq_ready)
    with batch_pointer [OF b] next_event [OF inv j refl pos] show ?thesis unfolding Let_def by blast
  qed
  with batch_reached(2) [OF assms] show ?thesis by simp
qed

theorem batches_refine_witness:
  "\<exists>(s :: (TCPAddr, unit) fsys) buff ev q reg' cb. fs_pos s ! 0 = InBatch 1 0 buff \<and> buff ! 0 = Some q \<and> cqe_Res ev = 4 \<and>
     cqe_at (nl_ring (nr_loops (ns_net (fs_net s)) ! 0)) q = Ok ev \<and>
     dispatch take_registered (nl_ring (nr_loops (ns_net (fs_net s)) ! 0)) [buff ! 0] (nr_registry (ns_net (fs_net s)))
       = Ok (reg', [(cb, ev)])"
proof -
  obtain r :: "(kring, conn_cb, unit) NetworkReactor" and s :: "(TCPAddr, unit) fsys" and buff ev where
    s: "NewNet [ex_kring] [] = Ok (Inr r)" "(serve_step ex_sock (\<lambda>_. Inr ex_addr))\<^sup>*\<^sup>* (batch_init r ex_listener) s"
    "\<not> ns_torn (fs_net s)" "length (nr_loops (ns_net (fs_net s))) = 1" "fs_pos s ! 0 = InBatch 1 0 buff"
    "cq_ready (cqRing (nl_ring (nr_loops (ns_net (fs_net s)) ! 0))) = [ev]" "user_nonce (cqe_UserData ev)" "cqe_Res ev = 4"
    "cs_log (bs_srv (fs_blk s)) = []" "bs_calls (fs_blk s) = []"
    using ex_accept_batch [of "\<lambda>_. Inr ex_addr"] by (elim exE conjE) (rule that)
  let ?ring = "nl_ring (nr_loops (ns_net (fs_net s)) ! 0)"
  from batches_refine [OF s(1) ex_start s(2,3)] s(4,5) obtain q reg' calls where
    q: "buff ! 0 = Some q" "cqe_at ?ring q = Ok (cq_ready (cqRing ?ring) ! 0)"
    "dispatch take_registered ?ring [buff ! 0] (nr_registry (ns_net (fs_net s))) = Ok (reg', calls)"
    "map snd calls = user_events [cq_ready (cqRing ?ring) ! 0]"
    unfolding Let_def by fastforce
  then obtain cb where "calls = [(cb, ev)]" using s(6,7) by (auto simp: user_events_def)
  with q s(5,6,8) show ?thesis by (intro exI [of _ s] exI [of _ buff] exI [of _ ev] exI [of _ q] exI [of _ reg'] exI [of _ cb]) simp
qed

text \<open>
  C10. Every batch is completed. In every state of a run, as long as no request was torn, a consumer inside a
  batch gets through it by its own steps and those of callers, with no step of the reactor's other goroutines
  or of the kernel: every call still to be made, by any consumer, is received, the events that
  are left are handed to their callers in the order in which they were posted, those of the
  library's own timeouts and cancellations excepted, and the head of the queue moves past the batch.
\<close>

theorem batch_completes:
  assumes "NewNet rings opts = Ok (Inr r)" and "\<forall>x\<in>set rings. kring_wf x \<and> live x = []" and "rings \<noteq> []"
    and "NewListener sos resolve raw len ka addr w = (Inr l, w')" and "0 \<le> l_sockFd l" and "l_sockFd l < 2 ^ 31"
    and "(serve_step os peer)\<^sup>*\<^sup>* (batch_init r l) s" and "\<not> ns_torn (fs_net s)"
    and "j < length (nr_loops (ns_net (fs_net s)))" and "fs_pos s ! j = InBatch n i buff"
  shows "\<exists>s' old new. (serve_by os peer j)\<^sup>*\<^sup>* s s' \<and> fs_pos s' ! j = Between \<and> bs_calls (fs_blk s') = [] \<and>
     (let ring = nl_ring (nr_loops (ns_net (fs_net s)) ! j) in
      nl_ring (nr_loops (ns_net (fs_net s')) ! j) = AdvanceCQ (of_nat n) ring \<and>
      cs_log (bs_srv (fs_blk s')) = cs_log (bs_srv (fs_blk s)) @ old @ new \<and>
      map (\<lambda>(cb, ud, ev). (cb, ev)) old = map snd (bs_calls (fs_blk s)) \<and>
      map (\<lambda>(cb, ud, ev). ev) new = user_events (drop i (take n (cq_ready (cqRing ring)))))"
proof -
  have "batch_inv s" by (rule batch_reached [OF assms(1-8)])
  from batch_done [OF this assms(8,9) refl assms(10), of os peer] show ?thesis
    unfolding deliveries_def log_events_def Let_def by blast
qed

theorem batch_completes_witness:
  "\<exists>(s :: (TCPAddr, unit) fsys) s' cb ud ev. (serve_by ex_sock (\<lambda>_. Inr ex_addr) 0)\<^sup>*\<^sup>* s s' \<and> cs_log (bs_srv (fs_blk s)) = [] \<and>
     fs_pos s' ! 0 = Between \<and> bs_calls (fs_blk s') = [] \<and> cs_log (bs_srv (fs_blk s')) = [(cb, ud, ev)] \<and> cqe_Res ev = 4"
proof -
  obtain r :: "(kring, conn_cb, unit) NetworkReactor" and s :: "(TCPAddr, unit) fsys" and buff ev where
    s: "NewNet [ex_kring] [] = Ok (Inr r)" "(serve_step ex_sock (\<lambda>_. Inr ex_addr))\<^sup>*\<^sup>* (batch_init r ex_listener) s"
    "\<not> ns_torn (fs_net s)" "length (nr_loops (ns_net (fs_net s))) = 1" "fs_pos s ! 0 = InBatch 1 0 buff"
    "cq_ready (cqRing (nl_ring (nr_loops (ns_net (fs_net s)) ! 0))) = [ev]" "user_nonce (cqe_UserData ev)" "cqe_Res ev = 4"
    "cs_log (bs_srv (fs_blk s)) = []" "bs_calls (fs_blk s) = []"
    using ex_accept_batch [of "\<lambda>_. Inr ex_addr"] by (elim exE conjE) (rule that)
  have j: "0 < length (nr_loops (ns_net (fs_net s)))" using s(4) by simp
  from batch_completes [OF s(1) ex_start s(2,3) j s(5)] obtain s' new where
    s': "(serve_by ex_sock (\<lambda>_. Inr ex_addr) 0)\<^sup>*\<^sup>* s s'" "fs_pos s' ! 0 = Between" "bs_calls (fs_blk s') = []"
    "cs_log (bs_srv (fs_blk s')) = new" "map (\<lambda>(cb, ud, ev). ev) new = [ev]"
    using s(6,7,9,10) by (auto simp: user_events_def)
  then obtain cb ud where "new = [(cb, ud, ev)]" by (cases new) auto
  with s' s(8,9) show ?thesis by (intro exI [of _ s] exI [of _ s'] exI [of _ cb] exI [of _ ud] exI [of _ ev]) simp
qed

end
