(* ===== verification/Example_Epoll.thy ===== *)
theory Example_Epoll
  imports Net_Listener
begin

text \<open>
  The echo server of \<^verbatim>\<open>src/example/echo-server/epoll/epoll.go\<close>, which the others are compared with: one
  goroutine, an epoll instance, one buffer. It does not use the library. The system calls are a
  parameter; \<^verbatim>\<open>log.Fatalf\<close> is a panic with the error, since both end the process.
\<close>

section \<open>The server\<close>

definition MaxEvents :: nat where "MaxEvents = 1024"
definition BufferSize :: nat where "BufferSize = 2048"

text \<open>
  The calls on an epoll instance and on connections. \<^verbatim>\<open>Read\<close> returns the bytes it put into the buffer,
  \<^verbatim>\<open>EpollWait\<close> the descriptors of the events, at most as many as asked for.
\<close>

record 'w epoll_os =
  ep_create1 :: "int \<Rightarrow> 'w \<Rightarrow> (go_error + int) \<times> 'w"
  ep_ctl_add :: "int \<Rightarrow> int \<Rightarrow> u32 \<Rightarrow> 'w \<Rightarrow> go_error option \<times> 'w"
  ep_wait :: "int \<Rightarrow> nat \<Rightarrow> 'w \<Rightarrow> (go_error + int list) \<times> 'w"
  ep_accept4 :: "int \<Rightarrow> int \<Rightarrow> 'w \<Rightarrow> (go_error + int) \<times> 'w"
  ep_read :: "int \<Rightarrow> nat \<Rightarrow> 'w \<Rightarrow> (go_error + u8 list) \<times> 'w"
  ep_write :: "int \<Rightarrow> u8 list \<Rightarrow> 'w \<Rightarrow> (go_error + nat) \<times> 'w"

abbreviation (input) "EPOLLIN \<equiv> 1 :: u32"
abbreviation (input) "EPOLLIN_ET \<equiv> 0x80000001 :: u32"
abbreviation (input) "SOCK_NONBLOCK \<equiv> 0x800 :: int"

definition epoll_checkErr :: "string \<Rightarrow> go_error option \<Rightarrow> unit outcome" where
  "epoll_checkErr pattern err = (case err of None \<Rightarrow> Ok () | Some e \<Rightarrow> Panic (PanicErr e))"

definition handleConnection :: "'w epoll_os \<Rightarrow> int \<Rightarrow> 'w \<Rightarrow> 'w outcome" where
  "handleConnection os fd w =
     (case ep_read os fd BufferSize w of
        (Inl err, _) \<Rightarrow> Panic (PanicErr err)
      | (Inr buf, w1) \<Rightarrow>
          if length buf = 0 then Ok w1
          else (case ep_write os fd buf w1 of
                  (Inl err, _) \<Rightarrow> Panic (PanicErr err)
                | (Inr _, w2) \<Rightarrow> Ok w2))"

text \<open>One event of a batch, a batch, and a round of the loop.\<close>

definition epoll_event :: "'w epoll_os \<Rightarrow> int \<Rightarrow> int \<Rightarrow> int \<Rightarrow> 'w \<Rightarrow> 'w outcome" where
  "epoll_event os epFd sockFd fd w =
     (if fd = sockFd
      then (case ep_accept4 os sockFd SOCK_NONBLOCK w of
              (Inl err, w1) \<Rightarrow> Ok w1
            | (Inr connFd, w1) \<Rightarrow>
                (case ep_ctl_add os epFd connFd EPOLLIN_ET w1 of (err, w2) \<Rightarrow>
                   obind (epoll_checkErr ''Error adding connection to epoll:'' err) (\<lambda>_. Ok w2)))
      else handleConnection os fd w)"

fun epoll_events :: "'w epoll_os \<Rightarrow> int \<Rightarrow> int \<Rightarrow> int list \<Rightarrow> 'w \<Rightarrow> 'w outcome" where
  "epoll_events os epFd sockFd [] w = Ok w"
| "epoll_events os epFd sockFd (fd # fds) w = obind (epoll_event os epFd sockFd fd w) (epoll_events os epFd sockFd fds)"

text \<open>\<^verbatim>\<open>EINTR\<close> is 4.\<close>

definition epoll_round :: "'w epoll_os \<Rightarrow> int \<Rightarrow> int \<Rightarrow> 'w \<Rightarrow> 'w outcome" where
  "epoll_round os epFd sockFd w =
     (case ep_wait os epFd MaxEvents w of
        (Inl err, w1) \<Rightarrow> if err = Errno 4 then Ok w1
          else obind (epoll_checkErr ''Error waiting for epoll:'' (Some err)) (\<lambda>_. Ok w1)
      | (Inr events, w1) \<Rightarrow> epoll_events os epFd sockFd events w1)"

text \<open>\<^verbatim>\<open>main\<close> up to the loop; \<^verbatim>\<open>net.ParseIP\<close> gives the sixteen-byte form of the address.\<close>

definition epoll_start :: "'w sock_os \<Rightarrow> 'w epoll_os \<Rightarrow> int \<Rightarrow> 'w \<Rightarrow> (int \<times> int \<times> 'w) outcome" where
  "epoll_start so os port w =
     (case so_socket so AF_INET 1 0 w of
        (Inl err, _) \<Rightarrow> Panic (PanicErr err)
      | (Inr sockFd, w1) \<Rightarrow>
          (case so_bind so sockFd \<lparr>sa_Port = port,
               sa_Addr = copy4 (To4 (replicate 10 0 @ [0xff, 0xff, 127, 0, 0, 1]))\<rparr> w1 of (err, w2) \<Rightarrow>
           obind (epoll_checkErr ''Error binding socket:'' err) (\<lambda>_.
           case so_listen so sockFd SOMAXCONN w2 of (err, w3) \<Rightarrow>
           obind (epoll_checkErr ''Error listening on socket:'' err) (\<lambda>_.
           case so_setnonblock so sockFd True w3 of (err, w4) \<Rightarrow>
           obind (epoll_checkErr ''Error setting socket to non-blocking:'' err) (\<lambda>_.
           case ep_create1 os 0 w4 of
             (Inl err, _) \<Rightarrow> Panic (PanicErr err)
           | (Inr epFd, w5) \<Rightarrow>
               (case ep_ctl_add os epFd sockFd EPOLLIN w5 of (err, w6) \<Rightarrow>
                obind (epoll_checkErr ''Error adding socket to epoll:'' err) (\<lambda>_. Ok (sockFd, epFd, w6))))))))"

text \<open>A run: rounds of the server, and what the world does in between.\<close>

inductive epoll_step :: "'w epoll_os \<Rightarrow> int \<Rightarrow> int \<Rightarrow> ('w \<Rightarrow> 'w \<Rightarrow> bool) \<Rightarrow> 'w \<Rightarrow> 'w \<Rightarrow> bool"
  for os epFd sockFd env where
  round: "epoll_round os epFd sockFd w = Ok w' \<Longrightarrow> epoll_step os epFd sockFd env w w'"
| world: "env w w' \<Longrightarrow> epoll_step os epFd sockFd env w w'"

inductive_simps epoll_step_iff: "epoll_step os epFd sockFd env w w'"

section \<open>Edge-triggered connections\<close>

text \<open>
  What a connection holds: the bytes that arrived and were not read, the bytes sent, whether it is
  open, whether it is armed, that is whether data has arrived since its last event was reported, and the
  flags it was registered with. \<^verbatim>\<open>EPOLLET\<close> is bit 31.
\<close>

record 'w sock_view =
  inbox :: "'w \<Rightarrow> int \<Rightarrow> u8 list"
  sent :: "'w \<Rightarrow> int \<Rightarrow> u8 list"
  armed :: "'w \<Rightarrow> int set"
  opened :: "'w \<Rightarrow> int set"
  interest :: "'w \<Rightarrow> int \<Rightarrow> u32"

definition leaves :: "'w sock_view \<Rightarrow> int \<Rightarrow> 'w \<Rightarrow> 'w \<Rightarrow> bool" where
  "leaves v fd w w' \<longleftrightarrow> inbox v w' fd = inbox v w fd \<and> sent v w' fd = sent v w fd \<and>
     (fd \<in> armed v w' \<longleftrightarrow> fd \<in> armed v w) \<and> (fd \<in> opened v w \<longrightarrow> fd \<in> opened v w') \<and>
     interest v w' fd = interest v w fd"

text \<open>
  The documented behaviour of the calls: a read takes what has arrived, at most the size of the
  buffer; a write sends a prefix; a call on one descriptor leaves the others alone; a new connection
  has a descriptor that was not open; a descriptor that is added is registered with the flags that were passed;
  and a connection registered with \<^verbatim>\<open>EPOLLET\<close> is reported once for data that has arrived, however much of it
  is read.
\<close>

definition keeps_open :: "'w sock_view \<Rightarrow> int \<Rightarrow> 'w \<Rightarrow> 'w \<Rightarrow> bool" where
  "keeps_open v fd w w' \<longleftrightarrow> (fd \<in> armed v w' \<longleftrightarrow> fd \<in> armed v w) \<and> (fd \<in> opened v w \<longrightarrow> fd \<in> opened v w') \<and>
     interest v w' fd = interest v w fd"

definition reads_ok :: "'w epoll_os \<Rightarrow> 'w sock_view \<Rightarrow> bool" where
  "reads_ok os v \<longleftrightarrow> (\<forall>fd n w bs w'. ep_read os fd n w = (Inr bs, w') \<longrightarrow>
     length bs \<le> n \<and> inbox v w fd = bs @ inbox v w' fd \<and> sent v w' fd = sent v w fd \<and> keeps_open v fd w w' \<and>
     (\<forall>fd'. fd' \<noteq> fd \<longrightarrow> leaves v fd' w w'))"

definition writes_ok :: "'w epoll_os \<Rightarrow> 'w sock_view \<Rightarrow> bool" where
  "writes_ok os v \<longleftrightarrow> (\<forall>fd bs w m w'. ep_write os fd bs w = (Inr m, w') \<longrightarrow>
     inbox v w' fd = inbox v w fd \<and> sent v w' fd = sent v w fd @ take m bs \<and> keeps_open v fd w w' \<and>
     (\<forall>fd'. fd' \<noteq> fd \<longrightarrow> leaves v fd' w w'))"

definition accepts_ok :: "'w epoll_os \<Rightarrow> 'w sock_view \<Rightarrow> bool" where
  "accepts_ok os v \<longleftrightarrow> (\<forall>fd fl w res w'. ep_accept4 os fd fl w = (res, w') \<longrightarrow>
     (\<forall>fd'. fd' \<in> opened v w \<longrightarrow> leaves v fd' w w' \<and> res \<noteq> Inr fd')) \<and>
     (\<forall>ep fd ev w err w'. ep_ctl_add os ep fd ev w = (err, w') \<longrightarrow>
       (err = None \<longrightarrow> interest v w' fd = ev) \<and> (\<forall>fd'. fd' \<noteq> fd \<longrightarrow> leaves v fd' w w'))"

definition waits_ok :: "'w epoll_os \<Rightarrow> 'w sock_view \<Rightarrow> bool" where
  "waits_ok os v \<longleftrightarrow> (\<forall>ep n w res w'. ep_wait os ep n w = (res, w') \<longrightarrow>
     (\<forall>fd. fd \<in> opened v w \<longrightarrow> bit (interest v w fd) 31 \<longrightarrow> fd \<notin> armed v w \<longrightarrow> leaves v fd w w' \<and> (\<forall>fds. res = Inr fds \<longrightarrow> fd \<notin> set fds)))"

definition edge_triggered :: "'w epoll_os \<Rightarrow> 'w sock_view \<Rightarrow> bool" where
  "edge_triggered os v \<longleftrightarrow> reads_ok os v \<and> writes_ok os v \<and> accepts_ok os v \<and> waits_ok os v"

lemma leaves_refl [simp]: "leaves v fd w w"
  by (simp add: leaves_def)

lemma leaves_trans: "leaves v fd w w' \<Longrightarrow> leaves v fd w' w'' \<Longrightarrow> leaves v fd w w''"
  by (simp add: leaves_def)

lemma keeps_open_trans: "keeps_open v fd w w' \<Longrightarrow> keeps_open v fd w' w'' \<Longrightarrow> keeps_open v fd w w''"
  by (simp add: keeps_open_def)

lemma handleConnection_echoes:
  assumes e: "edge_triggered os v" and "handleConnection os fd w = Ok w'"
  shows "\<exists>bs m. length bs \<le> BufferSize \<and> inbox v w fd = bs @ inbox v w' fd \<and> sent v w' fd = sent v w fd @ take m bs \<and>
     keeps_open v fd w w' \<and> (\<forall>fd'. fd' \<noteq> fd \<longrightarrow> leaves v fd' w w')"
proof -
  obtain bs w1 where r: "ep_read os fd BufferSize w = (Inr bs, w1)"
    and rest: "if length bs = 0 then w' = w1 else \<exists>m. ep_write os fd bs w1 = (Inr m, w')"
    using assms(2) by (auto simp: handleConnection_def split: prod.splits sum.splits if_splits)
  have "reads_ok os v" using e by (simp add: edge_triggered_def)
  with r have a: "length bs \<le> BufferSize \<and> inbox v w fd = bs @ inbox v w1 fd \<and> sent v w1 fd = sent v w fd \<and>
      keeps_open v fd w w1 \<and> (\<forall>fd'. fd' \<noteq> fd \<longrightarrow> leaves v fd' w w1)" unfolding reads_ok_def by blast
  show ?thesis
  proof (cases "length bs = 0")
    case True
    with a rest show ?thesis by auto
  next
    case False
    with rest obtain m where m: "ep_write os fd bs w1 = (Inr m, w')" by auto
    have "writes_ok os v" using e by (simp add: edge_triggered_def)
    with m have "inbox v w' fd = inbox v w1 fd \<and> sent v w' fd = sent v w1 fd @ take m bs \<and> keeps_open v fd w1 w' \<and>
      (\<forall>fd'. fd' \<noteq> fd \<longrightarrow> leaves v fd' w1 w')" unfolding writes_ok_def by blast
    with a show ?thesis
      by (intro exI [of _ bs] exI [of _ m]) (auto intro: leaves_trans keeps_open_trans)
  qed
qed

text \<open>A connection that is not armed is not touched.\<close>

lemma epoll_event_leaves:
  assumes "edge_triggered os v" and "epoll_event os epFd sockFd fd' w = Ok w'" and "fd \<in> opened v w" and "fd \<noteq> fd'"
  shows "leaves v fd w w'"
proof (cases "fd' = sockFd")
  case True
  have ok: "accepts_ok os v" using assms(1) by (simp add: edge_triggered_def)
  obtain res w1 where a: "ep_accept4 os sockFd SOCK_NONBLOCK w = (res, w1)" by (metis surj_pair)
  then have l: "leaves v fd w w1" "res \<noteq> Inr fd" using ok assms(3) by (auto simp: accepts_ok_def)
  show ?thesis
  proof (cases res)
    case (Inr c)
    then obtain err where "ep_ctl_add os epFd c EPOLLIN_ET w1 = (err, w')"
      using assms(2) a True by (auto simp: epoll_event_def go_outcome split: prod.splits)
    then have "leaves v fd w1 w'" using ok l(2) Inr by (auto simp: accepts_ok_def)
    with l(1) show ?thesis by (rule leaves_trans)
  qed (use assms(2) a True l in \<open>auto simp: epoll_event_def\<close>)
next
  case False
  with assms handleConnection_echoes [OF assms(1), of fd' w w'] show ?thesis by (auto simp: epoll_event_def)
qed

lemma epoll_events_leave:
  assumes "edge_triggered os v" and "epoll_events os epFd sockFd fds w = Ok w'" and "fd \<in> opened v w" and "fd \<notin> set fds"
  shows "leaves v fd w w'"
  using assms(2-)
proof (induction fds arbitrary: w)
  case (Cons x fds)
  then obtain w1 where w1: "epoll_event os epFd sockFd x w = Ok w1" "epoll_events os epFd sockFd fds w1 = Ok w'"
    by (auto simp: go_outcome)
  have l: "leaves v fd w w1" using epoll_event_leaves [OF assms(1) w1(1)] Cons.prems by simp
  then have "fd \<in> opened v w1" using Cons.prems(2) by (simp add: leaves_def)
  with Cons.IH [OF w1(2)] Cons.prems(3) l show ?case by (auto intro: leaves_trans)
qed simp

lemma epoll_round_leaves:
  assumes "edge_triggered os v" and "epoll_round os epFd sockFd w = Ok w'"
    and fd: "fd \<in> opened v w" "fd \<notin> armed v w" "bit (interest v w fd) 31"
  shows "leaves v fd w w'"
proof -
  obtain res w1 where a: "ep_wait os epFd MaxEvents w = (res, w1)" by (metis surj_pair)
  then have l: "leaves v fd w w1" "\<And>fds. res = Inr fds \<Longrightarrow> fd \<notin> set fds"
    using assms(1) fd by (auto simp: edge_triggered_def waits_ok_def)
  show ?thesis
  proof (cases res)
    case (Inr fds)
    then have "leaves v fd w1 w'"
      using epoll_events_leave [OF assms(1), of epFd sockFd fds w1 w' fd] assms(2) a fd l by (simp add: epoll_round_def leaves_def)
    with l(1) show ?thesis by (rule leaves_trans)
  qed (use assms(2) a l in \<open>auto simp: epoll_round_def epoll_checkErr_def split: if_splits\<close>)
qed

text \<open>The server registers the connections it accepts as edge-triggered.\<close>

lemma accepted_interest:
  assumes "edge_triggered os v" and "ep_accept4 os sockFd SOCK_NONBLOCK w = (Inr c, w1)"
    and "epoll_event os epFd sockFd sockFd w = Ok w'"
  shows "interest v w' c = EPOLLIN_ET"
  using assms by (auto simp: epoll_event_def epoll_checkErr_def edge_triggered_def accepts_ok_def go_outcome
      split: prod.splits option.splits)

text \<open>Data that was left in a connection stays there until more arrives.\<close>

definition stalled :: "'w sock_view \<Rightarrow> int \<Rightarrow> 'w \<Rightarrow> 'w \<Rightarrow> bool" where
  "stalled v fd w\<^sub>0 w \<longleftrightarrow> leaves v fd w\<^sub>0 w \<and> fd \<in> opened v w \<and> fd \<notin> armed v w \<and> bit (interest v w fd) 31"

interpretation epoll_runs: invariant_system "epoll_step os epFd sockFd env"
    "\<lambda>_. edge_triggered os v \<and> (\<forall>w w'. env w w' \<longrightarrow> leaves v fd w w')" "stalled v fd w\<^sub>0"
  for os epFd sockFd env v fd w\<^sub>0
proof (unfold_locales, goal_cases)
  case (2 w w')
  have "leaves v fd w w'"
    using 2 epoll_round_leaves by (auto simp: epoll_step_iff stalled_def)
  with 2(4) show ?case by (auto simp: stalled_def leaves_def)
qed

section \<open>A small world\<close>

text \<open>One connection, descriptor 5: what has arrived, what was sent, whether it is armed; and the registrations.\<close>

type_synonym ex_world = "u8 list \<times> u8 list \<times> bool \<times> (int \<Rightarrow> u32)"

definition ex_epoll :: "ex_world epoll_os" where
  "ex_epoll = \<lparr>ep_create1 = (\<lambda>fl w. (Inr 4, w)), ep_ctl_add = (\<lambda>ep fd ev (i, j, a, f). (None, (i, j, a, f(fd := ev)))),
     ep_wait = (\<lambda>ep n (i, j, a, f). (Inr (if a then [5] else []), (i, j, False, f))),
     ep_accept4 = (\<lambda>fd fl w. (Inl (Errno 11), w)),
     ep_read = (\<lambda>fd n (i, j, a, f). if fd = 5 then (Inr (take n i), (drop n i, j, a, f)) else (Inr [], (i, j, a, f))),
     ep_write = (\<lambda>fd bs (i, j, a, f). if fd = 5 then (Inr (length bs), (i, j @ bs, a, f)) else (Inr 0, (i, j, a, f)))\<rparr>"

definition ex_view :: "ex_world sock_view" where
  "ex_view = \<lparr>inbox = (\<lambda>(i, j, a, f) fd. if fd = 5 then i else []), sent = (\<lambda>(i, j, a, f) fd. if fd = 5 then j else []),
     armed = (\<lambda>(i, j, a, f). if a then {5} else {}), opened = (\<lambda>_. {5}), interest = (\<lambda>(i, j, a, f). f)\<rparr>"

lemma ex_epoll_edge: "edge_triggered ex_epoll ex_view"
  by (auto simp: edge_triggered_def reads_ok_def writes_ok_def accepts_ok_def waits_ok_def leaves_def keeps_open_def
      ex_epoll_def ex_view_def split: if_splits)

section \<open>Properties\<close>

text \<open>
  C38. The epoll server forgets what does not fit its buffer. It registers every connection it accepts as
  edge-triggered. The handler of such a connection reads once, at most 2048 bytes, and sends back (a prefix of) what it
  read; whatever the server does afterwards, the rest of the data stays unread and unanswered until more data arrives on
  that connection. A client that waits for the echo of a longer message waits for ever.
\<close>

theorem epoll_leftover_stalls:
  assumes "edge_triggered os v" and "fd \<in> opened v w" and "fd \<notin> armed v w" and "interest v w fd = EPOLLIN_ET"
    and "handleConnection os fd w = Ok w1"
    and "\<forall>w w'. env w w' \<longrightarrow> leaves v fd w w'" and "(epoll_step os epFd sockFd env)\<^sup>*\<^sup>* w1 w2"
  shows "(\<exists>bs m. length bs \<le> 2048 \<and> inbox v w fd = bs @ inbox v w2 fd \<and> sent v w2 fd = sent v w fd @ take m bs \<and>
        (2048 < length (inbox v w fd) \<longrightarrow> inbox v w2 fd \<noteq> [])) \<and>
     (\<forall>u c u1 u'. ep_accept4 os sockFd SOCK_NONBLOCK u = (Inr c, u1) \<longrightarrow> epoll_event os epFd sockFd sockFd u = Ok u' \<longrightarrow>
        interest v u' c = EPOLLIN_ET)"
proof -
  obtain bs m where h: "length bs \<le> BufferSize" "inbox v w fd = bs @ inbox v w1 fd" "sent v w1 fd = sent v w fd @ take m bs"
    "keeps_open v fd w w1" using handleConnection_echoes [OF assms(1,5)] by blast
  have "bit (interest v w fd) 31" unfolding assms(4) by code_simp
  then have "stalled v fd w1 w1" using h(4) assms(2,3) by (simp add: stalled_def keeps_open_def)
  with epoll_runs.run_keeps [OF assms(7)] assms(1,6) have "stalled v fd w1 w2" by blast
  with h have "\<exists>bs m. length bs \<le> 2048 \<and> inbox v w fd = bs @ inbox v w2 fd \<and> sent v w2 fd = sent v w fd @ take m bs \<and>
      (2048 < length (inbox v w fd) \<longrightarrow> inbox v w2 fd \<noteq> [])"
    by (intro exI [of _ bs] exI [of _ m]) (auto simp: stalled_def leaves_def BufferSize_def)
  with accepted_interest [OF assms(1)] show ?thesis by blast
qed

theorem epoll_leftover_stalls_witness:
  "\<exists>w1. handleConnection ex_epoll 5 (replicate 3000 7, [], False, \<lambda>_. EPOLLIN_ET) = Ok w1 \<and>
     (\<forall>w2. (epoll_step ex_epoll 4 3 (\<lambda>w w'. w' = w))\<^sup>*\<^sup>* w1 w2 \<longrightarrow> inbox ex_view w2 5 \<noteq> [])"
proof -
  let ?w = "(replicate 3000 7, [], False, \<lambda>_. EPOLLIN_ET) :: ex_world"
  let ?w1 = "(replicate 952 7, replicate 2048 7, False, \<lambda>_. EPOLLIN_ET) :: ex_world"
  have r: "take 2048 (replicate 3000 (7 :: u8)) = replicate 2048 7" "drop 2048 (replicate 3000 (7 :: u8)) = replicate 952 7"
    by (simp_all add: take_replicate)
  have h: "handleConnection ex_epoll 5 ?w = Ok ?w1"
    by (simp only: handleConnection_def ex_epoll_def BufferSize_def epoll_os.simps prod.case if_True refl r sum.case) simp
  have "inbox ex_view w2 5 \<noteq> []" if "(epoll_step ex_epoll 4 3 (\<lambda>w w'. w' = w))\<^sup>*\<^sup>* ?w1 w2" for w2
    using epoll_leftover_stalls [OF ex_epoll_edge, of 5 ?w ?w1 "\<lambda>w w'. w' = w" 4 3 w2] h that by (auto simp: ex_view_def)
  with h show ?thesis by blast
qed

end
