(* ===== verification/Example_Echo.thy ===== *)
theory Example_Echo
  imports Net_Listener Reactor_Kernel
begin

text \<open>
  The echo server of \<^verbatim>\<open>src/example/echo-server/uring/uring.go\<close>: one goroutine that drives a ring
  directly. Every descriptor has a slot in a table of connections and a buffer; the user data of a
  request is the descriptor, and the type in the slot tells which of the three operations a
  completion belongs to.

  The main goroutine is a state machine whose program counter says where in the loop it is; the
  kernel moves between any two of its steps. \<^verbatim>\<open>log.Fatal\<close> ends the process, in the model with the
  panic that carries the error. Shutdowns of sockets are recorded in the order of the calls.
\<close>

section \<open>State\<close>

definition MaxConns :: nat where "MaxConns = 4096"
definition Backlog :: nat where "Backlog = 512"
definition MaxMsgLen :: nat where "MaxMsgLen = 2048"

datatype connType = NoType | ACCEPT | READ | WRITE

record connInfo =
  ci_fd :: int
  ci_typ :: connType
  ci_sendOp :: Operation
  ci_recvOp :: Operation

definition makeConns :: "connInfo list" where
  "makeConns = map (\<lambda>fd. \<lparr>ci_fd = 0, ci_typ = NoType, ci_sendOp = Send (of_nat fd) nil_slice 0,
     ci_recvOp = Recv (of_nat fd) nil_slice 0\<rparr>) [0..<MaxConns]"

text \<open>\<open>alloc\<close> gives the address of each buffer \<^verbatim>\<open>make\<close> allocates.\<close>

definition makeBuffers :: "(nat \<Rightarrow> u64) \<Rightarrow> slice list" where
  "makeBuffers alloc = map (\<lambda>i. \<lparr>sl_base = alloc i, sl_len = MaxMsgLen\<rparr>) [0..<MaxConns]"

text \<open>The points of the loop of \<^verbatim>\<open>main\<close>; \<open>AtEvent i n\<close> is the head of the inner loop.\<close>

datatype echo_pc = AtSubmit | AtWait | AtPeek | AtEvent nat nat

record echo =
  es_ring :: kring
  es_conns :: "connInfo list"
  es_buffs :: "slice list"
  es_cqes :: "cqe_ptr option list"
  es_shut :: "int list"
  es_pc :: echo_pc

section \<open>Queueing operations\<close>

definition checkErr :: "go_error option \<Rightarrow> unit outcome" where
  "checkErr err = (case err of None \<Rightarrow> Ok () | Some e \<Rightarrow> Panic (PanicErr e))"

text \<open>\<^verbatim>\<open>conns[fd]\<close>, \<^verbatim>\<open>buffs[fd]\<close> and \<^verbatim>\<open>buff[:n]\<close> with the checks of Go.\<close>

definition conn_at :: "int \<Rightarrow> 'm echo_scheme \<Rightarrow> connInfo outcome" where
  "conn_at fd s = (if 0 \<le> fd \<and> fd < int (length (es_conns s)) then Ok (es_conns s ! nat fd) else Panic IndexOutOfRange)"

definition buff_at :: "int \<Rightarrow> 'm echo_scheme \<Rightarrow> slice outcome" where
  "buff_at fd s = (if 0 \<le> fd \<and> fd < int (length (es_buffs s)) then Ok (es_buffs s ! nat fd) else Panic IndexOutOfRange)"

definition slice_to :: "slice \<Rightarrow> int \<Rightarrow> slice outcome" where
  "slice_to b n = (if 0 \<le> n \<and> n \<le> int (sl_len b) then Ok (b\<lparr>sl_len := nat n\<rparr>) else Panic IndexOutOfRange)"

text \<open>The last two statements of the three functions below; no timespec is involved.\<close>

definition echo_queue :: "Operation \<Rightarrow> int \<Rightarrow> 'm echo_scheme \<Rightarrow> 'm echo_scheme outcome" where
  "echo_queue op fd s =
     obind (QueueSQE 0 op 0 (of_int fd) (es_ring s)) (\<lambda>(err, r).
       obind (checkErr err) (\<lambda>_. Ok (s\<lparr>es_ring := r\<rparr>)))"

definition addAccept :: "Operation \<Rightarrow> 'm echo_scheme \<Rightarrow> 'm echo_scheme outcome" where
  "addAccept acceptOp s =
     (case op_Fd acceptOp of
        None \<Rightarrow> Panic NilDeref
      | Some fd \<Rightarrow> obind (conn_at fd s) (\<lambda>ci.
          echo_queue acceptOp fd (s\<lparr>es_conns := (es_conns s)[nat fd := ci\<lparr>ci_fd := fd, ci_typ := ACCEPT\<rparr>]\<rparr>)))"

definition addRead :: "int \<Rightarrow> 'm echo_scheme \<Rightarrow> 'm echo_scheme outcome" where
  "addRead fd s =
     obind (buff_at fd s) (\<lambda>buff.
     obind (conn_at fd s) (\<lambda>ci.
       let ci' = ci\<lparr>ci_fd := fd, ci_typ := READ, ci_recvOp := SetBuffer (ci_recvOp ci) buff\<rparr>
       in echo_queue (ci_recvOp ci') fd (s\<lparr>es_conns := (es_conns s)[nat fd := ci']\<rparr>)))"

definition addWrite :: "int \<Rightarrow> int \<Rightarrow> 'm echo_scheme \<Rightarrow> 'm echo_scheme outcome" where
  "addWrite fd bytesRead s =
     obind (buff_at fd s) (\<lambda>buff.
     obind (conn_at fd s) (\<lambda>ci.
     obind (slice_to buff bytesRead) (\<lambda>out.
       let ci' = ci\<lparr>ci_fd := fd, ci_typ := WRITE, ci_sendOp := SetBuffer (ci_sendOp ci) out\<rparr>
       in echo_queue (ci_sendOp ci') fd (s\<lparr>es_conns := (es_conns s)[nat fd := ci']\<rparr>))))"

section \<open>The loop of main\<close>

definition echo_submit :: "kring kernel \<Rightarrow> 'm echo_scheme \<Rightarrow> 'm echo_scheme outcome" where
  "echo_submit k s =
     obind (Submit k (es_ring s)) (\<lambda>(_, err, r).
       obind (checkErr err) (\<lambda>_. Ok (s\<lparr>es_ring := r, es_pc := AtWait\<rparr>)))"

text \<open>\<^verbatim>\<open>EAGAIN\<close> is 11, \<^verbatim>\<open>EINTR\<close> 4; the option is that of \<^verbatim>\<open>WaitCQEvents\<close>, \<open>None\<close> when it never returns.\<close>

definition echo_wait :: "kring kernel \<Rightarrow> 'm echo_scheme \<Rightarrow> 'm echo_scheme outcome option" where
  "echo_wait k s =
     map_option (\<lambda>out. obind out (\<lambda>(_, err, r).
       let s1 = s\<lparr>es_ring := r\<rparr>
       in if err_is err (Errno 11) \<or> err_is err (Errno 4) then Ok (s1\<lparr>es_pc := AtSubmit\<rparr>)
          else obind (checkErr err) (\<lambda>_. Ok (s1\<lparr>es_pc := AtPeek\<rparr>))))
       (WaitCQEvents k 1 (es_ring s))"

definition echo_peek :: "kring kernel \<Rightarrow> 'm echo_scheme \<Rightarrow> 'm echo_scheme outcome" where
  "echo_peek k s =
     obind (PeekCQEventBatch k (es_ring s) (es_cqes s)) (\<lambda>(n, cqes, r).
       Ok (s\<lparr>es_ring := r, es_cqes := cqes, es_pc := AtEvent 0 (nat n)\<rparr>))"

text \<open>The body of the inner loop: it reads the event, gives its slot back, then dispatches on the type.\<close>

definition echo_event :: "Operation \<Rightarrow> nat \<Rightarrow> 'm echo_scheme \<Rightarrow> 'm echo_scheme outcome" where
  "echo_event acceptOp i s =
     (if length (es_cqes s) \<le> i then Panic IndexOutOfRange
      else case es_cqes s ! i of
        None \<Rightarrow> Panic NilDeref
      | Some cqe \<Rightarrow> obind (cqe_at (es_ring s) cqe) (\<lambda>ev.
          if length (es_conns s) \<le> unat (cqe_UserData ev) then Panic IndexOutOfRange
          else let ud = es_conns s ! unat (cqe_UserData ev);
                   res = sint (cqe_Res ev);
                   s1 = s\<lparr>es_ring := SeenCQE cqe (es_ring s)\<rparr>
               in case ci_typ ud of
                    ACCEPT \<Rightarrow> obind (addRead res s1) (addAccept acceptOp)
                  | READ \<Rightarrow> if res \<le> 0 then Ok (s1\<lparr>es_shut := es_shut s1 @ [ci_fd ud]\<rparr>)
                            else addWrite (ci_fd ud) res s1
                  | WRITE \<Rightarrow> addRead (ci_fd ud) s1
                  | NoType \<Rightarrow> Ok s1))"

definition echo_next :: "kring kernel \<Rightarrow> Operation \<Rightarrow> 'm echo_scheme \<Rightarrow> 'm echo_scheme outcome option" where
  "echo_next k acceptOp s =
     (case es_pc s of
        AtSubmit \<Rightarrow> Some (echo_submit k s)
      | AtWait \<Rightarrow> echo_wait k s
      | AtPeek \<Rightarrow> Some (echo_peek k s)
      | AtEvent i n \<Rightarrow> Some (if i < n then obind (echo_event acceptOp i s) (\<lambda>s'. Ok (s'\<lparr>es_pc := AtEvent (i + 1) n\<rparr>))
                             else Ok (s\<lparr>es_pc := AtSubmit\<rparr>)))"

section \<open>Start\<close>

text \<open>\<^verbatim>\<open>main\<close> up to the first accept; \<^verbatim>\<open>SOCK_STREAM\<close> is 1. A failed check ends the process.\<close>

definition echo_listen :: "'w sock_os \<Rightarrow> int \<Rightarrow> 'w \<Rightarrow> (int \<times> 'w) outcome" where
  "echo_listen os port w =
     (case so_socket os AF_INET 1 0 w of
        (Inl err, _) \<Rightarrow> Panic (PanicErr err)
      | (Inr serverSockFd, w1) \<Rightarrow>
          (case so_setsockopt os serverSockFd SOL_SOCKET SO_REUSEADDR 1 w1 of (err, w2) \<Rightarrow>
          obind (checkErr err) (\<lambda>_.
          case so_bind os serverSockFd \<lparr>sa_Port = port, sa_Addr = [0, 0, 0, 0]\<rparr> w2 of (err, w3) \<Rightarrow>
          obind (checkErr err) (\<lambda>_.
          case so_listen os serverSockFd (int Backlog) w3 of (err, w4) \<Rightarrow>
          obind (checkErr err) (\<lambda>_. Ok (serverSockFd, w4))))))"

definition echo_ring :: "'w os \<Rightarrow> 'w \<Rightarrow> (kring \<times> 'w) outcome" where
  "echo_ring os w =
     obind (New os 4096 [] w) (\<lambda>(ring, err, w1).
       obind (checkErr err) (\<lambda>_.
         case ring of
           None \<Rightarrow> Panic NilDeref
         | Some r \<Rightarrow>
             obind (checkErr (if FastPollFeature (Params r) then None
                              else Some (NewError ''IORING_FEAT_FAST_POLL not available''))) (\<lambda>_.
               Ok (\<lparr>ring_fd = ring_fd r, Params = Params r, cqRing = cqRing r, sqRing = sqRing r, inflight = []\<rparr>, w1))))"

definition echo_init :: "(nat \<Rightarrow> u64) \<Rightarrow> kring \<Rightarrow> echo" where
  "echo_init alloc r =
     \<lparr>es_ring = r, es_conns = makeConns, es_buffs = makeBuffers alloc, es_cqes = replicate Backlog None,
      es_shut = [], es_pc = AtSubmit\<rparr>"

text \<open>\<open>raw\<close> and \<open>len\<close> are the addresses inside the accept operation.\<close>

definition echo_main ::
  "'w sock_os \<Rightarrow> 'w os \<Rightarrow> (nat \<Rightarrow> u64) \<Rightarrow> u64 \<Rightarrow> u64 \<Rightarrow> int \<Rightarrow> 'w \<Rightarrow> (Operation \<times> echo \<times> 'w) outcome" where
  "echo_main so os alloc raw len port w =
     obind (echo_listen so port w) (\<lambda>(serverSockFd, w1).
     obind (echo_ring os w1) (\<lambda>(ring, w2).
       let acceptOp = Accept raw len (of_int serverSockFd) 0
       in obind (addAccept acceptOp (echo_init alloc ring)) (\<lambda>s. Ok (acceptOp, s, w2))))"

section \<open>Runs\<close>

text \<open>
  Two observations of a run, which the program does not have: \<open>es_sent\<close> is the entry last written to
  the submission queue under a user data, \<open>es_fds\<close> the descriptors the server has opened; it never
  closes one.
\<close>

record esys = echo +
  es_sent :: "u64 \<rightharpoonup> SQEntry"
  es_fds :: "int list"

definition new_entries :: "esys \<Rightarrow> esys \<Rightarrow> SQEntry list" where
  "new_entries s s' = drop (length (sq_pending (sqRing (es_ring s)))) (sq_pending (sqRing (es_ring s')))"

definition next_event :: "esys \<Rightarrow> CQEvent option" where
  "next_event s = (case es_pc s of
     AtEvent i n \<Rightarrow> (if i < n \<and> i < length (es_cqes s)
       then case es_cqes s ! i of
              Some p \<Rightarrow> (case cqe_at (es_ring s) p of Ok ev \<Rightarrow> Some ev | Panic _ \<Rightarrow> None)
            | None \<Rightarrow> None
       else None)
   | _ \<Rightarrow> None)"

definition event_typ :: "esys \<Rightarrow> CQEvent \<Rightarrow> connType" where
  "event_typ s ev = ci_typ (es_conns s ! unat (cqe_UserData ev))"

definition accepted_fds :: "esys \<Rightarrow> int list" where
  "accepted_fds s = (case next_event s of
     Some ev \<Rightarrow> (if event_typ s ev = ACCEPT then [sint (cqe_Res ev)] else []) | None \<Rightarrow> [])"

definition observe :: "esys \<Rightarrow> esys \<Rightarrow> esys" where
  "observe s s' = s'\<lparr>es_sent := es_sent s ++ map_of (map (\<lambda>e. (sqe_UserData e, e)) (new_entries s s')),
     es_fds := es_fds s @ accepted_fds s\<rparr>"

text \<open>
  What the server takes for granted: an accept succeeds with a descriptor that is not open, as
  accept(2) promises, and that the table has room for; a receive does not return more than the
  buffer holds. Without it the server panics, see below.
\<close>

definition event_ok :: "esys \<Rightarrow> CQEvent \<Rightarrow> bool" where
  "event_ok s ev \<longleftrightarrow> (case event_typ s ev of
     ACCEPT \<Rightarrow> 0 \<le> sint (cqe_Res ev) \<and> sint (cqe_Res ev) < int MaxConns \<and> sint (cqe_Res ev) \<notin> set (es_fds s)
   | READ \<Rightarrow> sint (cqe_Res ev) \<le> int MaxMsgLen
   | _ \<Rightarrow> True)"

inductive echo_step :: "kring kernel \<Rightarrow> Operation \<Rightarrow> esys \<Rightarrow> esys \<Rightarrow> bool" for k acceptOp where
  kernel: "kernel_step (es_ring s) r \<Longrightarrow> echo_step k acceptOp s (s\<lparr>es_ring := r\<rparr>)"
| program: "\<forall>ev. next_event s = Some ev \<longrightarrow> event_ok s ev \<Longrightarrow> echo_next k acceptOp s = Some (Ok s') \<Longrightarrow>
    echo_step k acceptOp s (observe s s')"

definition echo_sys :: "int \<Rightarrow> echo \<Rightarrow> esys" where
  "echo_sys srv s = echo.extend s
     (esys.fields (map_of (map (\<lambda>e. (sqe_UserData e, e)) (sq_pending (sqRing (es_ring s))))) [srv])"

section \<open>The invariant\<close>

text \<open>The entry \<open>e\<close> is the request that the slot \<open>ci\<close> of the table says is under way.\<close>

definition entry_for :: "slice list \<Rightarrow> connInfo \<Rightarrow> SQEntry \<Rightarrow> bool" where
  "entry_for buffs ci e \<longleftrightarrow> sqe_Fd e = of_int (ci_fd ci) \<and>
     (case ci_typ ci of
        NoType \<Rightarrow> False
      | ACCEPT \<Rightarrow> sqe_OpCode e = opcode_u8 AcceptCode
      | READ \<Rightarrow> sqe_OpCode e = opcode_u8 RecvCode \<and> sqe_Addr e = sl_base (buffs ! nat (ci_fd ci)) \<and>
          unat (sqe_Len e) = MaxMsgLen
      | WRITE \<Rightarrow> sqe_OpCode e = opcode_u8 SendCode \<and> sqe_Addr e = sl_base (buffs ! nat (ci_fd ci)) \<and>
          0 < unat (sqe_Len e) \<and> unat (sqe_Len e) \<le> MaxMsgLen)"

definition conn_ops :: "nat \<Rightarrow> connInfo \<Rightarrow> bool" where
  "conn_ops u ci \<longleftrightarrow> (\<exists>b c. ci_recvOp ci = RecvOp (of_nat u) b 0 \<and> ci_sendOp ci = SendOp (of_nat u) c 0)"

text \<open>
  \<open>sent\<close> and \<open>fds\<close> are the two observations. Every request under way is that of a slot of an open
  descriptor, and no descriptor has two.
\<close>

definition request_ok :: "(u64 \<rightharpoonup> SQEntry) \<Rightarrow> int set \<Rightarrow> 'm echo_scheme \<Rightarrow> u64 \<Rightarrow> bool" where
  "request_ok sent fds s x \<longleftrightarrow> unat x < MaxConns \<and> int (unat x) \<in> fds \<and>
     ci_fd (es_conns s ! unat x) = int (unat x) \<and>
     (\<exists>e. sent x = Some e \<and> entry_for (es_buffs s) (es_conns s ! unat x) e)"

definition echo_core :: "(u64 \<rightharpoonup> SQEntry) \<Rightarrow> int set \<Rightarrow> 'm echo_scheme \<Rightarrow> bool" where
  "echo_core sent fds s \<longleftrightarrow> kring_wf (es_ring s) \<and> MaxConns \<le> sq_cap (sqRing (es_ring s)) \<and>
     ExtArgFeature (Params (es_ring s)) \<and> length (es_conns s) = MaxConns \<and>
     (\<exists>alloc. es_buffs s = makeBuffers alloc) \<and> (\<forall>u < MaxConns. conn_ops u (es_conns s ! u)) \<and>
     distinct (live (es_ring s)) \<and> (\<forall>x \<in> set (live (es_ring s)). request_ok sent fds s x)"

text \<open>Between two events of a batch, the pointers not yet used point to the oldest waiting events.\<close>

definition batch_ok :: "'m echo_scheme \<Rightarrow> bool" where
  "batch_ok s \<longleftrightarrow> length (es_cqes s) = Backlog \<and> (case es_pc s of
     AtEvent i n \<Rightarrow> n \<le> Backlog \<and> n - i \<le> length (cq_ready (cqRing (es_ring s))) \<and>
       (\<forall>j < n - i. es_cqes s ! (i + j) = Some (cqe_ptr_of (cq_kHead (cqRing (es_ring s)) + of_nat j)
          (cq_kRingMask (cqRing (es_ring s)))))
   | _ \<Rightarrow> True)"

definition accept_only :: "int \<Rightarrow> 'm echo_scheme \<Rightarrow> bool" where
  "accept_only srv s \<longleftrightarrow>
     (\<forall>x \<in> set (live (es_ring s)). ci_typ (es_conns s ! unat x) = ACCEPT \<longrightarrow> int (unat x) = srv)"

definition echo_inv :: "int \<Rightarrow> esys \<Rightarrow> bool" where
  "echo_inv srv s \<longleftrightarrow> echo_core (es_sent s) (set (es_fds s)) s \<and> accept_only srv s \<and> batch_ok s \<and>
     0 \<le> srv \<and> srv < int MaxConns \<and> srv \<in> set (es_fds s)"

lemma length_makeConns [simp]: "length makeConns = MaxConns" "length (makeBuffers alloc) = MaxConns"
  by (simp_all add: makeConns_def makeBuffers_def)

lemma makeBuffers_nth [simp]: "u < MaxConns \<Longrightarrow> makeBuffers alloc ! u = \<lparr>sl_base = alloc u, sl_len = MaxMsgLen\<rparr>"
  by (simp add: makeBuffers_def)

lemma makeConns_ops: "u < MaxConns \<Longrightarrow> conn_ops u (makeConns ! u)"
  by (simp add: makeConns_def conn_ops_def Recv_def Send_def)

lemma unat_of_fd: "0 \<le> fd \<Longrightarrow> fd < int MaxConns \<Longrightarrow> unat (of_int fd :: u64) = nat fd"
  by (simp add: MaxConns_def unsigned_of_int nat_take_bit_eq take_bit_int_eq_self)

lemma of_int_unat_u64: "(of_int (int (unat (x :: u64))) :: u64) = x"
  by simp

section \<open>Queueing keeps the invariant\<close>

lemma live_cap:
  assumes "kring_wf r" and "distinct (live r)" and "\<forall>x \<in> set (live r). unat x < MaxConns"
    and "y \<notin> set (live r)" and "unat y < MaxConns" and "MaxConns \<le> sq_cap (sqRing r)"
  shows "length (sq_published (sqRing r)) + length (sq_pending (sqRing r)) < sq_cap (sqRing r)"
proof -
  have "inj_on unat (set (y # live r))" by (rule inj_onI) (simp add: word_unat_eq_iff)
  then have "card (set (y # live r)) = card (unat ` set (y # live r))" by (simp only: card_image)
  also have "\<dots> \<le> card {..<MaxConns}" using assms(3,5) by (intro card_mono) auto
  finally have "card (set (y # live r)) \<le> MaxConns" by simp
  then have "length (live r) < MaxConns" using assms(2,4) distinct_card [of "y # live r"] by simp
  moreover have "length (sq_published (sqRing r)) + length (sq_pending (sqRing r)) \<le> length (live r)"
    by (simp add: live_def del: length_sq_published length_sq_pending)
  ultimately show ?thesis using assms(6) by linarith
qed

text \<open>The effect of queueing \<open>e\<close> on the state.\<close>

definition queued :: "SQEntry \<Rightarrow> 'm echo_scheme \<Rightarrow> 'm echo_scheme \<Rightarrow> bool" where
  "queued e s s' \<longleftrightarrow>
     s' = s\<lparr>es_conns := es_conns s', es_ring := (es_ring s)\<lparr>sqRing := sq_push e (sqRing (es_ring s))\<rparr>\<rparr> \<and>
     sq_pending (sqRing (es_ring s')) = sq_pending (sqRing (es_ring s)) @ [e] \<and>
     mset (live (es_ring s')) = add_mset (sqe_UserData e) (mset (live (es_ring s)))"

lemma echo_queue_ok:
  assumes core: "echo_core sent fds s" and fd: "0 \<le> fd" "fd < int MaxConns" "fd \<in> fds"
    and fresh: "of_int fd \<notin> set (live (es_ring s))"
    and e: "uop.entry 0 op 0 (of_int fd) = Ok e"
    and ci: "ci_fd ci = fd" "conn_ops (nat fd) ci" "entry_for (es_buffs s) ci e"
  shows "\<exists>s'. echo_queue op fd (s\<lparr>es_conns := (es_conns s)[nat fd := ci]\<rparr>) = Ok s' \<and> queued e s s' \<and>
     es_conns s' = (es_conns s)[nat fd := ci] \<and> echo_core (sent(of_int fd \<mapsto> e)) fds s'"
proof -
  let ?r = "es_ring s" and ?c = "(es_conns s)[nat fd := ci]"
  let ?r' = "?r\<lparr>sqRing := sq_push e (sqRing ?r)\<rparr>"
  let ?s' = "s\<lparr>es_conns := ?c, es_ring := ?r'\<rparr>"
  have wf: "kring_wf ?r" "sq_wf (sqRing ?r)" and cap: "MaxConns \<le> sq_cap (sqRing ?r)"
    and live: "\<forall>x \<in> set (live ?r). request_ok sent fds s x" "distinct (live ?r)"
    and len: "length (es_conns s) = MaxConns"
    using core by (simp_all add: echo_core_def kring_wf_def)
  have u: "unat (of_int fd :: u64) = nat fd" "nat fd < MaxConns" using unat_of_fd fd by auto
  have room: "length (sq_published (sqRing ?r)) + length (sq_pending (sqRing ?r)) < sq_cap (sqRing ?r)"
    by (rule live_cap [OF wf(1) live(2) _ fresh _ cap]) (use live(1) u in \<open>auto simp: request_ok_def\<close>)
  have q: "QueueSQE 0 op 0 (of_int fd) ?r = Ok (None, ?r')"
    using QueueSQE_fits [OF wf(2) room] e by simp
  have ud: "sqe_UserData e = of_int fd" using uop.entry_sel(3) [OF e] .
  note push = sq_push_wf [OF wf(2) room, of e] sq_push_contents [OF wf(2) room, of e]
  have lv: "mset (live ?r') = add_mset (of_int fd) (mset (live ?r))" and wf': "kring_wf ?r'"
    using QueueSQE_live [OF wf(1) q] by auto
  have "set (live ?r') = insert (of_int fd) (set (live ?r))"
    using lv by (metis set_mset_add_mset_insert set_mset_mset)
  moreover have "distinct (live ?r')"
    using lv fresh live(2) by (metis distinct.simps(2) mset.simps(2) mset_eq_imp_distinct_iff)
  moreover have "request_ok (sent(of_int fd \<mapsto> e)) fds ?s' x" if x: "x \<in> set (live ?r)" for x
  proof -
    have ne: "x \<noteq> of_int fd" using x fresh by auto
    then have "unat x \<noteq> nat fd" using u(1) by (metis word_unat_eq_iff)
    then show ?thesis using live(1) x ne by (auto simp: request_ok_def)
  qed
  moreover have "request_ok (sent(of_int fd \<mapsto> e)) fds ?s' (of_int fd)"
    using fd u ci len by (simp add: request_ok_def)
  moreover have "sq_cap (sqRing ?r') = sq_cap (sqRing ?r)" by (simp add: sq_push_def sq_cap_def)
  moreover have "\<forall>v < MaxConns. conn_ops v (?c ! v)"
    using core ci(2) by (metis echo_core_def nth_list_update_eq nth_list_update_neq)
  ultimately have "echo_core (sent(of_int fd \<mapsto> e)) fds ?s'"
    using core wf' by (auto simp: echo_core_def)
  moreover have "queued e s ?s'" using lv ud push by (simp add: queued_def)
  moreover have "echo_queue op fd (s\<lparr>es_conns := ?c\<rparr>) = Ok ?s'"
    using q by (simp add: echo_queue_def checkErr_def)
  ultimately show ?thesis by (intro exI [of _ ?s']) simp
qed

text \<open>The entries of the three operations.\<close>

lemma recv_entry:
  assumes "0 < sl_len b"
  shows "\<exists>e. uop.entry 0 (RecvOp fd b 0) 0 ud = Ok e \<and> sqe_OpCode e = opcode_u8 RecvCode \<and>
     sqe_Fd e = ucast fd \<and> sqe_Addr e = sl_base b \<and> sqe_Len e = of_nat (sl_len b) \<and> sqe_UserData e = ud"
  using assms by (simp add: uop.entry_def addr0_def fill_def setAddr_def setUserData_def)

lemma send_entry:
  assumes "0 < sl_len b"
  shows "\<exists>e. uop.entry 0 (SendOp fd b 0) 0 ud = Ok e \<and> sqe_OpCode e = opcode_u8 SendCode \<and>
     sqe_Fd e = ucast fd \<and> sqe_Addr e = sl_base b \<and> sqe_Len e = of_nat (sl_len b) \<and> sqe_UserData e = ud"
  using assms by (simp add: uop.entry_def addr0_def fill_def setAddr_def setUserData_def)

lemma accept_entry:
  "\<exists>e. uop.entry 0 (Accept raw len fd 0) 0 ud = Ok e \<and> sqe_OpCode e = opcode_u8 AcceptCode \<and>
     sqe_Fd e = ucast fd \<and> sqe_UserData e = ud"
  by (simp add: uop.entry_def fill_def setAddr_def setUserData_def Accept_def)

lemma fd_words:
  assumes "0 \<le> fd" and "fd < int MaxConns"
  shows "(ucast (of_int fd :: u64) :: u32) = of_int fd" and "sint (of_int fd :: u64) = fd"
    and "(of_nat (nat fd) :: u64) = of_int fd"
  using assms sint_of_fd [of fd]
  by (simp_all add: MaxConns_def unsigned_of_int take_bit_int_eq_self)

lemma addRead_ok:
  assumes core: "echo_core sent fds s" and fd: "0 \<le> fd" "fd < int MaxConns" "fd \<in> fds"
    and fresh: "of_int fd \<notin> set (live (es_ring s))"
  shows "\<exists>e s'. addRead fd s = Ok s' \<and> queued e s s' \<and> echo_core (sent(of_int fd \<mapsto> e)) fds s' \<and>
     sqe_UserData e = of_int fd \<and> es_conns s' = (es_conns s)[nat fd := es_conns s' ! nat fd] \<and>
     ci_typ (es_conns s' ! nat fd) = READ"
proof -
  let ?ci = "es_conns s ! nat fd" and ?b = "es_buffs s ! nat fd"
  let ?ci' = "?ci\<lparr>ci_fd := fd, ci_typ := READ, ci_recvOp := SetBuffer (ci_recvOp ?ci) ?b\<rparr>"
  have len: "length (es_conns s) = MaxConns" "length (es_buffs s) = MaxConns" and b: "sl_len ?b = MaxMsgLen"
    using core fd by (auto simp: echo_core_def)
  have ops: "conn_ops (nat fd) ?ci" using core fd by (simp add: echo_core_def)
  then have op: "ci_recvOp ?ci' = RecvOp (of_int fd) ?b 0" using fd_words(3) [OF fd(1,2)] by (auto simp: conn_ops_def)
  obtain e where e: "uop.entry 0 (ci_recvOp ?ci') 0 (of_int fd) = Ok e" "sqe_OpCode e = opcode_u8 RecvCode"
    "sqe_Fd e = of_int fd" "sqe_Addr e = sl_base ?b" "sqe_Len e = of_nat MaxMsgLen" "sqe_UserData e = of_int fd"
    using recv_entry [of ?b "of_int fd" "of_int fd"] b fd_words(1) [OF fd(1,2)] op by (auto simp: MaxMsgLen_def)
  have "entry_for (es_buffs s) ?ci' e" using e by (simp add: entry_for_def MaxMsgLen_def)
  moreover have "conn_ops (nat fd) ?ci'" using ops by (auto simp: conn_ops_def)
  ultimately obtain s' where s': "echo_queue (ci_recvOp ?ci') fd (s\<lparr>es_conns := (es_conns s)[nat fd := ?ci']\<rparr>) = Ok s'"
    "queued e s s'" "es_conns s' = (es_conns s)[nat fd := ?ci']" "echo_core (sent(of_int fd \<mapsto> e)) fds s'"
    using echo_queue_ok [OF core fd fresh e(1), of ?ci'] by auto
  have "addRead fd s = Ok s'"
    using s'(1) len fd by (simp add: addRead_def buff_at_def conn_at_def Let_def)
  then show ?thesis using s' e(6) len fd
    by (intro exI [of _ e] exI [of _ s']) simp
qed

lemma addWrite_ok:
  assumes core: "echo_core sent fds s" and fd: "0 \<le> fd" "fd < int MaxConns" "fd \<in> fds"
    and fresh: "of_int fd \<notin> set (live (es_ring s))" and n: "0 < n" "n \<le> int MaxMsgLen"
  shows "\<exists>e s'. addWrite fd n s = Ok s' \<and> queued e s s' \<and> echo_core (sent(of_int fd \<mapsto> e)) fds s' \<and>
     sqe_UserData e = of_int fd \<and> es_conns s' = (es_conns s)[nat fd := es_conns s' ! nat fd] \<and>
     ci_typ (es_conns s' ! nat fd) = WRITE \<and> sqe_OpCode e = opcode_u8 SendCode \<and> sqe_Fd e = of_int fd \<and>
     sqe_Addr e = sl_base (es_buffs s ! nat fd) \<and> int (unat (sqe_Len e)) = n"
proof -
  let ?ci = "es_conns s ! nat fd" and ?b = "(es_buffs s ! nat fd)\<lparr>sl_len := nat n\<rparr>"
  let ?ci' = "?ci\<lparr>ci_fd := fd, ci_typ := WRITE, ci_sendOp := SetBuffer (ci_sendOp ?ci) ?b\<rparr>"
  have len: "length (es_conns s) = MaxConns" "length (es_buffs s) = MaxConns"
    and b: "sl_len (es_buffs s ! nat fd) = MaxMsgLen"
    using core fd by (auto simp: echo_core_def)
  have ops: "conn_ops (nat fd) ?ci" using core fd by (simp add: echo_core_def)
  then have op: "ci_sendOp ?ci' = SendOp (of_int fd) ?b 0" using fd_words(3) [OF fd(1,2)] by (auto simp: conn_ops_def)
  obtain e where e: "uop.entry 0 (ci_sendOp ?ci') 0 (of_int fd) = Ok e" "sqe_OpCode e = opcode_u8 SendCode"
    "sqe_Fd e = of_int fd" "sqe_Addr e = sl_base ?b" "sqe_Len e = of_nat (nat n)" "sqe_UserData e = of_int fd"
    using send_entry [of ?b "of_int fd" "of_int fd"] n fd_words(1) [OF fd(1,2)] op by auto
  have l: "unat (sqe_Len e) = nat n" using n e(5) by (simp add: MaxMsgLen_def unsigned_of_int nat_take_bit_eq take_bit_int_eq_self)
  have "entry_for (es_buffs s) ?ci' e" using e l n by (simp add: entry_for_def)
  moreover have "conn_ops (nat fd) ?ci'" using ops by (auto simp: conn_ops_def)
  ultimately obtain s' where s': "echo_queue (ci_sendOp ?ci') fd (s\<lparr>es_conns := (es_conns s)[nat fd := ?ci']\<rparr>) = Ok s'"
    "queued e s s'" "es_conns s' = (es_conns s)[nat fd := ?ci']" "echo_core (sent(of_int fd \<mapsto> e)) fds s'"
    using echo_queue_ok [OF core fd fresh e(1), of ?ci'] by auto
  have "addWrite fd n s = Ok s'"
    using s'(1) len fd n b by (simp add: addWrite_def buff_at_def conn_at_def slice_to_def Let_def)
  then show ?thesis using s' e l n len fd
    by (intro exI [of _ e] exI [of _ s']) simp
qed

lemma addAccept_ok:
  assumes core: "echo_core sent fds s" and fd: "0 \<le> fd" "fd < int MaxConns" "fd \<in> fds"
    and fresh: "of_int fd \<notin> set (live (es_ring s))"
  shows "\<exists>e s'. addAccept (Accept raw len (of_int fd) 0) s = Ok s' \<and> queued e s s' \<and>
     echo_core (sent(of_int fd \<mapsto> e)) fds s' \<and> sqe_UserData e = of_int fd \<and>
     es_conns s' = (es_conns s)[nat fd := es_conns s' ! nat fd] \<and> ci_typ (es_conns s' ! nat fd) = ACCEPT"
proof -
  let ?ci = "es_conns s ! nat fd" and ?op = "Accept raw len (of_int fd) 0"
  let ?ci' = "?ci\<lparr>ci_fd := fd, ci_typ := ACCEPT\<rparr>"
  have len: "length (es_conns s) = MaxConns" and ops: "conn_ops (nat fd) ?ci"
    using core fd by (auto simp: echo_core_def)
  obtain e where e: "uop.entry 0 ?op 0 (of_int fd) = Ok e" "sqe_OpCode e = opcode_u8 AcceptCode"
    "sqe_Fd e = of_int fd" "sqe_UserData e = of_int fd"
    using accept_entry [of raw len "of_int fd" "of_int fd"] fd_words(1) [OF fd(1,2)] by auto
  have "entry_for (es_buffs s) ?ci' e" using e by (simp add: entry_for_def)
  moreover have "conn_ops (nat fd) ?ci'" using ops by (auto simp: conn_ops_def)
  ultimately obtain s' where s': "echo_queue ?op fd (s\<lparr>es_conns := (es_conns s)[nat fd := ?ci']\<rparr>) = Ok s'"
    "queued e s s'" "es_conns s' = (es_conns s)[nat fd := ?ci']" "echo_core (sent(of_int fd \<mapsto> e)) fds s'"
    using echo_queue_ok [OF core fd fresh e(1), of ?ci'] by auto
  have "op_Fd ?op = Some fd" using fd_words(2) [OF fd(1,2)] by (simp add: Accept_def)
  then have "addAccept ?op s = Ok s'"
    using s'(1) len fd by (simp add: addAccept_def conn_at_def)
  then show ?thesis using s' e(4) len fd
    by (intro exI [of _ e] exI [of _ s']) simp
qed

section \<open>Handling an event\<close>

lemma queued_sel:
  assumes "queued e s s'"
  shows "cqRing (es_ring s') = cqRing (es_ring s)" and "es_cqes s' = es_cqes s" and "es_pc s' = es_pc s"
    and "es_buffs s' = es_buffs s"
    and "set (live (es_ring s')) = insert (sqe_UserData e) (set (live (es_ring s)))"
    and "Params (es_ring s') = Params (es_ring s)" and "es_shut s' = es_shut s"
proof -
  have s': "s' = s\<lparr>es_conns := es_conns s', es_ring := (es_ring s)\<lparr>sqRing := sq_push e (sqRing (es_ring s))\<rparr>\<rparr>"
    and lv: "mset (live (es_ring s')) = add_mset (sqe_UserData e) (mset (live (es_ring s)))"
    using assms by (simp_all add: queued_def)
  show "cqRing (es_ring s') = cqRing (es_ring s)" "es_cqes s' = es_cqes s" "es_pc s' = es_pc s" "es_buffs s' = es_buffs s"
    "Params (es_ring s') = Params (es_ring s)" "es_shut s' = es_shut s"
    by (subst s', simp)+
  show "set (live (es_ring s')) = insert (sqe_UserData e) (set (live (es_ring s)))"
    using lv by (metis set_mset_add_mset_insert set_mset_mset)
qed

lemma accept_only_queued:
  assumes "accept_only srv s" and "queued e s s'" and "sqe_UserData e = of_int fd" and "0 \<le> fd" "fd < int MaxConns"
    and "es_conns s' = (es_conns s)[nat fd := ci]" and "length (es_conns s) = MaxConns"
    and "ci_typ ci = ACCEPT \<longrightarrow> fd = srv" and "of_int fd \<notin> set (live (es_ring s))"
  shows "accept_only srv s'"
  unfolding accept_only_def
proof (intro ballI impI)
  fix x assume x: "x \<in> set (live (es_ring s'))" and t: "ci_typ (es_conns s' ! unat x) = ACCEPT"
  have u: "unat (of_int fd :: u64) = nat fd" using unat_of_fd assms(4,5) by blast
  show "int (unat x) = srv"
  proof (cases "x = of_int fd")
    case True
    with t u assms(4-8) show ?thesis by simp
  next
    case False
    then have "unat x \<noteq> nat fd" using u by (metis word_unat_eq_iff)
    with t assms(1,3,6) x False queued_sel(5) [OF assms(2)] show ?thesis by (simp add: accept_only_def)
  qed
qed

lemma core_mono:
  "echo_core sent fds s \<Longrightarrow> fds \<subseteq> fds' \<Longrightarrow> echo_core sent fds' s"
  by (auto simp: echo_core_def request_ok_def)

lemma core_fds:
  assumes "echo_core sent fds s" and "fd \<notin> fds" and "0 \<le> fd" and "fd < int MaxConns"
  shows "of_int fd \<notin> set (live (es_ring s))"
proof
  assume "of_int fd \<in> set (live (es_ring s))"
  then have "int (unat (of_int fd :: u64)) \<in> fds" using assms(1) by (simp only: echo_core_def request_ok_def)
  then show False using assms(2-4) by (simp only: unat_of_fd) simp
qed

text \<open>Giving the slot of the oldest event back.\<close>

lemma seen_core:
  assumes core: "echo_core sent fds s" and acc: "accept_only srv s" and rdy: "cq_ready (cqRing (es_ring s)) = ev # rest"
  defines "s1 \<equiv> s\<lparr>es_ring := AdvanceCQ 1 (es_ring s)\<rparr>"
  shows "echo_core sent fds s1" and "accept_only srv s1" and "request_ok sent fds s (cqe_UserData ev)"
    and "cqe_UserData ev \<notin> set (live (es_ring s1))" and "cqe_UserData ev \<in> set (live (es_ring s))"
proof -
  let ?r = "es_ring s"
  have wf: "kring_wf ?r" and d: "distinct (live ?r)" using core by (simp_all add: echo_core_def)
  have one: "1 \<le> length (cq_ready (cqRing ?r))" using rdy by simp
  have a: "kring_wf (AdvanceCQ 1 ?r)" "mset (live ?r) = add_mset (cqe_UserData ev) (mset (live (AdvanceCQ 1 ?r)))"
    using AdvanceCQ_live [OF wf one] rdy by simp_all
  then have d': "distinct (cqe_UserData ev # live (AdvanceCQ 1 ?r))"
    using d mset_eq_imp_distinct_iff [of "live ?r" "cqe_UserData ev # live (AdvanceCQ 1 ?r)"] by simp
  have set: "set (live ?r) = insert (cqe_UserData ev) (set (live (AdvanceCQ 1 ?r)))"
    using a(2) by (metis set_mset_add_mset_insert set_mset_mset)
  show "echo_core sent fds s1" using core a(1) d' set by (auto simp: echo_core_def s1_def request_ok_def)
  show "accept_only srv s1" using acc set by (auto simp: accept_only_def s1_def)
  show "request_ok sent fds s (cqe_UserData ev)" using core set by (simp add: echo_core_def)
  show "cqe_UserData ev \<notin> set (live (es_ring s1))" using d' by (simp add: s1_def)
  show "cqe_UserData ev \<in> set (live ?r)" using set by simp
qed

text \<open>What handling an event leaves: the entries \<open>es\<close> were queued, only the head of the completion queue moved.\<close>

definition handled :: "SQEntry list \<Rightarrow> 'm echo_scheme \<Rightarrow> 'm echo_scheme \<Rightarrow> bool" where
  "handled es s s' \<longleftrightarrow> cqRing (es_ring s') = cqRing (AdvanceCQ 1 (es_ring s)) \<and> es_cqes s' = es_cqes s \<and>
     sq_pending (sqRing (es_ring s')) = sq_pending (sqRing (es_ring s)) @ es"

definition sent_after :: "(u64 \<rightharpoonup> SQEntry) \<Rightarrow> SQEntry list \<Rightarrow> (u64 \<rightharpoonup> SQEntry)" where
  "sent_after sent es = sent ++ map_of (map (\<lambda>e. (sqe_UserData e, e)) es)"

lemma queued_handled:
  assumes "queued e (s\<lparr>es_ring := AdvanceCQ 1 (es_ring s)\<rparr>) s'"
  shows "handled [e] s s'"
  using queued_sel [OF assms] assms by (simp add: handled_def queued_def)

text \<open>
  The contract the three functions share, and on which the loop relies: for a descriptor with no
  request under way, the function queues one entry and marks the slot with its type. \<open>p\<close> are the
  other arguments, of which \<open>ok\<close> is required.
\<close>

locale slot_operation =
  fixes add :: "'p \<Rightarrow> int \<Rightarrow> 'm echo_scheme \<Rightarrow> 'm echo_scheme outcome"
    and ok :: "'p \<Rightarrow> bool"
    and kind :: connType
  assumes add_ok: "ok p \<Longrightarrow> echo_core sent fds s \<Longrightarrow> 0 \<le> fd \<Longrightarrow> fd < int MaxConns \<Longrightarrow> fd \<in> fds \<Longrightarrow>
    of_int fd \<notin> set (live (es_ring s)) \<Longrightarrow>
    \<exists>e s'. add p fd s = Ok s' \<and> queued e s s' \<and> echo_core (sent(of_int fd \<mapsto> e)) fds s' \<and>
      sqe_UserData e = of_int fd \<and> es_conns s' = (es_conns s)[nat fd := es_conns s' ! nat fd] \<and>
      ci_typ (es_conns s' ! nat fd) = kind"
begin

lemma adds:
  assumes p: "ok p" and core: "echo_core sent fds s" and acc: "accept_only srv s"
    and fd: "0 \<le> fd" "fd < int MaxConns" "fd \<in> fds" and fresh: "of_int fd \<notin> set (live (es_ring s))"
    and ty: "kind = ACCEPT \<longrightarrow> fd = srv"
  shows "\<exists>e s'. add p fd s = Ok s' \<and> queued e s s' \<and> echo_core (sent(of_int fd \<mapsto> e)) fds s' \<and> accept_only srv s' \<and>
     sqe_UserData e = of_int fd \<and> (\<forall>u. u \<noteq> nat fd \<longrightarrow> es_conns s' ! u = es_conns s ! u) \<and>
     ci_typ (es_conns s' ! nat fd) = kind"
proof -
  obtain e s' where q: "add p fd s = Ok s'" "queued e s s'" "echo_core (sent(of_int fd \<mapsto> e)) fds s'"
    "sqe_UserData e = of_int fd" "es_conns s' = (es_conns s)[nat fd := es_conns s' ! nat fd]"
    "ci_typ (es_conns s' ! nat fd) = kind" using add_ok [OF p core fd fresh] by blast
  have "accept_only srv s'"
    by (rule accept_only_queued [OF acc q(2,4) fd(1,2) q(5) _ _ fresh]) (use q(6) ty core in \<open>simp_all add: echo_core_def\<close>)
  moreover have "\<forall>u. u \<noteq> nat fd \<longrightarrow> es_conns s' ! u = es_conns s ! u"
    using q(5) by (metis nth_list_update_neq)
  ultimately show ?thesis using q by blast
qed

text \<open>Queueing the next request of the descriptor whose event was just given back.\<close>

lemma requeues:
  assumes "ok p" and "echo_core sent fds (s\<lparr>es_ring := AdvanceCQ 1 (es_ring s)\<rparr>)"
    and "accept_only srv (s\<lparr>es_ring := AdvanceCQ 1 (es_ring s)\<rparr>)" and "0 \<le> fd" "fd < int MaxConns" "fd \<in> fds"
    and "of_int fd \<notin> set (live (AdvanceCQ 1 (es_ring s)))" and "kind \<noteq> ACCEPT"
  shows "\<exists>e s'. add p fd (s\<lparr>es_ring := AdvanceCQ 1 (es_ring s)\<rparr>) = Ok s' \<and> handled [e] s s' \<and>
     echo_core (sent_after sent [e]) fds s' \<and> accept_only srv s'"
proof -
  obtain e s' where q: "add p fd (s\<lparr>es_ring := AdvanceCQ 1 (es_ring s)\<rparr>) = Ok s'"
    "queued e (s\<lparr>es_ring := AdvanceCQ 1 (es_ring s)\<rparr>) s'" "echo_core (sent(of_int fd \<mapsto> e)) fds s'" "accept_only srv s'"
    "sqe_UserData e = of_int fd"
    using adds [OF assms(1-6)] assms(7,8) by auto
  then show ?thesis using queued_handled [OF q(2)]
    by (intro exI [of _ e] exI [of _ s']) (simp add: sent_after_def)
qed

end

interpretation rd: slot_operation "\<lambda>_ :: unit. addRead" "\<lambda>_. True" READ
  by unfold_locales (use addRead_ok in blast)

interpretation wr: slot_operation "\<lambda>n fd. addWrite fd n" "\<lambda>n. 0 < n \<and> n \<le> int MaxMsgLen" WRITE
  by unfold_locales (use addWrite_ok in blast)

interpretation ac: slot_operation "\<lambda>p fd. addAccept (Accept (fst p) (snd p) (of_int fd) 0)" "\<lambda>_ :: u64 \<times> u64. True" ACCEPT
  by unfold_locales (use addAccept_ok in blast)

lemma echo_accept_ok:
  assumes core: "echo_core sent fds s" and acc: "accept_only srv s" and srv: "0 \<le> srv" "srv < int MaxConns" "srv \<in> fds"
    and fresh: "of_int srv \<notin> set (live (es_ring s))"
    and res: "0 \<le> res" "res < int MaxConns" "res \<notin> fds"
  shows "\<exists>e1 e2 s1 s2. addRead res s = Ok s1 \<and> addAccept (Accept raw len (of_int srv) 0) s1 = Ok s2 \<and>
     queued e1 s s1 \<and> queued e2 s1 s2 \<and> echo_core (sent_after sent [e1, e2]) (insert res fds) s2 \<and> accept_only srv s2 \<and>
     sqe_UserData e1 = of_int res \<and> ci_typ (es_conns s2 ! nat res) = READ"
proof -
  let ?F = "insert res fds"
  have c0: "echo_core sent ?F s" by (rule core_mono [OF core]) auto
  have f: "of_int res \<notin> set (live (es_ring s))" by (rule core_fds [OF core res(3,1,2)])
  obtain e1 s1 where 1: "addRead res s = Ok s1" "queued e1 s s1" "echo_core (sent(of_int res \<mapsto> e1)) ?F s1"
    "accept_only srv s1" "sqe_UserData e1 = of_int res" "ci_typ (es_conns s1 ! nat res) = READ"
    using rd.adds [OF TrueI c0 acc res(1,2) _ f] by auto
  have ne: "(of_int srv :: u64) \<noteq> of_int res" "nat res \<noteq> nat srv"
    using unat_of_fd [OF srv(1,2)] unat_of_fd [OF res(1,2)] srv res by (metis nat_eq_iff2)+
  then have f2: "of_int srv \<notin> set (live (es_ring s1))" using fresh queued_sel(5) [OF 1(2)] 1(5) by simp
  obtain e2 s2 where 2: "addAccept (Accept raw len (of_int srv) 0) s1 = Ok s2" "queued e2 s1 s2"
    "echo_core (sent(of_int res \<mapsto> e1, of_int srv \<mapsto> e2)) ?F s2" "accept_only srv s2" "sqe_UserData e2 = of_int srv"
    "\<forall>u. u \<noteq> nat srv \<longrightarrow> es_conns s2 ! u = es_conns s1 ! u"
    using ac.adds [OF TrueI 1(3,4) srv(1,2) _ f2, of "(raw, len)"] srv(3) by auto
  have "sent_after sent [e1, e2] = sent(of_int res \<mapsto> e1, of_int srv \<mapsto> e2)"
    using ne(1) 1(5) 2(5) by (auto simp: sent_after_def fun_upd_twist)
  then show ?thesis using 1 2 ne(2)
    by (intro exI [of _ e1] exI [of _ e2] exI [of _ s1] exI [of _ s2]) simp
qed

lemma queued_handled2:
  assumes "queued e1 (s\<lparr>es_ring := AdvanceCQ 1 (es_ring s)\<rparr>) s1" and "queued e2 s1 s2"
  shows "handled [e1, e2] s s2"
  using queued_sel [OF assms(1)] queued_sel [OF assms(2)] assms by (simp add: handled_def queued_def)

text \<open>The body of the inner loop once the event is read.\<close>

lemma echo_event_eq:
  assumes "i < length (es_cqes s)" and "es_cqes s ! i = Some p" and "cqe_at (es_ring s) p = Ok ev"
    and "unat (cqe_UserData ev) < length (es_conns s)"
  shows "echo_event op i s =
    (let s1 = s\<lparr>es_ring := AdvanceCQ 1 (es_ring s)\<rparr>; ci = es_conns s ! unat (cqe_UserData ev); res = sint (cqe_Res ev)
     in case ci_typ ci of
          ACCEPT \<Rightarrow> obind (addRead res s1) (addAccept op)
        | READ \<Rightarrow> if res \<le> 0 then Ok (s1\<lparr>es_shut := es_shut s @ [ci_fd ci]\<rparr>) else addWrite (ci_fd ci) res s1
        | WRITE \<Rightarrow> addRead (ci_fd ci) s1
        | NoType \<Rightarrow> Ok s1)"
  using assms by (simp add: echo_event_def SeenCQE_def Let_def cong: connType.case_cong)

text \<open>The body of the inner loop on each type, from a state that satisfies the invariant.\<close>

lemma echo_read_ok:
  assumes seen: "echo_core sent fds s1" "accept_only srv s1" and s1: "s1 = s\<lparr>es_ring := AdvanceCQ 1 (es_ring s)\<rparr>"
    and fd: "0 \<le> fd" "fd < int MaxConns" "of_int fd \<notin> set (live (es_ring s1))" "fd \<in> fds" and res: "res \<le> int MaxMsgLen"
  shows "\<exists>es s'. (if res \<le> 0 then Ok (s1\<lparr>es_shut := es_shut s1 @ [fd]\<rparr>) else addWrite fd res s1) = Ok s' \<and>
     handled es s s' \<and> echo_core (sent_after sent es) fds s' \<and> accept_only srv s'"
proof (cases "res \<le> 0")
  case True
  let ?s2 = "s1\<lparr>es_shut := es_shut s1 @ [fd]\<rparr>"
  have "echo_core (sent_after sent []) fds ?s2" "accept_only srv ?s2"
    using seen by (simp_all add: echo_core_def request_ok_def accept_only_def sent_after_def)
  with True s1 show ?thesis by (intro exI [of _ "[]"] exI [of _ ?s2]) (simp add: handled_def)
next
  case False
  then show ?thesis using wr.requeues [OF _ seen [unfolded s1] fd(1,2,4), of res] fd(3) res s1 by auto
qed

lemma echo_event_ok:
  assumes core: "echo_core sent fds s" and acc: "accept_only srv s" and srv: "0 \<le> srv" "srv < int MaxConns" "srv \<in> fds"
    and i: "i < length (es_cqes s)" "es_cqes s ! i = Some p" "cqe_at (es_ring s) p = Ok ev"
    and rdy: "cq_ready (cqRing (es_ring s)) = ev # rest"
    and ok: "case ci_typ (es_conns s ! unat (cqe_UserData ev)) of
        ACCEPT \<Rightarrow> 0 \<le> sint (cqe_Res ev) \<and> sint (cqe_Res ev) < int MaxConns \<and> sint (cqe_Res ev) \<notin> fds
      | READ \<Rightarrow> sint (cqe_Res ev) \<le> int MaxMsgLen | _ \<Rightarrow> True"
  shows "\<exists>es s'. echo_event (Accept raw len (of_int srv) 0) i s = Ok s' \<and> handled es s s' \<and>
     echo_core (sent_after sent es)
       (fds \<union> (if ci_typ (es_conns s ! unat (cqe_UserData ev)) = ACCEPT then {sint (cqe_Res ev)} else {})) s' \<and>
     accept_only srv s'"
proof -
  let ?s1 = "s\<lparr>es_ring := AdvanceCQ 1 (es_ring s)\<rparr>" and ?u = "unat (cqe_UserData ev)" and ?res = "sint (cqe_Res ev)"
  let ?ci = "es_conns s ! ?u" and ?op = "Accept raw len (of_int srv) 0"
  note seen = seen_core [OF core acc rdy]
  have u: "?u < MaxConns" "ci_fd ?ci = int ?u" "int ?u \<in> fds" and len: "length (es_conns s) = MaxConns"
    using seen(3) core unfolding request_ok_def echo_core_def by auto
  have fd: "0 \<le> int ?u" "int ?u < int MaxConns" "of_int (int ?u) \<notin> set (live (es_ring ?s1))"
    using u(1) seen(4) by (simp_all only: of_int_unat_u64) simp_all
  note b = echo_event_eq [OF i, of ?op, unfolded len Let_def, OF u(1)]
  show ?thesis
  proof (cases "ci_typ ?ci")
    case NoType
    with seen(3) show ?thesis by (simp add: request_ok_def entry_for_def)
  next
    case ACCEPT
    then have "of_int srv = cqe_UserData ev" using acc seen(5) by (metis accept_only_def of_int_unat_u64)
    then obtain e1 e2 s1 s2 where "addRead ?res ?s1 = Ok s1" "addAccept ?op s1 = Ok s2"
      "queued e1 ?s1 s1" "queued e2 s1 s2" "echo_core (sent_after sent [e1, e2]) (insert ?res fds) s2" "accept_only srv s2"
      using echo_accept_ok [OF seen(1,2) srv, of ?res raw len] seen(4) ok ACCEPT by auto
    with b ACCEPT queued_handled2 [of e1 s s1 e2 s2] show ?thesis
      by (intro exI [of _ "[e1, e2]"] exI [of _ s2]) simp
  next
    case READ
    with echo_read_ok [OF seen(1,2) refl fd u(3), of ?res] ok obtain es s' where
      "(if ?res \<le> 0 then Ok (?s1\<lparr>es_shut := es_shut ?s1 @ [int ?u]\<rparr>) else addWrite (int ?u) ?res ?s1) = Ok s'"
      "handled es s s'" "echo_core (sent_after sent es) fds s'" "accept_only srv s'" by auto
    with b READ u(2) show ?thesis by (intro exI [of _ es] exI [of _ s']) (simp split: if_splits)
  next
    case WRITE
    obtain e s' where "addRead (int ?u) ?s1 = Ok s'" "handled [e] s s'" "echo_core (sent_after sent [e]) fds s'"
      "accept_only srv s'"
      using rd.requeues [OF TrueI seen(1,2) fd(1,2) u(3)] fd(3) by auto
    with b WRITE u(2) show ?thesis by (intro exI [of _ "[e]"] exI [of _ s']) simp
  qed
qed

section \<open>Every step keeps the invariant\<close>

lemma core_ring:
  assumes "echo_core sent fds s" and "accept_only srv s" and "kring_wf r" and lv: "mset (live r) = mset (live (es_ring s))"
    and "sq_cap (sqRing r) = sq_cap (sqRing (es_ring s))" and "Params r = Params (es_ring s)"
  shows "echo_core sent fds (s\<lparr>es_ring := r, es_cqes := cs, es_pc := pc\<rparr>)"
    and "accept_only srv (s\<lparr>es_ring := r, es_cqes := cs, es_pc := pc\<rparr>)"
proof -
  have "set (live r) = set (live (es_ring s))" "distinct (live r) = distinct (live (es_ring s))"
    using mset_eq_setD [OF lv] mset_eq_imp_distinct_iff [OF lv] by auto
  then show "echo_core sent fds (s\<lparr>es_ring := r, es_cqes := cs, es_pc := pc\<rparr>)"
    and "accept_only srv (s\<lparr>es_ring := r, es_cqes := cs, es_pc := pc\<rparr>)"
    using assms by (simp_all add: echo_core_def request_ok_def accept_only_def)
qed

lemma inv_kernel:
  assumes inv: "echo_inv srv s" and k: "kernel_step (es_ring s) r"
  shows "echo_inv srv (s\<lparr>es_ring := r\<rparr>)"
proof -
  have fr: "kernel_frame (es_ring s) r"
    using kernel_step_frame [OF k] inv by (simp add: echo_inv_def echo_core_def)
  then have "echo_core (es_sent s) (set (es_fds s)) (s\<lparr>es_ring := r, es_cqes := es_cqes s, es_pc := es_pc s\<rparr>)"
    "accept_only srv (s\<lparr>es_ring := r, es_cqes := es_cqes s, es_pc := es_pc s\<rparr>)"
    using inv core_ring [where s = s and r = r and cs = "es_cqes s" and pc = "es_pc s"]
    by (auto simp: echo_inv_def kernel_frame_def)
  moreover have "batch_ok (s\<lparr>es_ring := r\<rparr>)"
  proof -
    obtain new where "cq_ready (cqRing r) = cq_ready (cqRing (es_ring s)) @ new" using fr by (auto simp: kernel_frame_def)
    then have "length (cq_ready (cqRing (es_ring s))) \<le> length (cq_ready (cqRing r))" by (simp del: length_cq_ready)
    then show ?thesis using inv fr
      by (auto simp: echo_inv_def batch_ok_def kernel_frame_def split: echo_pc.splits simp del: length_cq_ready)
  qed
  ultimately show ?thesis using inv by (simp add: echo_inv_def)
qed

lemma next_event_ready:
  assumes inv: "echo_inv srv s" and pc: "es_pc s = AtEvent i n" "i < n"
  shows "\<exists>ev p rest. next_event s = Some ev \<and> i < length (es_cqes s) \<and> es_cqes s ! i = Some p \<and>
     cqe_at (es_ring s) p = Ok ev \<and> cq_ready (cqRing (es_ring s)) = ev # rest"
proof -
  let ?c = "cqRing (es_ring s)"
  let ?p = "cqe_ptr_of (cq_kHead ?c) (cq_kRingMask ?c)"
  have b: "n \<le> length (es_cqes s)" "n - i \<le> length (cq_ready ?c)"
    "\<forall>j < n - i. es_cqes s ! (i + j) = Some (cqe_ptr_of (cq_kHead ?c + of_nat j) (cq_kRingMask ?c))"
    using inv pc by (simp_all add: echo_inv_def batch_ok_def)
  have cq: "cq_wf ?c" using inv by (simp add: echo_inv_def echo_core_def kring_wf_def)
  obtain ev rest where r: "cq_ready ?c = ev # rest"
    using b(2) pc(2) by (cases "cq_ready ?c") (auto simp del: length_cq_ready)
  have p: "es_cqes s ! i = Some ?p" using b(3) [rule_format, of 0] pc(2) by simp
  have "0 < length (cq_ready ?c)" using r by simp
  then have "cqe_at (es_ring s) ?p = Ok ev"
    using cqe_at_ptr [OF cq, of "cq_kHead ?c"] cq_ready_nth [of 0 ?c] r by (simp del: length_cq_ready)
  with p pc b(1) r show ?thesis by (simp add: next_event_def)
qed

lemma inv_event:
  assumes inv: "echo_inv srv s" and pc: "es_pc s = AtEvent i n" "i < n"
    and ok: "\<forall>ev. next_event s = Some ev \<longrightarrow> event_ok s ev"
  shows "\<exists>s'. echo_next k (Accept raw len (of_int srv) 0) s = Some (Ok s') \<and> echo_inv srv (observe s s')"
proof -
  let ?op = "Accept raw len (of_int srv) 0"
  obtain ev p rest where ev: "next_event s = Some ev" "i < length (es_cqes s)" "es_cqes s ! i = Some p"
    "cqe_at (es_ring s) p = Ok ev" "cq_ready (cqRing (es_ring s)) = ev # rest"
    using next_event_ready [OF inv pc] by blast
  have cr: "echo_core (es_sent s) (set (es_fds s)) s" "accept_only srv s" "batch_ok s"
    and srv: "0 \<le> srv" "srv < int MaxConns" "srv \<in> set (es_fds s)" using inv by (simp_all add: echo_inv_def)
  have acc: "set (accepted_fds s) = (if ci_typ (es_conns s ! unat (cqe_UserData ev)) = ACCEPT then {sint (cqe_Res ev)} else {})"
    using ev(1) by (simp add: accepted_fds_def event_typ_def)
  obtain es s2 where h: "echo_event ?op i s = Ok s2" "handled es s s2"
    "echo_core (sent_after (es_sent s) es) (set (es_fds s) \<union> set (accepted_fds s)) s2" "accept_only srv s2"
    using echo_event_ok [OF cr(1,2) srv ev(2-5), of raw len] ok ev(1) acc by (auto simp: event_ok_def event_typ_def)
  let ?s' = "s2\<lparr>es_pc := AtEvent (i + 1) n\<rparr>"
  have nxt: "echo_next k ?op s = Some (Ok ?s')" using h(1) pc by (simp add: echo_next_def)
  have new: "new_entries s ?s' = es" using h(2) by (simp add: new_entries_def handled_def del: length_sq_pending)
  have cq: "cqRing (es_ring s2) = cqRing (AdvanceCQ 1 (es_ring s))" "es_cqes s2 = es_cqes s"
    using h(2) by (simp_all add: handled_def)
  have wf: "cq_wf (cqRing (es_ring s))" using cr(1) by (simp add: echo_core_def kring_wf_def)
  have len: "length (cq_ready (cqRing (es_ring s2))) = length (cq_ready (cqRing (es_ring s))) - 1"
    using AdvanceCQ_ok(2) [OF wf, of 1] ev(5) cq(1) by (simp del: length_cq_ready)
  have "batch_ok (observe s ?s')"
  proof -
    have "es_cqes s ! (i + 1 + j) = Some (cqe_ptr_of (cq_kHead (cqRing (es_ring s)) + 1 + of_nat j)
        (cq_kRingMask (cqRing (es_ring s))))" if "j < n - (i + 1)" for j
    proof -
      have "Suc j < n - i" using that by simp
      then have "es_cqes s ! (i + Suc j) = Some (cqe_ptr_of (cq_kHead (cqRing (es_ring s)) + of_nat (Suc j))
          (cq_kRingMask (cqRing (es_ring s))))" using cr(3) pc(1) by (simp only: batch_ok_def echo_pc.case)
      then show ?thesis by (simp add: add.assoc)
    qed
    then show ?thesis using cr(3) pc cq len
      by (simp add: batch_ok_def observe_def del: length_cq_ready) linarith
  qed
  moreover have "echo_core (es_sent (observe s ?s')) (set (es_fds (observe s ?s'))) (observe s ?s')"
    using h(3) new by (simp add: observe_def sent_after_def echo_core_def request_ok_def)
  moreover have "accept_only srv (observe s ?s')" using h(4) by (simp add: observe_def accept_only_def)
  ultimately have "echo_inv srv (observe s ?s')" using srv by (simp add: echo_inv_def observe_def)
  with nxt show ?thesis by blast
qed

text \<open>A batch, with the pointers themselves.\<close>

lemma PeekCQEventBatch_ptrs:
  assumes wf: "kring_wf r" and k: "kernel_conforms k" and len: "length buff < 2 ^ 32"
  shows "\<exists>n r'. PeekCQEventBatch k r buff = Ok (int n,
      map (\<lambda>j. Some (cqe_ptr_of (cq_kHead (cqRing r') + of_nat j) (cq_kRingMask (cqRing r')))) [0..<n] @ drop n buff, r') \<and>
    kernel_frame r r' \<and> n = min (length buff) (length (cq_ready (cqRing r')))"
proof -
  have cq: "cq_wf (cqRing r)" using wf by (simp add: kring_wf_def)
  define n where n: "n = min (length buff) (length (cq_ready (cqRing r)))"
  note p = peekCQEventBatch_ok [OF cq len n]
  show ?thesis
  proof (cases "n = 0 \<and> cqNeedFlush (sqRing r)")
    case False
    then have "PeekCQEventBatch k r buff = Ok (int n,
      map (\<lambda>j. Some (cqe_ptr_of (cq_kHead (cqRing r) + of_nat j) (cq_kRingMask (cqRing r)))) [0..<n] @ drop n buff, r)"
      using p by (auto simp: PeekCQEventBatch_def)
    then show ?thesis using n kernel_frame_refl [OF wf] by blast
  next
    case True
    obtain c err r1 where se: "sysEnter k (ring_fd r) 0 0 sysRingEnterGetEvents 0 False r = (c, err, r1)"
      by (metis prod_cases3)
    have fr: "kernel_frame r r1" using sysEnter2_frame [OF k wf] se unfolding sysEnter_def by blast
    then have cq1: "cq_wf (cqRing r1)" by (simp add: kernel_frame_def kring_wf_def)
    show ?thesis using True p se peekCQEventBatch_ok [OF cq1 len refl] fr
      by (intro exI [of _ "min (length buff) (length (cq_ready (cqRing r1)))"] exI [of _ r1])
        (simp add: PeekCQEventBatch_def del: length_cq_ready)
  qed
qed

lemma observe_quiet:
  assumes "next_event s = None" and "new_entries s s' = []" and "es_sent s' = es_sent s" and "es_fds s' = es_fds s"
  shows "observe s s' = s'"
  using assms by (simp add: observe_def accepted_fds_def)

lemma inv_submit:
  assumes inv: "echo_inv srv s" and k: "kernel_conforms k" and pc: "es_pc s = AtSubmit" and q: "echo_submit k s = Ok s'"
  shows "echo_inv srv (observe s s')"
proof -
  have c: "echo_core (es_sent s) (set (es_fds s)) s" "accept_only srv s" and wf: "kring_wf (es_ring s)"
    using inv by (simp_all add: echo_inv_def echo_core_def)
  obtain n err r where r: "Submit k (es_ring s) = Ok (n, err, r)" "kring_wf r" "mset (live r) = mset (live (es_ring s))"
    "sq_pending (sqRing r) = []" "sq_cap (sqRing r) = sq_cap (sqRing (es_ring s))" "Params r = Params (es_ring s)"
    using Submit_frame [OF wf k] by blast
  have s': "s' = s\<lparr>es_ring := r, es_cqes := es_cqes s, es_pc := AtWait\<rparr>"
    using q r(1) by (auto simp: echo_submit_def go_outcome)
  have "observe s s' = s'" by (rule observe_quiet) (use pc r(4) s' in \<open>simp_all add: next_event_def new_entries_def\<close>)
  moreover have "batch_ok s'" using inv s' by (simp add: echo_inv_def batch_ok_def)
  ultimately show ?thesis using core_ring [OF c r(2,3,5,6), of AtWait "es_cqes s"] inv s' by (simp add: echo_inv_def)
qed

lemma inv_frame:
  assumes inv: "echo_inv srv s" and fr: "kernel_frame (es_ring s) r" and "next_event s = None"
    and s': "s' = s\<lparr>es_ring := r, es_cqes := cs, es_pc := pc\<rparr>" and b: "batch_ok s'"
  shows "echo_inv srv (observe s s')"
proof -
  have c: "echo_core (es_sent s) (set (es_fds s)) s" "accept_only srv s" using inv by (simp_all add: echo_inv_def)
  have "new_entries s s' = []" using fr s' by (simp add: new_entries_def kernel_frame_def)
  then have "observe s s' = s'" using assms(3) s' by (intro observe_quiet) simp_all
  moreover have "echo_core (es_sent s) (set (es_fds s)) s'" "accept_only srv s'"
    using core_ring [OF c, of r pc cs] fr s' by (simp_all add: kernel_frame_def)
  ultimately show ?thesis using inv b s' by (simp add: echo_inv_def)
qed

lemma inv_wait:
  assumes inv: "echo_inv srv s" and k: "kernel_conforms k" and pc: "es_pc s = AtWait" and q: "echo_wait k s = Some (Ok s')"
  shows "echo_inv srv (observe s s')"
proof -
  have wf: "kring_wf (es_ring s)" "ExtArgFeature (Params (es_ring s))" using inv by (simp_all add: echo_inv_def echo_core_def)
  obtain out where w: "WaitCQEvents k 1 (es_ring s) = Some out" using q by (auto simp: echo_wait_def)
  obtain p err r where r: "out = Ok (p, err, r)" "kernel_frame (es_ring s) r"
    using getCQEvents_frame [OF w [unfolded WaitCQEvents_def] k wf] by blast
  obtain pc' where s': "s' = s\<lparr>es_ring := r, es_cqes := es_cqes s, es_pc := pc'\<rparr>" "pc' = AtSubmit \<or> pc' = AtPeek"
    using q w r(1) by (auto simp: echo_wait_def Let_def go_outcome split: if_splits)
  have "batch_ok s'" using inv s' by (auto simp: echo_inv_def batch_ok_def)
  with s' show ?thesis using inv_frame [OF inv r(2) _ s'(1)] pc by (simp add: next_event_def)
qed

lemma inv_peek:
  assumes inv: "echo_inv srv s" and k: "kernel_conforms k" and pc: "es_pc s = AtPeek" and q: "echo_peek k s = Ok s'"
  shows "echo_inv srv (observe s s')"
proof -
  have wf: "kring_wf (es_ring s)" and len: "length (es_cqes s) = Backlog"
    using inv by (simp_all add: echo_inv_def echo_core_def batch_ok_def)
  let ?ps = "\<lambda>n r. map (\<lambda>j. Some (cqe_ptr_of (cq_kHead (cqRing r) + of_nat j) (cq_kRingMask (cqRing r)))) [0..<n] @ drop n (es_cqes s)"
  obtain n r where r: "PeekCQEventBatch k (es_ring s) (es_cqes s) = Ok (int n, ?ps n r, r)"
    "kernel_frame (es_ring s) r" "n = min Backlog (length (cq_ready (cqRing r)))"
    using PeekCQEventBatch_ptrs [OF wf k, of "es_cqes s"] len by (auto simp: Backlog_def)
  have s': "s' = s\<lparr>es_ring := r, es_cqes := ?ps n r, es_pc := AtEvent 0 n\<rparr>"
    using q r(1) by (simp add: echo_peek_def)
  have "batch_ok s'" using r(3) len by (simp add: s' batch_ok_def nth_append del: length_cq_ready)
  with s' show ?thesis using inv_frame [OF inv r(2) _ s'] pc by (simp add: next_event_def)
qed

lemma inv_program:
  assumes inv: "echo_inv srv s" and k: "kernel_conforms k"
    and ok: "\<forall>ev. next_event s = Some ev \<longrightarrow> event_ok s ev"
    and q: "echo_next k (Accept raw len (of_int srv) 0) s = Some (Ok s')"
  shows "echo_inv srv (observe s s')"
proof (cases "es_pc s")
  case (AtEvent i n)
  show ?thesis
  proof (cases "i < n")
    case True
    with inv_event [OF inv AtEvent True ok, of k raw len] q show ?thesis by auto
  next
    case False
    then have s': "s' = s\<lparr>es_ring := es_ring s, es_cqes := es_cqes s, es_pc := AtSubmit\<rparr>"
      using q AtEvent by (simp add: echo_next_def)
    have "kernel_frame (es_ring s) (es_ring s)"
      using inv by (intro kernel_frame_refl) (simp add: echo_inv_def echo_core_def)
    moreover have "batch_ok s'" using inv s' by (simp add: echo_inv_def batch_ok_def)
    ultimately show ?thesis using inv_frame [OF inv _ _ s'] AtEvent False by (simp add: next_event_def)
  qed
qed (use q inv_submit [OF inv k] inv_wait [OF inv k] inv_peek [OF inv k] in \<open>simp_all add: echo_next_def\<close>)

section \<open>Reachable states\<close>

text \<open>
  A run: the ring is new, with room for a request of every slot, and the kernel conforms; the server
  has queued its first accept and taken any number of steps.
\<close>

definition echo_run :: "kring kernel \<Rightarrow> u64 \<Rightarrow> u64 \<Rightarrow> (nat \<Rightarrow> u64) \<Rightarrow> int \<Rightarrow> kring \<Rightarrow> esys \<Rightarrow> bool" where
  "echo_run k raw len alloc srv r s \<longleftrightarrow>
     kernel_conforms k \<and> kring_wf r \<and> live r = [] \<and> MaxConns \<le> sq_cap (sqRing r) \<and> ExtArgFeature (Params r) \<and>
     0 \<le> srv \<and> srv < int MaxConns \<and>
     (\<exists>s0. addAccept (Accept raw len (of_int srv) 0) (echo_init alloc r) = Ok s0 \<and>
        (echo_step k (Accept raw len (of_int srv) 0))\<^sup>*\<^sup>* (echo_sys srv s0) s)"

lemma echo_init_core:
  assumes "kring_wf r" and "live r = []" and "MaxConns \<le> sq_cap (sqRing r)" and "ExtArgFeature (Params r)"
  shows "echo_core sent fds (echo_init alloc r)" and "accept_only srv (echo_init alloc r)"
  using assms makeConns_ops by (auto simp: echo_core_def accept_only_def echo_init_def)

lemma echo_start:
  assumes r: "kring_wf r" "live r = []" "MaxConns \<le> sq_cap (sqRing r)" "ExtArgFeature (Params r)"
    and srv: "0 \<le> srv" "srv < int MaxConns"
  shows "\<exists>s0. addAccept (Accept raw len (of_int srv) 0) (echo_init alloc r) = Ok s0 \<and> echo_inv srv (echo_sys srv s0)"
proof -
  let ?i = "echo_init alloc r"
  note c = echo_init_core(1) [OF r, of Map.empty "{srv}" alloc] echo_init_core(2) [OF r, of srv alloc]
  have f: "of_int srv \<notin> set (live (es_ring ?i))" using r(2) by (simp add: echo_init_def)
  obtain e s0 where q: "addAccept (Accept raw len (of_int srv) 0) ?i = Ok s0" "queued e ?i s0"
    "echo_core (Map.empty(of_int srv \<mapsto> e)) {srv} s0" "sqe_UserData e = of_int srv"
    "es_conns s0 = (es_conns ?i)[nat srv := es_conns s0 ! nat srv]"
    using addAccept_ok [OF c(1) srv _ f] by blast
  have "sq_pending (sqRing (es_ring ?i)) = []" using r(2) by (simp add: echo_init_def live_def)
  then have "sq_pending (sqRing (es_ring s0)) = [e]" using q(2) by (simp add: queued_def)
  then have sys: "echo_sys srv s0 = echo.extend s0 (esys.fields (Map.empty(of_int srv \<mapsto> e)) [srv])"
    using q(4) by (simp add: echo_sys_def)
  have a: "accept_only srv s0"
    by (rule accept_only_queued [OF c(2) q(2,4) srv q(5) _ _ f]) (simp_all add: echo_init_def)
  have p: "es_pc s0 = AtSubmit" "length (es_cqes s0) = Backlog"
    using queued_sel [OF q(2)] by (simp_all add: echo_init_def)
  have "echo_inv srv (echo_sys srv s0)"
    using q(3) a p srv unfolding sys
    by (simp add: echo_inv_def echo_core_def request_ok_def accept_only_def batch_ok_def echo.defs esys.defs)
  with q(1) show ?thesis by blast
qed

text \<open>What \<^verbatim>\<open>main\<close> leaves when it reaches its loop is such a start, on the ring it created.\<close>

lemma echo_main_starts:
  assumes "echo_main so os alloc raw len port w = Ok (op, s, w')"
  shows "\<exists>srv r. op = Accept raw len (of_int srv) 0 \<and> addAccept op (echo_init alloc r) = Ok s \<and>
     FastPollFeature (Params r) \<and> inflight r = []"
proof -
  obtain srv w1 where l: "echo_listen so port w = Ok (srv, w1)"
    using assms by (cases "echo_listen so port w") (auto simp: echo_main_def)
  obtain r w2 where r: "echo_ring os w1 = Ok (r, w2)"
    using assms l by (cases "echo_ring os w1") (auto simp: echo_main_def)
  have "op = Accept raw len (of_int srv) 0 \<and> addAccept op (echo_init alloc r) = Ok s"
    using assms l r by (auto simp: echo_main_def Let_def go_outcome)
  moreover have "FastPollFeature (Params r) \<and> inflight r = []"
    using r by (auto simp: echo_ring_def checkErr_def go_outcome split: option.split_asm if_splits)
  ultimately show ?thesis by blast
qed

interpretation echo_runs: invariant_system "echo_step k op" "\<lambda>_. kernel_conforms k" "\<lambda>s. echo_inv srv s \<and> op = Accept raw len (of_int srv) 0"
  for k op srv raw len
proof (unfold_locales, goal_cases)
  case (2 s s')
  then have inv: "echo_inv srv s" and op: "op = Accept raw len (of_int srv) 0" by simp_all
  from 2(1) show ?case
    by (cases rule: echo_step.cases) (use op inv_kernel [OF inv] inv_program [OF inv 2(2)] in auto)
qed

lemma run_inv:
  assumes "echo_run k raw len alloc srv r s"
  shows "echo_inv srv s"
proof -
  let ?op = "Accept raw len (of_int srv) 0"
  obtain s0 where s0: "addAccept ?op (echo_init alloc r) = Ok s0" "(echo_step k ?op)\<^sup>*\<^sup>* (echo_sys srv s0) s"
    and k: "kernel_conforms k" using assms by (auto simp: echo_run_def)
  have "echo_inv srv (echo_sys srv s0)"
    using echo_start [of r srv raw len alloc] assms s0(1) by (auto simp: echo_run_def)
  with echo_runs.run_keeps [OF s0(2) k] show ?thesis by blast
qed

section \<open>A run of the server\<close>

text \<open>A new ring of the size the server asks for, and a kernel whose calls succeed and do nothing.\<close>

definition ex_big :: kring where
  "ex_big = \<lparr>ring_fd = 5, Params = ex_params,
     cqRing = \<lparr>cq_buff = nil_slice, cq_ringSize = 0, cq_kHead = 0, cq_kTail = 0, cq_kRingMask = 8191,
       cq_kRingEntries = 8192, cq_kOverflow = 0, cq_kFlags = 0, cqeBuff = replicate 8192 (ex_cqe 0 0)\<rparr>,
     sqRing = \<lparr>sq_buff = nil_slice, sqeBuff = replicate 4096 zero_SQEntry, sq_ringSize = 0, sq_kHead = 0,
       sq_kTail = 0, sq_kRingMask = 4095, sq_kRingEntries = 4096, sq_kFlags = 0, sq_kDropped = 0,
       kArray = replicate 4096 0, sqeTail = 0, sqeHead = 0\<rparr>, inflight = []\<rparr>"

definition ex_idle :: "kring kernel" where
  "ex_idle trap args r = (0, 0, r)"

lemma ex_big_ok: "kring_wf ex_big" "live ex_big = []" "MaxConns \<le> sq_cap (sqRing ex_big)"
  "ExtArgFeature (Params ex_big)" "kernel_conforms ex_idle" "cq_cap (cqRing ex_big) = 8192"
proof -
  have "pow2_ring 12 4096 4095" "pow2_ring 13 8192 8191" by (simp_all add: pow2_ring_def)
  then have "sq_wf (sqRing ex_big)" "cq_wf (cqRing ex_big)"
    by (auto simp: ex_big_def sq_wf_def intro!: bexI [of _ 12]) (auto simp: ex_big_def cq_wf_def intro!: bexI [of _ 13])
  then show "kring_wf ex_big" by (simp add: kring_wf_def)
qed (simp_all add: ex_big_def live_def sq_published_def sq_pending_def cq_ready_def sq_cap_def cq_cap_def MaxConns_def
    ex_params_def ExtArgFeature_def featExtArg_def kernel_conforms_def ex_idle_def)

lemma idle_submit:
  assumes "kring_wf r" and "p_flags (Params r) = 0"
  shows "\<exists>c q. Submit ex_idle r = Ok (c, None, r\<lparr>sqRing := q\<rparr>) \<and> sq_wf q \<and>
     sq_published q = sq_published (sqRing r) @ sq_pending (sqRing r) \<and> sq_pending q = []"
proof -
  obtain q n where f: "flushSQ r = Ok (n, r\<lparr>sqRing := q\<rparr>)" "sq_wf q"
      "sq_published q = sq_published (sqRing r) @ sq_pending (sqRing r)" "sq_pending q = []"
    using flushSQ_ok [of r] assms(1) by (auto simp: kring_wf_def)
  then show ?thesis using assms(2)
    by (intro exI [of _ 0] exI [of _ q])
      (simp add: Submit_def needsEnter_def sysEnter_def sysEnter2_def RawSyscall6_def NewSyscallError_def ex_idle_def)
qed

lemma wait_ready:
  assumes "cq_wf (cqRing r)" and "ExtArgFeature (Params r)" and "cq_ready (cqRing r) = [ev]"
  shows "\<exists>p. WaitCQEvents k 1 r = Some (Ok (p, None, r))"
proof -
  have "length (cq_ready (cqRing r)) = 1" using assms(3) by simp
  then have "unat (readyCount (cqRing r)) = 1" by (simp add: readyCount_def)
  then have "readyCount (cqRing r) = 1" by (simp add: word_unat_eq_iff)
  then show ?thesis using peekCQEvent_ext [OF assms(1,2)] assms(3)
    by (simp add: WaitCQEvents_def getCQEvents.simps get_iter_def Let_def)
qed

lemma run_quiet:
  assumes "echo_run k raw len alloc srv r s" and "next_event s = None"
    and "echo_next k (Accept raw len (of_int srv) 0) s = Some (Ok s')"
  shows "echo_run k raw len alloc srv r (observe s s')"
  using assms echo_step.program [of s k "Accept raw len (of_int srv) 0" s'] unfolding echo_run_def
  by (auto intro: rtranclp.rtrancl_into_rtrancl)

lemma run_kernel:
  assumes "echo_run k raw len alloc srv r s" and "kernel_step (es_ring s) r'"
  shows "echo_run k raw len alloc srv r (s\<lparr>es_ring := r'\<rparr>)"
  using assms echo_step.kernel [OF assms(2), of k "Accept raw len (of_int srv) 0"] unfolding echo_run_def
  by (auto intro: rtranclp.rtrancl_into_rtrancl)

text \<open>Whatever request is under way, the server can get to handle its event next.\<close>

lemma run_posts:
  assumes run: "echo_run ex_idle raw len alloc srv r s" and pc: "es_pc s = AtWait"
    and ev: "cqe_UserData ev \<in> set (map sqe_UserData (sq_published (sqRing (es_ring s))) @ inflight (es_ring s))"
    and nil: "cq_ready (cqRing (es_ring s)) = []" and cap: "0 < cq_cap (cqRing (es_ring s))"
  shows "\<exists>r'. echo_run ex_idle raw len alloc srv r (s\<lparr>es_ring := r'\<rparr>) \<and> cq_ready (cqRing r') = [ev] \<and>
     kernel_frame (es_ring s) r'"
proof -
  let ?r1 = "es_ring s" and ?n = "length (sq_published (sqRing (es_ring s)))"
  define r2 where "r2 = (kernel_consume ?n ?r1)\<lparr>inflight := inflight ?r1 @ map sqe_UserData (take ?n (sq_published (sqRing ?r1)))\<rparr>"
  have k2: "kernel_step ?r1 r2" unfolding r2_def by (rule kernel_step.take_sqes) (rule order_refl)
  have S2: "echo_run ex_idle raw len alloc srv r (s\<lparr>es_ring := r2\<rparr>)" by (rule run_kernel [OF run k2])
  have r2: "cqe_UserData ev \<in> set (inflight r2)" "cqRing r2 = cqRing ?r1" using ev by (auto simp: r2_def)
  define r3 where "r3 = (kernel_post ev r2)\<lparr>inflight := remove1 (cqe_UserData ev) (inflight r2)\<rparr>"
  have k3: "kernel_step r2 r3" unfolding r3_def
    by (rule kernel_step.complete [OF r2(1)]) (use r2 nil cap in \<open>simp_all del: length_cq_ready\<close>)
  have "echo_run ex_idle raw len alloc srv r (s\<lparr>es_ring := r3\<rparr>)" using run_kernel [OF S2, of r3] k3 by simp
  moreover have wf: "kring_wf ?r1" using run_inv [OF run] by (simp add: echo_inv_def echo_core_def)
  moreover have "cq_ready (cqRing r3) = [ev]"
    using kernel_post_ok(2) [of r2 ev] wf r2(2) nil cap by (simp add: r3_def kring_wf_def del: length_cq_ready)
  moreover have "kernel_frame ?r1 r3" using kernel_step_frame [OF k2 wf] kernel_step_frame [OF k3] kernel_frame_trans
    by (metis kernel_frame_def)
  ultimately show ?thesis by blast
qed

lemma run_peeks:
  assumes run: "echo_run ex_idle raw len alloc srv r s" and pc: "es_pc s = AtWait"
    and rdy: "cq_ready (cqRing (es_ring s)) = [ev]"
  shows "\<exists>s'. echo_run ex_idle raw len alloc srv r s' \<and> es_pc s' = AtEvent 0 1 \<and> next_event s' = Some ev \<and>
     es_ring s' = es_ring s \<and> es_conns s' = es_conns s \<and> es_fds s' = es_fds s"
proof -
  let ?run = "echo_run ex_idle raw len alloc srv r" and ?r = "es_ring s"
  have e: "ExtArgFeature (Params ?r)" "cq_wf (cqRing ?r)" and len: "length (es_cqes s) = Backlog"
    using run_inv [OF run] by (simp_all add: echo_inv_def echo_core_def kring_wf_def batch_ok_def)
  obtain p where w: "WaitCQEvents ex_idle 1 ?r = Some (Ok (p, None, ?r))" using wait_ready [OF e(2,1) rdy] by blast
  define s1 where "s1 = observe s (s\<lparr>es_pc := AtPeek\<rparr>)"
  have s1: "?run s1" unfolding s1_def
    by (rule run_quiet [OF run])
      (use w pc in \<open>simp_all add: next_event_def echo_next_def echo_wait_def checkErr_def err_is_def\<close>)
  have st1: "es_ring s1 = ?r" "es_pc s1 = AtPeek" "es_cqes s1 = es_cqes s" by (simp_all add: s1_def observe_def)
  let ?cs = "map (\<lambda>j. Some (cqe_ptr_of (cq_kHead (cqRing ?r) + of_nat j) (cq_kRingMask (cqRing ?r)))) [0..<1] @ drop 1 (es_cqes s)"
  have "peekCQEventBatch ?r (es_cqes s) = Ok (int 1, ?cs)"
    by (rule peekCQEventBatch_ok [OF e(2)]) (use len rdy in \<open>simp_all add: Backlog_def del: length_cq_ready\<close>)
  then have pk: "echo_peek ex_idle s1 = Ok (s1\<lparr>es_ring := ?r, es_cqes := ?cs, es_pc := AtEvent 0 1\<rparr>)"
    using st1 by (simp add: echo_peek_def PeekCQEventBatch_def)
  define s2 where "s2 = observe s1 (s1\<lparr>es_ring := ?r, es_cqes := ?cs, es_pc := AtEvent 0 1\<rparr>)"
  have s2: "?run s2" unfolding s2_def
    by (rule run_quiet [OF s1]) (use st1 pk in \<open>simp_all add: next_event_def echo_next_def\<close>)
  have st2: "es_pc s2 = AtEvent 0 1" "es_ring s2 = ?r" "es_conns s2 = es_conns s" "es_fds s2 = es_fds s"
    using pc st1 by (simp_all add: s2_def s1_def observe_def accepted_fds_def next_event_def)
  have "next_event s2 = Some ev" using next_event_ready [OF run_inv [OF s2] st2(1)] st2(2) rdy by auto
  with s2 st2 show ?thesis by blast
qed

lemma run_to_event:
  assumes run: "echo_run ex_idle raw len alloc srv r s" and pc: "es_pc s = AtSubmit"
    and ev: "cqe_UserData ev \<in> set (live (es_ring s))" and nil: "cq_ready (cqRing (es_ring s)) = []"
    and cap: "0 < cq_cap (cqRing (es_ring s))" and fl: "p_flags (Params (es_ring s)) = 0"
  shows "\<exists>s'. echo_run ex_idle raw len alloc srv r s' \<and> es_pc s' = AtEvent 0 1 \<and> next_event s' = Some ev \<and>
     es_conns s' = es_conns s \<and> es_fds s' = es_fds s \<and> cq_ready (cqRing (es_ring s')) = [ev] \<and>
     cq_cap (cqRing (es_ring s')) = cq_cap (cqRing (es_ring s)) \<and> Params (es_ring s') = Params (es_ring s)"
proof -
  let ?run = "echo_run ex_idle raw len alloc srv r" and ?r0 = "es_ring s"
  have wf0: "kring_wf ?r0" using run_inv [OF run] by (simp add: echo_inv_def echo_core_def)
  obtain c q where sub: "Submit ex_idle ?r0 = Ok (c, None, ?r0\<lparr>sqRing := q\<rparr>)"
    "sq_published q = sq_published (sqRing ?r0) @ sq_pending (sqRing ?r0)"
    using idle_submit [OF wf0 fl] by blast
  define s1 where "s1 = observe s (s\<lparr>es_ring := ?r0\<lparr>sqRing := q\<rparr>, es_pc := AtWait\<rparr>)"
  have s1: "?run s1" unfolding s1_def
    by (rule run_quiet [OF run]) (use pc sub(1) in \<open>simp_all add: next_event_def echo_next_def echo_submit_def checkErr_def\<close>)
  have st1: "es_ring s1 = ?r0\<lparr>sqRing := q\<rparr>" "es_pc s1 = AtWait" "es_conns s1 = es_conns s" "es_fds s1 = es_fds s"
    using pc by (simp_all add: s1_def observe_def accepted_fds_def next_event_def)
  obtain r3 where r3: "?run (s1\<lparr>es_ring := r3\<rparr>)" "cq_ready (cqRing r3) = [ev]" "kernel_frame (es_ring s1) r3"
    using run_posts [OF s1 st1(2)] ev nil cap sub(2) st1(1) by (auto simp: live_def)
  obtain s' where "?run s'" "es_pc s' = AtEvent 0 1" "next_event s' = Some ev" "es_ring s' = r3"
    "es_conns s' = es_conns s1" "es_fds s' = es_fds s1"
    using run_peeks [OF r3(1)] st1(2) r3(2) by auto
  with r3 st1 show ?thesis by (intro exI [of _ s']) (simp add: kernel_frame_def)
qed

text \<open>The server on the new ring, with its first accept queued.\<close>

lemma ex_started:
  "\<exists>s. echo_run ex_idle 0 0 (\<lambda>_. 64) 3 ex_big s \<and> es_pc s = AtSubmit \<and> 3 \<in> set (live (es_ring s)) \<and>
     cqRing (es_ring s) = cqRing ex_big \<and> Params (es_ring s) = ex_params \<and> es_fds s = [3] \<and>
     ci_typ (es_conns s ! 3) = ACCEPT"
proof -
  let ?op = "Accept 0 0 (of_int 3) 0" and ?i = "echo_init (\<lambda>_. 64) ex_big"
  have f: "of_int 3 \<notin> set (live (es_ring ?i))" using ex_big_ok(2) by (simp add: echo_init_def)
  obtain e s0 where q: "addAccept ?op ?i = Ok s0" "queued e ?i s0" "sqe_UserData e = 3"
    using addAccept_ok [where sent = Map.empty and fds = "{3}" and raw = 0 and len = 0,
        OF echo_init_core(1) [OF ex_big_ok(1-4)] _ _ _ f] by (auto simp: MaxConns_def)
  have t: "ci_typ (es_conns s0 ! 3) = ACCEPT"
    using q(1) by (auto simp: addAccept_def Accept_def conn_at_def echo_queue_def go_outcome echo_init_def MaxConns_def)
  have s0: "s0 = ?i\<lparr>es_conns := es_conns s0, es_ring := ex_big\<lparr>sqRing := sq_push e (sqRing ex_big)\<rparr>\<rparr>"
    using q(2) by (simp add: queued_def echo_init_def)
  have "echo_run ex_idle 0 0 (\<lambda>_. 64) 3 ex_big (echo_sys 3 s0)"
    using q(1) ex_big_ok by (auto simp: echo_run_def MaxConns_def)
  moreover have "es_pc s0 = AtSubmit" "cqRing (es_ring s0) = cqRing ex_big" "Params (es_ring s0) = ex_params"
    by (subst s0, simp add: echo_init_def ex_big_def)+
  ultimately show ?thesis using t queued_sel(5) [OF q(2)] q(3)
    by (intro exI [of _ "echo_sys 3 s0"]) (simp add: echo_sys_def echo.defs esys.defs)
qed

text \<open>The first accept completes with the event \<open>ev\<close>, and the server is about to handle it.\<close>

lemma ex_run:
  assumes "cqe_UserData ev = 3"
  shows "\<exists>s. echo_run ex_idle 0 0 (\<lambda>_. 64) 3 ex_big s \<and> es_pc s = AtEvent 0 1 \<and> next_event s = Some ev \<and>
     event_typ s ev = ACCEPT \<and> es_fds s = [3] \<and> cq_ready (cqRing (es_ring s)) = [ev] \<and>
     0 < cq_cap (cqRing (es_ring s)) \<and> p_flags (Params (es_ring s)) = 0"
proof -
  obtain s where s: "echo_run ex_idle 0 0 (\<lambda>_. 64) 3 ex_big s" "es_pc s = AtSubmit" "3 \<in> set (live (es_ring s))"
    "cqRing (es_ring s) = cqRing ex_big" "Params (es_ring s) = ex_params" "es_fds s = [3]"
    "ci_typ (es_conns s ! 3) = ACCEPT" using ex_started by blast
  have nil: "cq_ready (cqRing (es_ring s)) = []" "0 < cq_cap (cqRing (es_ring s))" "p_flags (Params (es_ring s)) = 0"
    using s(4,5) ex_big_ok(2,6) by (simp_all add: live_def ex_params_def)
  obtain s' where "echo_run ex_idle 0 0 (\<lambda>_. 64) 3 ex_big s'" "es_pc s' = AtEvent 0 1" "next_event s' = Some ev"
    "es_conns s' = es_conns s" "es_fds s' = es_fds s" "cq_ready (cqRing (es_ring s')) = [ev]"
    "cq_cap (cqRing (es_ring s')) = cq_cap (cqRing (es_ring s))" "Params (es_ring s') = Params (es_ring s)"
    using run_to_event [OF s(1,2) _ nil, of ev] s(3) assms by auto
  then show ?thesis using s nil assms by (intro exI [of _ s']) (simp add: event_typ_def)
qed

text \<open>The server after it has accepted descriptor 7, and then about to handle its first receive, of five bytes.\<close>

lemma ex_accepted_run:
  "\<exists>s. echo_run ex_idle 0 0 (\<lambda>_. 64) 3 ex_big s \<and> es_pc s = AtEvent 1 1 \<and> 7 \<in> set (live (es_ring s)) \<and>
     cq_ready (cqRing (es_ring s)) = [] \<and> 0 < cq_cap (cqRing (es_ring s)) \<and> p_flags (Params (es_ring s)) = 0 \<and>
     ci_typ (es_conns s ! 7) = READ"
proof -
  let ?ev = "ex_cqe 3 7" and ?run = "echo_run ex_idle 0 0 (\<lambda>_. 64) 3 ex_big" and ?op = "Accept 0 0 (of_int 3) 0"
  obtain s where s: "?run s" "es_pc s = AtEvent 0 1" "next_event s = Some ?ev" "event_typ s ?ev = ACCEPT" "es_fds s = [3]"
    "cq_ready (cqRing (es_ring s)) = [?ev]" "0 < cq_cap (cqRing (es_ring s))" "p_flags (Params (es_ring s)) = 0"
    using ex_run [of ?ev] by (auto simp: ex_cqe_def)
  have core: "echo_core (es_sent s) (set (es_fds s)) s" "accept_only 3 s" and wf: "cq_wf (cqRing (es_ring s))"
    using run_inv [OF s(1)] by (simp_all add: echo_inv_def echo_core_def kring_wf_def)
  let ?s1 = "s\<lparr>es_ring := AdvanceCQ 1 (es_ring s)\<rparr>"
  note seen = seen_core [OF core s(6)]
  obtain e1 e2 s1 s2 where a: "addRead 7 ?s1 = Ok s1" "addAccept ?op s1 = Ok s2" "queued e1 ?s1 s1" "queued e2 s1 s2"
    "sqe_UserData e1 = 7" "ci_typ (es_conns s2 ! 7) = READ"
    using echo_accept_ok [OF seen(1,2), of 7 0 0] seen(4) s(5) by (auto simp: MaxConns_def ex_cqe_def)
  obtain p where p: "0 < length (es_cqes s)" "es_cqes s ! 0 = Some p" "cqe_at (es_ring s) p = Ok ?ev"
    using next_event_ready [OF run_inv [OF s(1)] s(2)] s(3) by auto
  have "length (es_conns s) = MaxConns" using core by (simp add: echo_core_def)
  then have "echo_event ?op 0 s = Ok s2"
    using echo_event_eq [OF p] a(1,2) s(4) by (simp add: event_typ_def ex_cqe_def MaxConns_def)
  then have nxt: "echo_next ex_idle ?op s = Some (Ok (s2\<lparr>es_pc := AtEvent 1 1\<rparr>))" using s(2) by (simp add: echo_next_def)
  define t where "t = observe s (s2\<lparr>es_pc := AtEvent 1 1\<rparr>)"
  have "event_ok s ?ev" using s(4,5) by (simp add: event_ok_def MaxConns_def ex_cqe_def)
  then have "echo_step ex_idle ?op s t" unfolding t_def
    by (intro echo_step.program) (use s(3) nxt in simp_all)
  then have t: "?run t" using s(1) unfolding echo_run_def by (auto intro: rtranclp.rtrancl_into_rtrancl)
  have st: "es_ring t = es_ring s2" "es_conns t = es_conns s2" "es_pc t = AtEvent 1 1" by (simp_all add: t_def observe_def)
  have cq: "cqRing (es_ring s2) = cqRing (AdvanceCQ 1 (es_ring s))" "Params (es_ring s2) = Params (es_ring s)"
    using queued_sel(1,6) [OF a(3)] queued_sel(1,6) [OF a(4)] by simp_all
  have "cq_ready (cqRing (es_ring t)) = []" "7 \<in> set (live (es_ring t))" "0 < cq_cap (cqRing (es_ring t))"
    using AdvanceCQ_ok(2) [OF wf, of 1] s(6,7) cq(1) st(1) queued_sel(5) [OF a(3)] queued_sel(5) [OF a(4)] a(5)
    by (simp_all add: cq_cap_def)
  with t st a(6) cq(2) s(8) show ?thesis by (intro exI [of _ t]) simp
qed

lemma ex_read_run:
  "\<exists>s. echo_run ex_idle 0 0 (\<lambda>_. 64) 3 ex_big s \<and> es_pc s = AtEvent 0 1 \<and>
     next_event s = Some (ex_cqe 7 5) \<and> event_typ s (ex_cqe 7 5) = READ"
proof -
  obtain t where t: "echo_run ex_idle 0 0 (\<lambda>_. 64) 3 ex_big t" "es_pc t = AtEvent 1 1" "7 \<in> set (live (es_ring t))"
    "cq_ready (cqRing (es_ring t)) = []" "0 < cq_cap (cqRing (es_ring t))" "p_flags (Params (es_ring t)) = 0"
    "ci_typ (es_conns t ! 7) = READ" using ex_accepted_run by blast
  define u where "u = observe t (t\<lparr>es_pc := AtSubmit\<rparr>)"
  have "echo_run ex_idle 0 0 (\<lambda>_. 64) 3 ex_big u" unfolding u_def
    by (rule run_quiet [OF t(1)]) (simp_all add: t(2) next_event_def echo_next_def)
  moreover have "es_ring u = es_ring t" "es_conns u = es_conns t" "es_pc u = AtSubmit" by (simp_all add: u_def observe_def)
  ultimately show ?thesis
    using run_to_event [of 0 0 "\<lambda>_. 64" 3 ex_big u "ex_cqe 7 5"] t by (auto simp: ex_cqe_def event_typ_def)
qed

section \<open>Properties\<close>

text \<open>
  C11. One request for each descriptor, and the table knows which: in every run of the echo server, the
  requests that still owe a completion have different user data; each is the descriptor of an
  opened socket, the slot of that number in the table holds that descriptor, and the entry last
  written to the submission queue under it is the operation the slot's type names: an accept on the
  server socket, a receive into the whole buffer of the slot, a send of a part of that buffer that
  is not empty.
\<close>

theorem echo_requests:
  assumes "echo_run k raw len alloc srv r s"
  shows "distinct (live (es_ring s)) \<and>
     (\<forall>x \<in> set (live (es_ring s)). request_ok (es_sent s) (set (es_fds s)) s x \<and>
        (ci_typ (es_conns s ! unat x) = ACCEPT \<longrightarrow> int (unat x) = srv))"
  using run_inv [OF assms] by (simp add: echo_inv_def echo_core_def accept_only_def)

theorem echo_requests_witness:
  "\<exists>s. echo_run ex_idle 0 0 (\<lambda>_. 64) 3 ex_big s \<and> 3 \<in> set (live (es_ring s)) \<and>
     request_ok (es_sent s) {3} s 3"
proof -
  obtain s where s: "echo_run ex_idle 0 0 (\<lambda>_. 64) 3 ex_big s" "3 \<in> set (live (es_ring s))" "es_fds s = [3]"
    using ex_started by blast
  with echo_requests [OF s(1)] show ?thesis by auto
qed

text \<open>
  C22. Handling an event succeeds when the kernel's answer is one the server expects, and does not when
  an accept fails or returns a descriptor beyond the table. In every run, before an event of a
  batch: it is the oldest of the completion queue. If it is a receive of at most the length of the
  buffer, a send, or an accept of a new descriptor below \<open>MaxConns\<close>, the loop goes on: no index is
  out of range and the submission queue has room for every request. If it is an accept
  with a negative result or a descriptor of \<open>MaxConns\<close> or more, the server ends with an index panic.
\<close>

theorem echo_handles:
  assumes "echo_run k raw len alloc srv r s" and "es_pc s = AtEvent i n" and "i < n"
  shows "\<exists>ev rest. next_event s = Some ev \<and> cq_ready (cqRing (es_ring s)) = ev # rest \<and>
     (event_ok s ev \<longrightarrow> (\<exists>s'. echo_next k (Accept raw len (of_int srv) 0) s = Some (Ok s') \<and> es_pc s' = AtEvent (i + 1) n)) \<and>
     (event_typ s ev = ACCEPT \<and> (sint (cqe_Res ev) < 0 \<or> int MaxConns \<le> sint (cqe_Res ev)) \<longrightarrow>
        echo_next k (Accept raw len (of_int srv) 0) s = Some (Panic IndexOutOfRange))"
proof -
  let ?op = "Accept raw len (of_int srv) 0"
  have inv: "echo_inv srv s" by (rule run_inv [OF assms(1)])
  obtain ev p rest where ev: "next_event s = Some ev" "i < length (es_cqes s)" "es_cqes s ! i = Some p"
     "cqe_at (es_ring s) p = Ok ev" "cq_ready (cqRing (es_ring s)) = ev # rest"
    using next_event_ready [OF inv assms(2,3)] by blast
  have core: "echo_core (es_sent s) (set (es_fds s)) s" "accept_only srv s" using inv by (simp_all add: echo_inv_def)
  have u: "unat (cqe_UserData ev) < length (es_conns s)" and b: "length (es_buffs s) = MaxConns"
    using seen_core(3) [OF core ev(5)] core by (auto simp: request_ok_def echo_core_def)
  have bad: "echo_next k ?op s = Some (Panic IndexOutOfRange)"
    if "event_typ s ev = ACCEPT" "sint (cqe_Res ev) < 0 \<or> int MaxConns \<le> sint (cqe_Res ev)"
  proof -
    have "addRead (sint (cqe_Res ev)) (s\<lparr>es_ring := AdvanceCQ 1 (es_ring s)\<rparr>) = Panic IndexOutOfRange"
      using that(2) b by (auto simp: addRead_def buff_at_def)
    then have "echo_event ?op i s = Panic IndexOutOfRange"
      using echo_event_eq [OF ev(2-4) u] that(1) by (simp add: event_typ_def)
    then show ?thesis using assms(2,3) by (simp add: echo_next_def)
  qed
  have good: "\<exists>s'. echo_next k ?op s = Some (Ok s') \<and> es_pc s' = AtEvent (i + 1) n" if "event_ok s ev"
  proof -
    have "\<forall>ev'. next_event s = Some ev' \<longrightarrow> event_ok s ev'" using that ev(1) by simp
    then obtain s' where "echo_next k ?op s = Some (Ok s')"
      using inv_event [OF inv assms(2,3), of k raw len] by blast
    with assms(2,3) show ?thesis by (auto simp: echo_next_def go_outcome)
  qed
  show ?thesis using ev(1,5) good bad by blast
qed

theorem echo_handles_witness:
  "\<exists>s. echo_run ex_idle 0 0 (\<lambda>_. 64) 3 ex_big s \<and>
     echo_next ex_idle (Accept 0 0 (of_int 3) 0) s = Some (Panic IndexOutOfRange)"
proof -
  obtain s where s: "echo_run ex_idle 0 0 (\<lambda>_. 64) 3 ex_big s" "es_pc s = AtEvent 0 1" "next_event s = Some (ex_cqe 3 (- 24))"
    "event_typ s (ex_cqe 3 (- 24)) = ACCEPT" using ex_run [of "ex_cqe 3 (- 24)"] by (auto simp: ex_cqe_def)
  from echo_handles [OF s(1,2)] s(3,4) have "echo_next ex_idle (Accept 0 0 (of_int 3) 0) s = Some (Panic IndexOutOfRange)"
    by (auto simp: ex_cqe_def)
  with s(1) show ?thesis by blast
qed

text \<open>
  C23. What was received is sent back: in every run, handling the completion of a receive of \<open>n > 0\<close>
  bytes queues exactly one entry, a send on the descriptor and from the address of the receive, of
  exactly \<open>n\<close> bytes; a receive that ends with zero or an error queues nothing and shuts the
  descriptor down.
\<close>

theorem echo_replies:
  assumes "echo_run k raw len alloc srv r s" and "next_event s = Some ev" and "event_typ s ev = READ"
    and "sint (cqe_Res ev) \<le> int MaxMsgLen"
  shows "\<exists>s' recv. echo_next k (Accept raw len (of_int srv) 0) s = Some (Ok s') \<and>
     es_sent s (cqe_UserData ev) = Some recv \<and> sqe_OpCode recv = opcode_u8 RecvCode \<and>
     (if 0 < sint (cqe_Res ev)
      then es_shut s' = es_shut s \<and> (\<exists>send. new_entries s s' = [send] \<and> sqe_OpCode send = opcode_u8 SendCode \<and>
        sqe_Fd send = sqe_Fd recv \<and> sqe_Addr send = sqe_Addr recv \<and> int (unat (sqe_Len send)) = sint (cqe_Res ev))
      else new_entries s s' = [] \<and> es_shut s' = es_shut s @ [int (unat (cqe_UserData ev))])"
proof -
  let ?op = "Accept raw len (of_int srv) 0" and ?u = "unat (cqe_UserData ev)" and ?res = "sint (cqe_Res ev)"
  have inv: "echo_inv srv s" by (rule run_inv [OF assms(1)])
  obtain i n where pc: "es_pc s = AtEvent i n" "i < n"
    using assms(2) by (auto simp: next_event_def split: echo_pc.splits if_splits)
  obtain p rest where ev: "i < length (es_cqes s)" "es_cqes s ! i = Some p"
     "cqe_at (es_ring s) p = Ok ev" "cq_ready (cqRing (es_ring s)) = ev # rest"
    using next_event_ready [OF inv pc] assms(2) by auto
  have core: "echo_core (es_sent s) (set (es_fds s)) s" "accept_only srv s" using inv by (simp_all add: echo_inv_def)
  let ?s1 = "s\<lparr>es_ring := AdvanceCQ 1 (es_ring s)\<rparr>"
  note seen = seen_core [OF core ev(4)]
  have t: "ci_typ (es_conns s ! ?u) = READ" using assms(3) by (simp add: event_typ_def)
  have u: "?u < MaxConns" "ci_fd (es_conns s ! ?u) = int ?u" "int ?u \<in> set (es_fds s)" "length (es_conns s) = MaxConns"
    using seen(3) core unfolding request_ok_def echo_core_def by auto
  obtain recv where recv: "es_sent s (cqe_UserData ev) = Some recv" "sqe_OpCode recv = opcode_u8 RecvCode"
    "sqe_Fd recv = of_int (int ?u)" "sqe_Addr recv = sl_base (es_buffs s ! ?u)"
    using seen(3) t u(2) by (auto simp: request_ok_def entry_for_def)
  have b: "echo_event ?op i s = (if ?res \<le> 0 then Ok (?s1\<lparr>es_shut := es_shut s @ [int ?u]\<rparr>) else addWrite (int ?u) ?res ?s1)"
    using echo_event_eq [OF ev(1-3)] u t by simp
  show ?thesis
  proof (cases "?res \<le> 0")
    case True
    with b pc recv(1,2) show ?thesis by (simp add: echo_next_def new_entries_def)
  next
    case False
    have f: "0 \<le> int ?u" "int ?u < int MaxConns" "of_int (int ?u) \<notin> set (live (es_ring ?s1))"
      using u(1) seen(4) by (simp_all only: of_int_unat_u64) simp_all
    obtain e s' where q: "addWrite (int ?u) ?res ?s1 = Ok s'" "queued e ?s1 s'" "sqe_OpCode e = opcode_u8 SendCode"
      "sqe_Fd e = of_int (int ?u)" "sqe_Addr e = sl_base (es_buffs ?s1 ! nat (int ?u))" "int (unat (sqe_Len e)) = ?res"
      using addWrite_ok [OF seen(1) f(1,2) u(3) f(3), of ?res] False assms(4) by auto
    have "es_shut s' = es_shut s" using queued_sel(7) [OF q(2)] by simp
    then show ?thesis using b pc recv q False
      by (intro exI [of _ "s'\<lparr>es_pc := AtEvent (i + 1) n\<rparr>"] exI [of _ recv])
        (simp add: echo_next_def new_entries_def queued_def del: length_sq_pending)
  qed
qed

theorem echo_replies_witness:
  "\<exists>s s' send. echo_run ex_idle 0 0 (\<lambda>_. 64) 3 ex_big s \<and> next_event s = Some (ex_cqe 7 5) \<and>
     echo_next ex_idle (Accept 0 0 (of_int 3) 0) s = Some (Ok s') \<and> new_entries s s' = [send] \<and>
     sqe_OpCode send = opcode_u8 SendCode \<and> unat (sqe_Len send) = 5"
proof -
  obtain s where s: "echo_run ex_idle 0 0 (\<lambda>_. 64) 3 ex_big s" "next_event s = Some (ex_cqe 7 5)"
    "event_typ s (ex_cqe 7 5) = READ" using ex_read_run by blast
  obtain s' send where q: "echo_next ex_idle (Accept 0 0 (of_int 3) 0) s = Some (Ok s')" "new_entries s s' = [send]"
    "sqe_OpCode send = opcode_u8 SendCode" "int (unat (sqe_Len send)) = int 5"
    using echo_replies [OF s] by (auto simp: ex_cqe_def MaxMsgLen_def)
  from q(4) have "unat (sqe_Len send) = 5" by (simp only: of_nat_eq_iff)
  with s(1,2) q(1-3) show ?thesis by blast
qed

end
