(* ===== verification/Example_Multi.thy ===== *)
theory Example_Multi
  imports Example_Echo Net_Serve
begin

text \<open>
  The echo server of \<^verbatim>\<open>src/example/echo-server-multi-thread/main.go\<close>: a goroutine for each connection of
  the listener, with one of three backends: the package \<^verbatim>\<open>net\<close> of the library, on plain rings or on rings
  that poll, or the listener of the standard library, which is a parameter with its connections.
  The size of the buffers and their number are those of the other echo server, as is \<^verbatim>\<open>checkErr\<close>.

  The handler is cut where it waits for \<^verbatim>\<open>Read\<close> and \<^verbatim>\<open>Write\<close>; what these return for an event is
  \<open>Conn_Read_end\<close> and \<open>Conn_Write_end\<close>.
\<close>

section \<open>Start\<close>

definition initBuffs :: "(nat \<Rightarrow> u64) \<Rightarrow> slice list" where
  "initBuffs alloc = map (\<lambda>i. \<lparr>sl_base = alloc i, sl_len = MaxMsgLen\<rparr>) [0..<MaxConns]"

datatype backend = ModeURing | ModeURingSQPoll | ModeDefault

definition parse_mode :: "string \<Rightarrow> backend option" where
  "parse_mode m = (if m = ''uring'' then Some ModeURing else if m = ''uring-sq-poll'' then Some ModeURingSQPoll
     else if m = ''default'' then Some ModeDefault else None)"

text \<open>\<^verbatim>\<open>%d\<close> of \<^verbatim>\<open>fmt\<close>.\<close>

fun digits :: "nat \<Rightarrow> string" where
  "digits n = (if n < 10 then [char_of (48 + n)] else digits (n div 10) @ [char_of (48 + n mod 10)])"

declare digits.simps [simp del]

definition itoa :: "int \<Rightarrow> string" where
  "itoa z = (if z < 0 then ''-'' @ digits (nat (- z)) else digits (nat z))"

text \<open>The backends on io_uring; \<open>logger\<close> is the logger of the program, 100 ms are the idle time.\<close>

definition start_backend ::
  "SetupOption list \<Rightarrow> 'w os \<Rightarrow> 'w sock_os \<Rightarrow> (string \<Rightarrow> go_error + TCPAddr) \<Rightarrow> u64 \<Rightarrow> u64 \<Rightarrow> 'l logger \<Rightarrow> int \<Rightarrow> int \<Rightarrow> int \<Rightarrow>
   'w \<Rightarrow> (TCPAddr Listener \<times> (Ring, conn_cb, 'l) NetworkReactor \<times> Ring list \<times> 'w) outcome" where
  "start_backend opts os so resolve raw len logger ringCount wpCount port w =
     obind (CreateMany os ringCount (drop_bit 3 MaxEntries) wpCount opts w) (\<lambda>(created, w1).
         case created of
           Inl err \<Rightarrow> Panic (PanicErr err)
         | Inr rings \<Rightarrow> obind (NewNet rings [WithLogger logger]) (\<lambda>made.
             case made of
               Inl err \<Rightarrow> Panic (PanicErr err)
             | Inr netReactor \<Rightarrow>
                 (case NewListener so resolve raw len 0 (''0.0.0.0:'' @ itoa port) w1 of
                    (Inl err, _) \<Rightarrow> Panic (PanicErr err)
                  | (Inr listener, w2) \<Rightarrow> Ok (listener, netReactor, rings, w2))))"

text \<open>
  \<^verbatim>\<open>main\<close> up to \<^verbatim>\<open>runServer\<close>; \<open>listenTCP\<close> is \<^verbatim>\<open>net.ListenTCP\<close>. A listener comes with the reactor and the rings
  behind it, if it has some.
\<close>

datatype ('t, 'l) started =
    TCPListener 't
  | UringListener "TCPAddr Listener" "(Ring, conn_cb, 'l) NetworkReactor" "Ring list"

definition multi_main ::
  "string \<Rightarrow> 'w os \<Rightarrow> 'w sock_os \<Rightarrow> (string \<Rightarrow> go_error + TCPAddr) \<Rightarrow> u64 \<Rightarrow> u64 \<Rightarrow> 'l logger \<Rightarrow>
   (int \<Rightarrow> 'w \<Rightarrow> (go_error + 't) \<times> 'w) \<Rightarrow> int \<Rightarrow> int \<Rightarrow> int \<Rightarrow> 'w \<Rightarrow> (('t, 'l) started \<times> 'w) outcome" where
  "multi_main mode os so resolve raw len logger listenTCP ringCount wpCount port w =
     (case parse_mode mode of
        None \<Rightarrow> Panic (PanicErr (NewError ''mode must be one of uring/uring-sq-poll/default''))
      | Some ModeDefault \<Rightarrow>
          (case listenTCP port w of
             (Inl err, _) \<Rightarrow> Panic (PanicErr err)
           | (Inr listener, w1) \<Rightarrow> Ok (TCPListener listener, w1))
      | Some m \<Rightarrow>
          let opts = (if m = ModeURingSQPoll then [WithSQPoll (100 * 1000000)] else [])
          in obind (start_backend opts os so resolve raw len logger ringCount wpCount port w)
               (\<lambda>(listener, netReactor, rings, w1). Ok (UringListener listener netReactor rings, w1)))"

section \<open>The handler\<close>

text \<open>
  The connections of both kinds of listener. \<open>file\<close> is \<^verbatim>\<open>File\<close> of \<^verbatim>\<open>net.TCPConn\<close>, the descriptor of a duplicate of
  the socket; its error is dropped, and \<^verbatim>\<open>Fd\<close> of a nil file is \<open>-1\<close>.
\<close>

datatype ('t, 'a) net_conn = TCPConn 't | UringConn "'a Conn"

definition handler_fd :: "('t \<Rightarrow> go_error + int) \<Rightarrow> ('t, 'a) net_conn \<Rightarrow> int" where
  "handler_fd file conn = (case conn of
     TCPConn c \<Rightarrow> (case file c of Inl _ \<Rightarrow> -1 | Inr fd \<Rightarrow> fd)
   | UringConn c \<Rightarrow> sint (Conn_Fd c))"

datatype handler_pc = Reading | Writing slice | Finished

text \<open>\<^verbatim>\<open>runServer\<close> starts a handler for what \<^verbatim>\<open>Accept\<close> returns; an error of \<^verbatim>\<open>Accept\<close> ends the process.\<close>

definition runServer_accepted ::
  "('t \<Rightarrow> go_error + int) \<Rightarrow> slice list \<Rightarrow> go_error + ('t, 'a) net_conn \<Rightarrow> (('t, 'a) net_conn \<times> slice \<times> handler_pc) outcome" where
  "runServer_accepted file buffs accepted =
     (case accepted of
        Inl err \<Rightarrow> Panic (PanicErr err)
      | Inr conn \<Rightarrow>
          let fd = handler_fd file conn
          in if 0 \<le> fd \<and> fd < int (length buffs) then Ok (conn, buffs ! nat fd, Reading) else Panic IndexOutOfRange)"

definition after_read ::
  "('w \<Rightarrow> go_error option \<times> 'w) \<Rightarrow> slice \<Rightarrow> int \<times> go_error option \<Rightarrow> 'w \<Rightarrow> (handler_pc \<times> 'w) outcome" where
  "after_read close buff res w =
     (case res of (n, err) \<Rightarrow>
        if err = Some EOF \<or> n = 0
        then (case close w of (cerr, w1) \<Rightarrow> obind (checkErr cerr) (\<lambda>_. Ok (Finished, w1)))
        else obind (checkErr err) (\<lambda>_. obind (slice_to buff n) (\<lambda>out. Ok (Writing out, w))))"

definition after_write :: "int \<times> go_error option \<Rightarrow> handler_pc outcome" where
  "after_write res = obind (checkErr (snd res)) (\<lambda>_. Ok Reading)"

text \<open>
  The handler on what its calls get, in order; \<open>rd\<close> and \<open>wr\<close> turn it into the results of \<^verbatim>\<open>Read\<close> and \<^verbatim>\<open>Write\<close>,
  \<open>close\<close> is \<^verbatim>\<open>conn.Close\<close>. The last component of the result are the slices passed to \<^verbatim>\<open>Write\<close>.
\<close>

fun handler ::
  "('w \<Rightarrow> go_error option \<times> 'w) \<Rightarrow> ('e \<Rightarrow> int \<times> go_error option) \<Rightarrow> ('e \<Rightarrow> int \<times> go_error option) \<Rightarrow> slice \<Rightarrow>
   handler_pc \<Rightarrow> 'e list \<Rightarrow> 'w \<Rightarrow> (handler_pc \<times> 'w \<times> slice list) outcome" where
  "handler close rd wr buff Finished evs w = Ok (Finished, w, [])"
| "handler close rd wr buff pc [] w = Ok (pc, w, [])"
| "handler close rd wr buff Reading (ev # evs) w =
     obind (after_read close buff (rd ev) w) (\<lambda>(pc, w1).
     obind (handler close rd wr buff pc evs w1) (\<lambda>(pc2, w2, outs).
       Ok (pc2, w2, (case pc of Writing out \<Rightarrow> out # outs | _ \<Rightarrow> outs))))"
| "handler close rd wr buff (Writing out) (ev # evs) w =
     obind (after_write (wr ev)) (\<lambda>pc. handler close rd wr buff pc evs w)"

text \<open>On a connection of the library the calls get completion events, on one of the standard library their results.\<close>

definition handleConn where
  "handleConn os buff pc evs conn w =
     handler (Conn_Close os conn) (\<lambda>ev. fst (Conn_Read_end ev conn)) (\<lambda>ev. fst (Conn_Write_end ev conn)) buff pc evs w"

definition handleTCP where
  "handleTCP close buff pc results w = handler close (\<lambda>r. r) (\<lambda>r. r) buff pc results w"

section \<open>What the handler does\<close>

lemma Read_end_positive:
  "0 < sint (cqe_Res ev) \<Longrightarrow> fst (Conn_Read_end ev c) = (sint (cqe_Res ev), None)"
  "0 < sint (cqe_Res ev) \<Longrightarrow> fst (Conn_Write_end ev c) = (sint (cqe_Res ev), None)"
  by (auto simp: Conn_Read_end_def Conn_Write_end_def CQEvent_Error_def)

lemma Read_end_rest: "sint (cqe_Res ev) \<le> 0 \<Longrightarrow> fst (fst (Conn_Read_end ev c)) = 0"
  by (auto simp: Conn_Read_end_def CQEvent_Error_def)

lemma handler_ends:
  assumes "fst (rd ev) = 0 \<or> snd (rd ev) = Some EOF" and "close w = (None, w')"
  shows "handler close rd wr buff Reading (ev # evs) w = Ok (Finished, w', [])"
  using assms by (cases "rd ev"; cases evs) (auto simp: after_read_def checkErr_def)

lemma handler_run:
  assumes "length reads = length writes" and "\<forall>r\<in>set reads. snd (rd r) = None \<and> 0 < fst (rd r) \<and> fst (rd r) \<le> int (sl_len buff)"
    and "\<forall>r\<in>set writes. snd (wr r) = None"
    and "fst (rd end) = 0 \<or> snd (rd end) = Some EOF" and "close w = (None, w')"
  shows "handler close rd wr buff Reading (concat (map (\<lambda>(a, b). [a, b]) (zip reads writes)) @ [end]) w =
     Ok (Finished, w', map (\<lambda>r. buff\<lparr>sl_len := nat (fst (rd r))\<rparr>) reads)"
  using assms(1-3)
proof (induction reads writes rule: list_induct2)
  case Nil
  then show ?case using handler_ends [of rd "end" close w w'] assms(4,5) by simp
next
  case (Cons r rs v vs)
  have "after_read close buff (rd r) w = Ok (Writing (buff\<lparr>sl_len := nat (fst (rd r))\<rparr>), w)"
    using Cons.prems(1) by (cases "rd r") (simp add: after_read_def checkErr_def slice_to_def)
  moreover have "after_write (wr v) = Ok Reading" using Cons.prems(2) by (simp add: after_write_def checkErr_def)
  ultimately show ?case using Cons by simp
qed

section \<open>Properties\<close>

text \<open>
  C25. The handler echoes. On a connection of the library: on receives of any numbers of bytes, each
  followed by a send that succeeds, and then a receive that fails or ends the stream, it passes to
  \<^verbatim>\<open>Write\<close> the prefix of the buffer of each length in turn, closes the connection once, and is finished.
  How much a send accepted does not matter: the rest of a short write is never sent. Every failure of a
  receive ends the connection only, every failure of a send the whole process.
\<close>

theorem handler_echoes:
  assumes "length reads = length writes" and "\<forall>ev \<in> set reads. 0 < sint (cqe_Res ev) \<and> sint (cqe_Res ev) \<le> int (sl_len buff)"
    and "\<forall>ev \<in> set writes. 0 < sint (cqe_Res ev)"
    and "sint (cqe_Res last_ev) \<le> 0" and "os_close os (c_fd c) w = (None, w')"
  shows "handleConn os buff Reading (concat (map (\<lambda>(a, b). [a, b]) (zip reads writes)) @ [last_ev]) c w =
       Ok (Finished, w', map (\<lambda>ev. buff\<lparr>sl_len := nat (sint (cqe_Res ev))\<rparr>) reads) \<and>
     (\<exists>e. handleConn os buff (Writing out) (last_ev # evs) c w = Panic (PanicErr (OpError ''write'' e)))"
proof
  let ?rd = "\<lambda>ev. fst (Conn_Read_end ev c)" let ?wr = "\<lambda>ev. fst (Conn_Write_end ev c)"
  have rd: "\<forall>ev\<in>set reads. ?rd ev = (sint (cqe_Res ev), None)" and wr: "\<forall>ev\<in>set writes. ?wr ev = (sint (cqe_Res ev), None)"
    using assms(2,3) Read_end_positive by blast+
  have "handler (Conn_Close os c) ?rd ?wr buff Reading (concat (map (\<lambda>(a, b). [a, b]) (zip reads writes)) @ [last_ev]) w =
     Ok (Finished, w', map (\<lambda>r. buff\<lparr>sl_len := nat (fst (?rd r))\<rparr>) reads)"
    by (rule handler_run) (use assms rd wr Read_end_rest in \<open>auto simp: Conn_Close_def\<close>)
  moreover have "map (\<lambda>r. buff\<lparr>sl_len := nat (fst (?rd r))\<rparr>) reads = map (\<lambda>ev. buff\<lparr>sl_len := nat (sint (cqe_Res ev))\<rparr>) reads"
    using rd by (intro map_cong) auto
  ultimately show "handleConn os buff Reading (concat (map (\<lambda>(a, b). [a, b]) (zip reads writes)) @ [last_ev]) c w =
       Ok (Finished, w', map (\<lambda>ev. buff\<lparr>sl_len := nat (sint (cqe_Res ev))\<rparr>) reads)" by (simp add: handleConn_def)
next
  show "\<exists>e. handleConn os buff (Writing out) (last_ev # evs) c w = Panic (PanicErr (OpError ''write'' e))"
    using assms(4)
    by (auto simp: handleConn_def Conn_Write_end_def after_write_def checkErr_def CQEvent_Error_None Res_zero split: option.splits)
qed

theorem handler_echoes_witness:
  "let buff = \<lparr>sl_base = 4096, sl_len = 2048\<rparr>; c = newConn 7 ex_addr None; ev = (\<lambda>n. \<lparr>cqe_UserData = 1, cqe_Res = n, cqe_Flags = 0\<rparr>)
   in handleConn ex_os buff Reading [ev 100, ev 60, ev 0] c 0 = Ok (Finished, snd (os_close ex_os 7 0), [buff\<lparr>sl_len := 100\<rparr>])"
proof -
  let ?buff = "\<lparr>sl_base = 4096, sl_len = 2048\<rparr>" and ?c = "newConn 7 ex_addr None"
    and ?ev = "\<lambda>n. \<lparr>cqe_UserData = 1, cqe_Res = n, cqe_Flags = 0\<rparr> :: CQEvent"
  have close: "os_close ex_os (c_fd ?c) 0 = (None, snd (os_close ex_os 7 0))" by (simp add: ex_os_def newConn_def)
  from handler_echoes [of "[?ev 100]" "[?ev 60]" ?buff "?ev 0" ex_os ?c 0, OF _ _ _ _ close] show ?thesis by (simp add: Let_def)
qed

text \<open>The same on a connection of the standard library; there \<^verbatim>\<open>Read\<close> reports the end as \<^verbatim>\<open>io.EOF\<close>.\<close>

lemma handleTCP_echoes:
  assumes "length reads = length writes" and "\<forall>(n, err)\<in>set reads. err = None \<and> 0 < n \<and> n \<le> int (sl_len buff)"
    and "\<forall>(n, err)\<in>set writes. err = None" and "close w = (None, w')"
  shows "handleTCP close buff Reading (concat (map (\<lambda>(a, b). [a, b]) (zip reads writes)) @ [(0, Some EOF)]) w =
     Ok (Finished, w', map (\<lambda>r. buff\<lparr>sl_len := nat (fst r)\<rparr>) reads)"
  unfolding handleTCP_def by (rule handler_run) (use assms in auto)

text \<open>
  A program that has started has the rings asked for, each with the features the reactor needs and
  with a loop of its own, and a listener at the resolved address with no call under way.
\<close>

lemma start_backend_loops:
  assumes "0 < wpCount" and "start_backend opts os so resolve raw len logger ringCount wpCount port w =
     Ok (l, r :: (Ring, conn_cb, 'l) NetworkReactor, rings, w')"
  shows "int (length rings) = ringCount \<and> map nl_ring (nr_loops r) = rings \<and> cfg_logger (nr_config r) = logger \<and>
     (\<forall>x \<in> set rings. ExtArgFeature (Params x) \<and> FastPollFeature (Params x)) \<and>
     resolve (''0.0.0.0:'' @ itoa port) = Inr (l_addr l) \<and> l_calls l = []"
proof -
  obtain created w1 where c0: "CreateMany os ringCount (drop_bit 3 MaxEntries) wpCount opts w = Ok (Inr created, w1)"
    using assms(2)
    by (cases "CreateMany os ringCount (drop_bit 3 MaxEntries) wpCount opts w")
      (auto simp: start_backend_def split: sum.split_asm)
  obtain made where n0: "NewNet created [WithLogger logger] = Ok (Inr (made :: (Ring, conn_cb, 'l) NetworkReactor))"
    using assms(2) c0
    by (cases "NewNet created [WithLogger logger] :: (go_error + (Ring, conn_cb, 'l) NetworkReactor) outcome")
      (auto simp: start_backend_def split: sum.split_asm)
  have c: "CreateMany os ringCount (drop_bit 3 MaxEntries) wpCount opts w = Ok (Inr rings, w1)"
    and n: "NewNet rings [WithLogger logger] = Ok (Inr r)"
    and l: "NewListener so resolve raw len 0 (''0.0.0.0:'' @ itoa port) w1 = (Inr l, w')"
    using assms(2) c0 n0 by (auto simp: start_backend_def split: sum.split_asm prod.split_asm)
  have "int (length rings) = ringCount" by (rule CreateMany_length [OF assms(1) c])
  moreover have "checkRings True rings = None" "map nl_ring (nr_loops r) = rings" "cfg_logger (nr_config r) = logger"
    using n by (auto simp: NewNet_def go_outcome newRingNetEventLoop_def comp_def apply_opts_def WithLogger_def
        split: option.splits)
  moreover have "\<forall>x \<in> set rings. ExtArgFeature (Params x) \<and> FastPollFeature (Params x)"
    using checkRings_cases [of rings] calculation(2) by auto
  moreover have "resolve (''0.0.0.0:'' @ itoa port) = Inr (l_addr l) \<and> l_calls l = []"
    using l by (auto simp: NewListener_def split: sum.splits prod.splits)
  ultimately show ?thesis by blast
qed

text \<open>
  The rings poll for submissions exactly in the mode that asks for it; a mode that is none of the three
  ends the program before it has opened anything.
\<close>

lemma multi_main_modes:
  "multi_main ''uring'' os so resolve raw len lg tcp rc wp port w
     = obind (start_backend [] os so resolve raw len lg rc wp port w) (\<lambda>(l, r, rings, w1). Ok (UringListener l r rings, w1))"
  "multi_main ''uring-sq-poll'' os so resolve raw len lg tcp rc wp port w
     = obind (start_backend [WithSQPoll 100000000] os so resolve raw len lg rc wp port w) (\<lambda>(l, r, rings, w1). Ok (UringListener l r rings, w1))"
  "m \<notin> {''uring'', ''uring-sq-poll'', ''default''} \<Longrightarrow> \<exists>e. multi_main m os so resolve raw len lg tcp rc wp port w = Panic (PanicErr e)"
  by (simp_all add: multi_main_def parse_mode_def)

end
