(* ===== verification/Example_Http.thy ===== *)
theory Example_Http
  imports Example_Multi
begin

text \<open>
  The HTTP server of \<^verbatim>\<open>src/example/http-server/main.go\<close>: four handlers, and a start on rings or on the
  listener of the standard library. Of \<^verbatim>\<open>net/http\<close> the model has what the handlers use: a response whose
  headers are fixed when its status is written, the choice of a handler by the path, and the server
  that answers a panic of a handler by closing the connection. Reading a request and writing a
  response on the wire are not modelled.
\<close>

section \<open>Responses\<close>

record ResponseWriter =
  rw_header :: "string \<rightharpoonup> string"
  rw_status :: "int option"
  rw_sent :: "string \<rightharpoonup> string"
  rw_body :: string

definition new_response :: ResponseWriter where
  "new_response = \<lparr>rw_header = Map.empty, rw_status = None, rw_sent = Map.empty, rw_body = []\<rparr>"

text \<open>\<^verbatim>\<open>WriteHeader\<close> takes a copy of the headers; a second call is superfluous and ignored.\<close>

definition WriteHeader :: "int \<Rightarrow> ResponseWriter \<Rightarrow> ResponseWriter" where
  "WriteHeader code w =
     (case rw_status w of None \<Rightarrow> w\<lparr>rw_status := Some code, rw_sent := rw_header w\<rparr> | Some _ \<Rightarrow> w)"

definition Header_Set :: "string \<Rightarrow> string \<Rightarrow> ResponseWriter \<Rightarrow> ResponseWriter" where
  "Header_Set key val w = w\<lparr>rw_header := (rw_header w)(key \<mapsto> val)\<rparr>"

definition http_Write :: "string \<Rightarrow> ResponseWriter \<Rightarrow> ResponseWriter" where
  "http_Write bs w = (let w1 = WriteHeader 200 w in w1\<lparr>rw_body := rw_body w1 @ bs\<rparr>)"

text \<open>
  The end of a handler: a status that was not written is 200, and a response with a body and without a
  content type gets the one \<open>detect\<close> finds in its first 512 bytes (\<^verbatim>\<open>http.DetectContentType\<close>).
\<close>

definition finish :: "(string \<Rightarrow> string) \<Rightarrow> ResponseWriter \<Rightarrow> int \<times> (string \<rightharpoonup> string) \<times> string" where
  "finish detect w =
     (let w1 = WriteHeader 200 w;
          hs = (if rw_sent w1 ''Content-Type'' = None \<and> rw_body w1 \<noteq> []
                then (rw_sent w1)(''Content-Type'' \<mapsto> detect (take 512 (rw_body w1))) else rw_sent w1)
      in (the (rw_status w1), hs, rw_body w1))"

section \<open>The handlers\<close>

text \<open>
  A request as the handlers see it. \<open>hr_file\<close> is the result of \<^verbatim>\<open>FormFile\<close> after \<^verbatim>\<open>ParseMultipartForm\<close>, whose own error
  is dropped; \<open>up_Header\<close> is the printed form of the MIME header.
\<close>

record upload =
  up_Filename :: string
  up_Size :: int
  up_Header :: string

record http_request =
  hr_Method :: string
  hr_Path :: string
  hr_Body :: string
  hr_file :: "go_error + upload"

definition ping :: "ResponseWriter \<Rightarrow> ResponseWriter" where
  "ping w = http_Write ''pong\<newline>'' (WriteHeader 200 w)"

definition post :: "http_request \<Rightarrow> ResponseWriter \<Rightarrow> ResponseWriter" where
  "post request w =
     (if hr_Method request \<noteq> ''POST'' then WriteHeader 400 w
      else http_Write (''you send: '' @ hr_Body request) (WriteHeader 200 w))"

text \<open>\<open>read_file\<close> is what \<^verbatim>\<open>os.ReadFile\<close> returns for the picture.\<close>

definition get_file :: "go_error + string \<Rightarrow> ResponseWriter \<Rightarrow> ResponseWriter outcome" where
  "get_file read_file w =
     (case read_file of
        Inl err \<Rightarrow> Panic (PanicErr err)
      | Inr file \<Rightarrow>
          let w1 = WriteHeader 200 w; w2 = Header_Set ''Content-Type'' ''application/octet-stream'' w1
          in Ok (http_Write file w2))"

definition file_info :: "http_request \<Rightarrow> ResponseWriter \<Rightarrow> ResponseWriter outcome" where
  "file_info request w =
     (case hr_file request of
        Inl err \<Rightarrow> Panic (PanicErr err)
      | Inr up \<Rightarrow>
          let w1 = WriteHeader 200 w;
              w2 = http_Write (''Uploaded File: '' @ up_Filename up @ ''\<newline>'') w1;
              w3 = http_Write (''File Size: '' @ itoa (up_Size up) @ ''\<newline>'') w2
          in Ok (http_Write (''MIME Header: '' @ up_Header up @ ''\<newline>'') w3))"

text \<open>\<^verbatim>\<open>http.NotFound\<close>, and the multiplexer on a path in canonical form: all four patterns are exact paths.\<close>

definition NotFound :: "ResponseWriter \<Rightarrow> ResponseWriter" where
  "NotFound w = http_Write ''404 page not found\<newline>'' (WriteHeader 404
     (Header_Set ''X-Content-Type-Options'' ''nosniff'' (Header_Set ''Content-Type'' ''text/plain; charset=utf-8'' w)))"

definition ServeMux :: "go_error + string \<Rightarrow> http_request \<Rightarrow> ResponseWriter \<Rightarrow> ResponseWriter outcome" where
  "ServeMux read_file request w =
     (if hr_Path request = ''/ping'' then Ok (ping w)
      else if hr_Path request = ''/post'' then Ok (post request w)
      else if hr_Path request = ''/get-file'' then get_file read_file w
      else if hr_Path request = ''/file-info'' then file_info request w
      else Ok (NotFound w))"

text \<open>A panic of a handler is recovered by the server, which drops the connection.\<close>

definition respond ::
  "(string \<Rightarrow> string) \<Rightarrow> go_error + string \<Rightarrow> http_request \<Rightarrow> (int \<times> (string \<rightharpoonup> string) \<times> string) option" where
  "respond detect read_file request =
     (case ServeMux read_file request new_response of Ok w \<Rightarrow> Some (finish detect w) | Panic p \<Rightarrow> None)"

section \<open>Start\<close>

text \<open>
  \<open>serve\<close> is \<^verbatim>\<open>server.Serve\<close>, \<open>server_close\<close> the deferred \<^verbatim>\<open>server.Close\<close>. The error of \<^verbatim>\<open>Listen\<close> is dropped in \<^verbatim>\<open>defSrv\<close>; serving on the
  nil listener then dereferences it. A panic runs the deferred calls.
\<close>

definition http_checkErr :: "go_error option \<Rightarrow> unit outcome" where
  "http_checkErr err = (case err of None \<Rightarrow> Ok () | Some e \<Rightarrow> Panic (PanicErr e))"

definition defSrv :: "('w \<Rightarrow> (go_error + 't) \<times> 'w) \<Rightarrow> ('t \<Rightarrow> 'w \<Rightarrow> go_error option \<times> 'w) \<Rightarrow> 'w \<Rightarrow> unit outcome \<times> 'w" where
  "defSrv listen serve w =
     (case listen w of
        (Inl _, w1) \<Rightarrow> (Panic NilDeref, w1)
      | (Inr l, w1) \<Rightarrow> (case serve l w1 of (err, w2) \<Rightarrow> (http_checkErr err, w2)))"

definition serve_rings ::
  "'w sock_os \<Rightarrow> (string \<Rightarrow> go_error + TCPAddr) \<Rightarrow> u64 \<Rightarrow> u64 \<Rightarrow>
   (TCPAddr Listener \<Rightarrow> (Ring, conn_cb, unit) NetworkReactor \<Rightarrow> 'w \<Rightarrow> go_error option \<times> 'w) \<Rightarrow> ('w \<Rightarrow> 'w) \<Rightarrow>
   Ring list \<Rightarrow> 'w \<Rightarrow> unit outcome \<times> 'w" where
  "serve_rings so resolve raw len serve server_close rings w =
     (case NewNet rings [] of
        Panic p \<Rightarrow> (Panic p, w)
      | Ok (Inl err) \<Rightarrow> (Panic (PanicErr err), w)
      | Ok (Inr reactor) \<Rightarrow>
          (case NewListener so resolve raw len 0 ''0.0.0.0:8080'' w of
             (Inl err, w1) \<Rightarrow> (Panic (PanicErr err), w1)
           | (Inr l, w1) \<Rightarrow> (case serve l reactor w1 of (err, w2) \<Rightarrow> (http_checkErr err, server_close w2))))"

definition ringSrv where
  "ringSrv os so resolve raw len serve server_close ringCnt w =
     (case CreateMany os ringCnt (drop_bit 2 MaxEntries) 1 [] w of
        Panic p \<Rightarrow> (Panic p, w)
      | Ok (Inl err, w1) \<Rightarrow> (Panic (PanicErr err), w1)
      | Ok (Inr rings, w1) \<Rightarrow>
          (case serve_rings so resolve raw len serve server_close rings w1 of (res, w2) \<Rightarrow>
             (case close_deferred os rings None w2 of
                Panic p \<Rightarrow> (Panic p, w2)
              | Ok (_, w3) \<Rightarrow> (res, w3))))"

definition http_main where
  "http_main noURing os so resolve raw len listen def_serve serve server_close ringCnt w =
     (if noURing then defSrv listen def_serve w else ringSrv os so resolve raw len serve server_close ringCnt w)"

section \<open>What the server answers\<close>

lemma WriteHeader_fresh: "rw_status w = None \<Longrightarrow> rw_status (WriteHeader c w) = Some c \<and> rw_sent (WriteHeader c w) = rw_header w"
  by (simp add: WriteHeader_def)

lemma WriteHeader_again: "rw_status w = Some c \<Longrightarrow> WriteHeader d w = w"
  by (simp add: WriteHeader_def)

lemma http_Write_again: "rw_status w = Some c \<Longrightarrow> http_Write bs w = w\<lparr>rw_body := rw_body w @ bs\<rparr>"
  by (simp add: http_Write_def WriteHeader_again)

lemmas response_simps = new_response_def WriteHeader_def http_Write_def Header_Set_def finish_def

text \<open>Once the status is written the headers of the answer do not change any more, whatever the handler sets.\<close>

lemma headers_fixed:
  assumes "rw_status w = Some c"
  shows "finish detect (http_Write bs (Header_Set k v w)) = finish detect (http_Write bs w)"
  using assms by (simp add: response_simps Let_def)

text \<open>Serving never returns without an error (\<^verbatim>\<open>net/http\<close>): every start ends in a panic, after the rings were closed.\<close>

lemma ringSrv_closes:
  assumes "CreateMany os ringCnt (drop_bit 2 MaxEntries) 1 [] w = Ok (Inr rings, w1)"
    and "close_deferred os rings None (snd (serve_rings so resolve raw len serve server_close rings w1)) = Ok (e, w3)"
  shows "ringSrv os so resolve raw len serve server_close ringCnt w
    = (fst (serve_rings so resolve raw len serve server_close rings w1), w3)"
  using assms by (cases "serve_rings so resolve raw len serve server_close rings w1") (simp add: ringSrv_def)

section \<open>Properties\<close>

text \<open>
  What the server answers on each path, and that a header set too late is lost: \<^verbatim>\<open>/get-file\<close> sets the
  content type after it has written the status, so the answer carries the type that is guessed from
  the file and never the one the handler names. A file that cannot be read, or a form without a file,
  drops the connection without an answer.
\<close>

theorem http_answers:
  "(hr_Path q = ''/ping'' \<longrightarrow> respond detect rf q = Some (200, [''Content-Type'' \<mapsto> detect ''pong\<newline>''], ''pong\<newline>'')) \<and>
   (hr_Path q = ''/post'' \<longrightarrow> (if hr_Method q \<noteq> ''POST'' then respond detect rf q = Some (400, Map.empty, [])
      else \<exists>hs. respond detect rf q = Some (200, hs, ''you send: '' @ hr_Body q))) \<and>
   (hr_Path q = ''/get-file'' \<longrightarrow> (case rf of Inl e \<Rightarrow> respond detect rf q = None
      | Inr file \<Rightarrow> file \<noteq> [] \<longrightarrow> respond detect rf q = Some (200, [''Content-Type'' \<mapsto> detect (take 512 file)], file))) \<and>
   (hr_Path q = ''/file-info'' \<longrightarrow> (respond detect rf q = None \<longleftrightarrow> (\<exists>e. hr_file q = Inl e))) \<and>
   (hr_Path q \<notin> {''/ping'', ''/post'', ''/get-file'', ''/file-info''} \<longrightarrow>
      (\<exists>hs. respond detect rf q = Some (404, hs, ''404 page not found\<newline>'')))"
  by (auto simp: respond_def ServeMux_def ping_def post_def get_file_def file_info_def NotFound_def response_simps
      Let_def split: sum.splits)

theorem http_answers_witness:
  "respond (\<lambda>_. ''image/png'') (Inr ''PNG'') \<lparr>hr_Method = ''GET'', hr_Path = ''/get-file'', hr_Body = [], hr_file = Inl EOF\<rparr>
     = Some (200, [''Content-Type'' \<mapsto> ''image/png''], ''PNG'')"
  using http_answers [of "\<lparr>hr_Method = ''GET'', hr_Path = ''/get-file'', hr_Body = [], hr_file = Inl EOF\<rparr>" "\<lambda>_. ''image/png''" "Inr ''PNG''"]
  by simp

end
