(* ===== verification/Spec2Isabelle.thy ===== *)
theory Spec2Isabelle
  imports Uring_Register Reactor_Loop Reactor_Run Reactor_Lock Net_Batch Example_Epoll Example_Http
begin

text \<open>
  A verification development for \<^bold>\<open>go-uring\<close>, a Go library for Linux's io_uring interface.

  \<^bold>\<open>The program.\<close> Package \<^verbatim>\<open>uring\<close> (\<^verbatim>\<open>src/uring\<close>) wraps one io_uring instance: a submission queue
  and a completion queue in memory shared with the kernel, the operations that can be queued,
  and the calls that submit and wait. Package \<^verbatim>\<open>reactor\<close> (\<^verbatim>\<open>src/reactor\<close>) runs event loops over
  rings: a client queues an operation with a callback, a publisher goroutine submits, a
  consumer goroutine waits for completions and calls the callbacks. \<^verbatim>\<open>Reactor\<close> is the general
  one, with a callback map per loop; \<^verbatim>\<open>NetworkReactor\<close> is made for sockets, with a registry of
  callbacks sharded by file descriptor and a channel per loop. Package \<^verbatim>\<open>net\<close> (\<^verbatim>\<open>src/net\<close>) builds
  \<^verbatim>\<open>net.Conn\<close> and \<^verbatim>\<open>net.Listener\<close> on the network reactor; \<^verbatim>\<open>src/example\<close> holds sample servers.

  \<^bold>\<open>Theories and sources.\<close>
  \<^item> \<^verbatim>\<open>Uring_Prelude\<close>: machine words, Go errors with \<^verbatim>\<open>errors.Is\<close>, panics as values
    (type \<open>outcome\<close>), Go's truncated division, and the arithmetic of ring indices. Two contracts of
    step relations: locale \<open>invariant_system\<close> (an invariant that steps keep, for runs that satisfy a
    side condition) and its extension \<open>simulation\<close>; every machine below interprets one of them.
  \<^item> \<^verbatim>\<open>Uring_Syscall\<close>: \<^verbatim>\<open>syscall.go\<close>, \<^verbatim>\<open>atomic.go\<close> and \<^verbatim>\<open>atomic_amd64.go\<close>: entries, events, \<^verbatim>\<open>io_uring_enter\<close>.
    The kernel is a parameter of every operation that enters it.
  \<^item> \<^verbatim>\<open>Uring_Operation\<close>: \<^verbatim>\<open>operation.go\<close>: opcodes, operation structs, \<^verbatim>\<open>PrepSQE\<close>; locale
    \<open>operation\<close>, interpreted as \<open>uop\<close>.
  \<^item> \<^verbatim>\<open>Uring_Ring\<close>: \<^verbatim>\<open>ring.go\<close> (queueing, submitting, waiting, peeking) and the parameter structs
    and feature tests of \<^verbatim>\<open>setup.go\<close>. A ring is a record whose queue fields are the cells the Go
    pointers point to.
  \<^item> \<^verbatim>\<open>Uring_SQ\<close>, \<^verbatim>\<open>Uring_CQ\<close>: correctness of the two queues. Invariants \<open>sq_wf\<close> and \<open>cq_wf\<close>; the
    abstractions \<open>sq_pending\<close>, \<open>sq_published\<close>, \<open>cq_ready\<close> read a queue as a list; locales
    \<open>submission_queue\<close> and \<open>completion_queue\<close> are the contracts, interpreted as \<open>rsq\<close> and \<open>rcq\<close>.
  \<^item> \<^verbatim>\<open>Uring_Setup\<close>: creating and closing rings: the options, \<^verbatim>\<open>New\<close>, \<^verbatim>\<open>CreateMany\<close> and \<^verbatim>\<open>Close\<close> of
    \<^verbatim>\<open>ring.go\<close>, \<^verbatim>\<open>allocRing\<close> and \<^verbatim>\<open>freeRing\<close> of \<^verbatim>\<open>setup.go\<close>. The operating system is a parameter, a
    record of the four calls the code makes; a mapping is its address, length and words.
  \<^item> \<^verbatim>\<open>Uring_Register\<close>: \<^verbatim>\<open>register.go\<close> and \<^verbatim>\<open>sysRegister\<close>: probing, buffers and files. What a call passes
    is the memory behind its pointer as 32-bit words, and what the kernel sees is read from them.
  \<^item> \<^verbatim>\<open>Reactor_Registry\<close>: \<^verbatim>\<open>registry.go\<close>; locale \<open>callback_store\<close>, interpreted for a shard (\<open>shd\<close>) and,
    through \<open>sharded_store\<close>, for the registry (\<open>creg\<close>).
  \<^item> \<^verbatim>\<open>Reactor_Kernel\<close>: the kernel as environment of a loop: it takes published entries, completes a
    request it took with one event, changes the flags; nothing else (\<open>kernel_conforms\<close>).
  \<^item> \<^verbatim>\<open>Reactor_Dispatch\<close>: what both consumers share (the batch loop, \<^verbatim>\<open>requirements.go\<close>, the
    configuration); locale \<open>callback_source\<close>, interpreted with the callback map (\<open>cbm\<close>) and the
    registry (\<open>rgc\<close>).
  \<^item> \<^verbatim>\<open>Reactor_Loop\<close>: \<^verbatim>\<open>reactor.go\<close>; runs of a loop are the step relation \<open>loop_step\<close>.
  \<^item> \<^verbatim>\<open>Reactor_Net\<close>: \<^verbatim>\<open>net.go\<close>; runs of a reactor with all its loops are the step relation \<open>net_step\<close>, made
    of the steps of clients, of the consumers (\<open>consumer_step\<close>) and of the rest (\<open>background_step\<close>).
    \<^verbatim>\<open>Reactor_Batch\<close>: the consumer of \<^verbatim>\<open>net.go\<close> inside a batch, statement by statement (\<open>batch_step\<close>), and what
    its unhandled events and its pointers into the queue are while the kernel goes on posting.
  \<^item> \<^verbatim>\<open>Reactor_Stop\<close>, \<^verbatim>\<open>Reactor_Run\<close>: the goroutines of a loop as a state machine over their channels, and
    \<^verbatim>\<open>Run\<close>, which stops all loops of a reactor. \<^verbatim>\<open>Reactor_Lock\<close>: the two mutexes of a loop of \<^verbatim>\<open>reactor.go\<close>.
  \<^item> \<^verbatim>\<open>Net_Conn\<close>, \<^verbatim>\<open>Net_Listener\<close>: \<^verbatim>\<open>netconn.go\<close> and \<^verbatim>\<open>listner.go\<close>: connections with their locks, channels
    and deadlines, the listening socket, accepting, keep-alive. The socket calls are a parameter.
  \<^item> \<^verbatim>\<open>Net_Mailbox\<close>: the books of callers that wait for the event of a callback, for any step of the
    network reactor. \<^verbatim>\<open>Net_Serve\<close>: runs of a server, its connections and its reactor together, as the
    step relation \<open>conn_step\<close>, with the invariant \<open>conn_inv\<close>. \<^verbatim>\<open>Net_Block\<close>: the same server with consumers
    that wait for the receiver of each event (\<open>block_step\<close>), a refinement of \<open>conn_step\<close>. \<^verbatim>\<open>Net_Batch\<close>: with
    consumers that peek, handle one event and advance in steps of their own (\<open>serve_step\<close>), a refinement
    of \<open>block_step\<close>.
  \<^item> \<^verbatim>\<open>Example_Echo\<close>: \<^verbatim>\<open>example/echo-server/uring\<close>, a server that drives a ring itself; runs are the step
    relation \<open>echo_step\<close>, the invariant is \<open>echo_inv\<close>; locale \<open>slot_operation\<close> is the contract of the
    three functions that queue a request, interpreted as \<open>rd\<close>, \<open>wr\<close> and \<open>ac\<close>. \<^verbatim>\<open>Example_Epoll\<close>:
    \<^verbatim>\<open>example/echo-server/epoll\<close>, the same server on epoll. \<^verbatim>\<open>Example_Multi\<close>:
    \<^verbatim>\<open>example/echo-server-multi-thread\<close>, a handler for each connection, with its three backends.
    \<^verbatim>\<open>Example_Http\<close>: \<^verbatim>\<open>example/http-server\<close>, its handlers and its start.

  \<^bold>\<open>What the theorems show.\<close> The submission queue is a FIFO and completions are read in order,
  also where the 32-bit counters wrap (C1, C2), with the functional
  behaviour of each ring operation on every branch (C26 to C29); the kernel reads from an entry
  the request of the operation that was prepared (C30). In
  every run the reactors account for every request: it is outstanding, its callback was called
  once with its own event, or it was dropped with an error (C3, C5); a
  consumer's round returns and serves all waiting events (C4, C6). In every run
  of a server on the package \<^verbatim>\<open>net\<close> each \<^verbatim>\<open>Read\<close> and \<^verbatim>\<open>Write\<close> gets its own event, each \<^verbatim>\<open>Accept\<close> one of an accept
  request, every event reaches one call, and connections
  are well formed (C7, C21), with the results of C24; consumers
  that wait for the receivers change nothing in this (C8), nor do consumers that
  take one statement at a time, whose pointers stay valid until they advance
  (C9), and every batch is completed (C10). The registry keeps callbacks under their nonces, the
  shard of a descriptor has the number of its loop (C17 to
  C19, C33), and nonces are fresh (C20), also where the counter wraps. Stopping a reactor
  neither panics nor deadlocks (C15, C16), and neither do the locks of a loop as
  long as callbacks do not queue on it (C14). A new ring lies within the memory that was mapped for it; on
  memory initialised as documented it is empty and satisfies the queue invariants (C40). The echo server has one request for each descriptor, tells
  its completions apart, and sends back what it received (C11, C22,
  C23); so does a handler of the multi-threaded one (C25).

  Flaws of the code are theorems too: a timeout that does not fit makes the consumer call a nil
  function (C12), a callback that queues on its own loop blocks it
  (C13), a request for memory of size zero panics (second half of C30), an overflow loses the
  callback and hangs the caller (C32, C36), a failed submission is
  not repeated (C34), a call on a stopped reactor panics (C35), a
  deadline set at the wrong moment cancels an operation that is over (C37), of registered files the
  kernel sees zeros in between (C39), a failed accept ends the echo server (second half of
  C22), the epoll server leaves data unread (C38).

  \<^bold>\<open>Modelling decisions.\<close>
  \<^item> Memory. Reads and writes through \<^verbatim>\<open>unsafe\<close> outside the mapped queues are \<open>Panic WildAccess\<close>; the
    theorems exclude them for well-formed rings. Well-formed sizes are powers of two up to the
    kernel's limits, \<open>2 ^ 15\<close> submission and \<open>2 ^ 16\<close> completion slots.
  \<^item> Loops. \<^verbatim>\<open>peekCQEvent\<close>, the batch loop and \<^verbatim>\<open>nextNonce\<close> are total functions with termination
    proofs; \<^verbatim>\<open>getCQEvents\<close> and the consumer's loop depend on the kernel, are partial functions into
    \<open>option\<close>, and are shown to return. No fuel is used.
  \<^item> Concurrency. What a mutex or a single goroutine serialises is one step; the step relations
    interleave these steps with each other and with the kernel in any order. A channel is a list;
    a blocked send has no step. The atomics are sequentially consistent.
  \<^item> The kernel is a parameter. In the runs of a loop, of a network reactor and of a server every call of it may
    have another result: the steps that enter it are for any kernel with \<open>kernel_conforms\<close>.
  \<^item> Side conditions of runs. The accounting of a run stops where a request under way loses its callback.
    \<open>ns_torn\<close> records it for the network reactor and the servers: a linked timeout did not fit (C12 shows what
    happens then), a nonce came round while an old request was outstanding, or a client passed nil. \<open>ls_reused\<close>
    records it for a plain loop: a nonce was used twice or a nil callback accepted. The step relations do not exclude
    these runs; the theorems that need it have the condition as a hypothesis. Waiting is for rings with the
    extended-argument feature, which the reactors require and the echo server does not check.
  \<^item> Kernel hypotheses are named: \<open>kernel_completes\<close>, \<open>kernel_waits\<close>, \<open>kernel_conforms\<close>; each witness
    uses a concrete kernel that satisfies them.
  \<^item> Callbacks are client code; the model records that they are called and with what. The callbacks of
    the package \<^verbatim>\<open>net\<close> send on an unbuffered channel. \<open>Net_Serve\<close> lists the events offered on a channel and
    lets the consumer go on; in \<open>Net_Block\<close> the consumer waits. In both a consumer reads a batch, takes its
    callbacks from the registry and advances in one step; \<open>Net_Batch\<close> has these as separate steps. The callers of
    \<^verbatim>\<open>Accept\<close> share a channel: any of them takes any event.
  \<^item> Blocking methods of connections are cut where they wait; the lock field says where its holder is.
  \<^item> \<^verbatim>\<open>log.Fatal\<close> in the samples is a panic with the error, since both end the process.
  \<^item> Creation. \<^verbatim>\<open>CreateMany\<close> keeps the \<^verbatim>\<open>Close\<close> methods in a Go map, which is iterated in no fixed order;
    the model closes in the order of creation. What the system promises are named hypotheses: a mapping has
    the length asked for (\<open>mmap_exact\<close>), the fields of a queue lie within its documented size (\<open>sq_layout\<close>,
    \<open>cq_layout\<close>), and what fresh queues hold (\<open>fresh_sq\<close>, \<open>fresh_cq\<close>).
  \<^item> Servers. What \<^verbatim>\<open>net/http\<close> does with a handler is modelled as far as the sample uses it; its parsing and
    its wire format are not. The listener and the connections of the standard library, in the mode
    \<^verbatim>\<open>default\<close> of the multi-threaded server, are parameters.

  \<^bold>\<open>Not modelled.\<close> Logging, \<^verbatim>\<open>runtime.Gosched\<close>, \<^verbatim>\<open>runtime.LockOSThread\<close> and \<^verbatim>\<open>runtime.KeepAlive\<close> have no
  effect in the model, nor does what the samples print. The
  profiling endpoint of the HTTP server is \<^verbatim>\<open>net/http/pprof\<close>; command line flags are the arguments of
  the \<^verbatim>\<open>main\<close> functions.
\<close>

section \<open>From a queued operation to its callback\<close>

text \<open>
  C33. The identifier a client gets back, and the kernel returns with the completion, leads the
  consumer to the client's callback: after \<^verbatim>\<open>queue\<close> has registered an operation on a descriptor,
  the consumer's lookup with the user data of the request gives that callback, and a second
  lookup gives nil.
\<close>

theorem queued_callback_found:
  assumes "registry_inv (nr_registry r)" and "0 \<le> fd" and "fd < 2 ^ 31"
    and "net_register op fd cb timeout r = Ok (ud, i, req, r')"
  shows "rq_userData req = ud \<and> rq_op req = op \<and> i < length (nr_loops r) \<and>
     (\<exists>reg'. take_registered (rq_userData req) (nr_registry r') = Ok (cb, reg') \<and>
        (\<exists>reg''. take_registered (rq_userData req) reg' = Ok (None, reg'')))"
proof -
  have fd: "0 \<le> fd" "fd < 2 ^ 32" using assms(2,3) by auto
  obtain n reg where add: "registry_add fd cb (nr_registry r) = Ok (n, reg)" "registry_inv reg"
    "\<forall>v. registered reg v = (if v = packRequestID fd n then cb else registered (nr_registry r) v)"
    using add_registered [OF assms(1) fd] by blast
  with assms(4) have r': "ud = packRequestID fd n" "r' = r\<lparr>nr_registry := reg\<rparr>" "rq_userData req = ud"
    "rq_op req = op" "i < length (nr_loops r)"
    by (auto simp: net_register_def Let_def go_outcome dest: loopForFd_bound)
  obtain reg' where pop: "take_registered ud reg = Ok (registered reg ud, reg')" "registry_inv reg'"
    "registered reg' ud = None"
    using pop_registered [OF add(2), of ud] by (auto simp: take_registered_def)
  obtain reg'' where "take_registered ud reg' = Ok (None, reg'')"
    using pop_registered [OF pop(2), of ud] pop(3) by (auto simp: take_registered_def)
  with pop(1) add(3) r' show ?thesis by auto
qed

theorem queued_callback_found_witness:
  "\<exists>ud i req r' reg'. net_register (RecvOp 80 \<lparr>sl_base = 64, sl_len = 8\<rparr> 0) 80 (Some 5) 0
       \<lparr>nr_loops = [newRingNetEventLoop ex_kring, newRingNetEventLoop ex_full], nr_registry = ex_registry,
         nr_config = default_config :: unit configuration\<rparr> = Ok (ud, i, req, r') \<and>
     take_registered (rq_userData req) (nr_registry r') = Ok (Some 5, reg')"
proof -
  let ?r = "\<lparr>nr_loops = [newRingNetEventLoop ex_kring, newRingNetEventLoop ex_full], nr_registry = ex_registry,
         nr_config = default_config :: unit configuration\<rparr>"
  let ?op = "RecvOp 80 \<lparr>sl_base = 64, sl_len = 8\<rparr> 0"
  obtain n reg where "registry_add 80 (Some 5) ex_registry = Ok (n, reg)"
    using add_registered [OF ex_registry_inv, of 80 "Some 5"] by auto
  then obtain ud i req r' where q: "net_register ?op 80 (Some 5) 0 ?r = Ok (ud, i, req, r')"
    by (simp add: net_register_def loopForFd_def fdPerGranule_def Let_def)
  from queued_callback_found [OF _ _ _ q] ex_registry_inv q show ?thesis by auto
qed

end
